(* ===== verification/Prelude.thy ===== *)
theory Prelude
  imports Main
begin

text \<open>
  Shared foundations: the development's theorem collections, the fixed-width
  arithmetic of Go's \<open>int64\<close> (and so of \<open>time.Duration\<close>), the parts of the
  packages \<open>time\<close>, \<open>strings\<close> and \<open>strconv\<close> the service uses, and generic
  lemmas on lists that several components share.

  Strings are byte strings; the functions on them are those of the Go library
  restricted to ASCII text (the environment keys, agent ids and stream ids the
  service handles).
\<close>

named_theorems go_defs \<open>primitive operations of the runtime, unfolded together\<close>
named_theorems frame \<open>what an operation leaves unchanged\<close>

type_synonym bytes = string
type_synonym duration = int \<comment> \<open>nanoseconds, an int64\<close>
type_synonym time = int \<comment> \<open>nanoseconds since Go's zero time, 1 January of year 1, UTC\<close>

section \<open>Fixed-width integers\<close>

definition minInt64 :: int where
  "minInt64 = - (2 ^ 63)"

definition maxInt64 :: int where
  "maxInt64 = 2 ^ 63 - 1"

definition wrap64 :: "int \<Rightarrow> int" where
  "wrap64 x = (x + 2 ^ 63) mod 2 ^ 64 - 2 ^ 63"

definition in64 :: "int \<Rightarrow> bool" where
  "in64 x \<longleftrightarrow> minInt64 \<le> x \<and> x \<le> maxInt64"

section \<open>Durations and instants\<close>

abbreviation millisecond :: duration where "millisecond \<equiv> 1000000"
abbreviation second :: duration where "second \<equiv> 1000000000"
abbreviation minute :: duration where "minute \<equiv> 60 * second"
abbreviation hour :: duration where "hour \<equiv> 60 * minute"

definition zero_time :: time where
  "zero_time = 0"

text \<open>\<open>Time.Sub\<close> saturates at the ends of the duration range.\<close>

definition time_Sub :: "time \<Rightarrow> time \<Rightarrow> duration" where
  "time_Sub t u = max minInt64 (min maxInt64 (t - u))"

text \<open>\<open>Time.Truncate\<close> rounds down to a multiple of \<open>d\<close> since the zero time; a
  non-positive \<open>d\<close> leaves the instant as it is.\<close>

definition time_Truncate :: "time \<Rightarrow> duration \<Rightarrow> time" where
  "time_Truncate t d = (if d \<le> 0 then t else t - t mod d)"

section \<open>Decimal numerals\<close>

definition digit_char :: "nat \<Rightarrow> char" where
  "digit_char n = char_of (48 + n)"

definition is_digit :: "char \<Rightarrow> bool" where
  "is_digit c \<longleftrightarrow> 48 \<le> (of_char c :: nat) \<and> (of_char c :: nat) \<le> 57"

definition digit_val :: "char \<Rightarrow> nat" where
  "digit_val c = of_char c - 48"

fun show_nat :: "nat \<Rightarrow> string" where
  "show_nat n = (if n < 10 then [digit_char n] else show_nat (n div 10) @ [digit_char (n mod 10)])"

definition strconv_Itoa :: "int \<Rightarrow> string" where
  "strconv_Itoa i = (if i < 0 then CHR ''-'' # show_nat (nat (- i)) else show_nat (nat i))"

fun digits_val :: "nat \<Rightarrow> string \<Rightarrow> nat" where
  "digits_val acc [] = acc"
| "digits_val acc (c # cs) = digits_val (10 * acc + digit_val c) cs"

section \<open>The strings package\<close>

definition is_space :: "char \<Rightarrow> bool" where
  "is_space c \<longleftrightarrow> c = CHR '' '' \<or> (9 \<le> (of_char c :: nat) \<and> (of_char c :: nat) \<le> 13)"

definition strings_TrimSpace :: "string \<Rightarrow> string" where
  "strings_TrimSpace s = rev (dropWhile is_space (rev (dropWhile is_space s)))"

fun strings_Split :: "char \<Rightarrow> string \<Rightarrow> string list" where
  "strings_Split sep [] = [[]]"
| "strings_Split sep (c # cs) =
     (if c = sep then [] # strings_Split sep cs
      else (case strings_Split sep cs of
              [] \<Rightarrow> [[c]]
            | p # ps \<Rightarrow> (c # p) # ps))"

text \<open>\<open>strings.Cut\<close> around the first occurrence of a one-byte separator: before, after,
  found.\<close>

definition strings_Cut :: "char \<Rightarrow> string \<Rightarrow> string \<times> string \<times> bool" where
  "strings_Cut sep s =
     (if sep \<in> set s
      then (takeWhile (\<lambda>c. c \<noteq> sep) s, tl (dropWhile (\<lambda>c. c \<noteq> sep) s), True)
      else (s, [], False))"

fun has_prefix :: "string \<Rightarrow> string \<Rightarrow> bool" where
  "has_prefix [] s = True"
| "has_prefix (p # ps) [] = False"
| "has_prefix (p # ps) (c # cs) = (p = c \<and> has_prefix ps cs)"

fun strings_Contains :: "string \<Rightarrow> string \<Rightarrow> bool" where
  "strings_Contains [] sub = (sub = [])"
| "strings_Contains (c # cs) sub = (has_prefix sub (c # cs) \<or> strings_Contains cs sub)"

text \<open>\<open>%q\<close>: a double-quoted literal, for ASCII text.\<close>

definition hex_char :: "nat \<Rightarrow> char" where
  "hex_char n = (if n < 10 then char_of (48 + n) else char_of (87 + n))"

definition quote_char :: "char \<Rightarrow> string" where
  "quote_char c =
     (let n = (of_char c :: nat); bs = char_of (92 :: nat) in
      if n = 34 \<or> n = 92 then [bs, c]
      else if n = 7 then [bs, CHR ''a''] else if n = 8 then [bs, CHR ''b'']
      else if n = 9 then [bs, CHR ''t''] else if n = 10 then [bs, CHR ''n'']
      else if n = 11 then [bs, CHR ''v''] else if n = 12 then [bs, CHR ''f'']
      else if n = 13 then [bs, CHR ''r'']
      else if n < 32 \<or> n = 127 then [bs, CHR ''x'', hex_char (n div 16), hex_char (n mod 16)]
      else [c])"

definition strconv_Quote :: "string \<Rightarrow> string" where
  "strconv_Quote s = char_of (34 :: nat) # concat (map quote_char s) @ [char_of (34 :: nat)]"

fun strings_Join :: "string \<Rightarrow> string list \<Rightarrow> string" where
  "strings_Join sep [] = []"
| "strings_Join sep [x] = x"
| "strings_Join sep (x # y # ys) = x @ sep @ strings_Join sep (y # ys)"

section \<open>Lemmas\<close>

lemma wrap64_in64 [simp, intro]: "in64 (wrap64 x)"
proof -
  have "0 \<le> (x + 2 ^ 63) mod 2 ^ 64" and "(x + 2 ^ 63) mod 2 ^ 64 < 2 ^ 64"
    by simp_all
  then show ?thesis
    by (simp add: in64_def wrap64_def minInt64_def maxInt64_def)
qed

lemma wrap64_id [simp]: "in64 x \<Longrightarrow> wrap64 x = x"
  by (simp add: in64_def wrap64_def minInt64_def maxInt64_def)

lemma wrap64_high: "maxInt64 < x \<Longrightarrow> x \<le> 2 * maxInt64 + 1 \<Longrightarrow> wrap64 x = x - 2 ^ 64"
proof -
  assume "maxInt64 < x" and "x \<le> 2 * maxInt64 + 1"
  then have "2 ^ 64 \<le> x + 2 ^ 63" and "x + 2 ^ 63 < 2 * 2 ^ 64"
    by (simp_all add: maxInt64_def)
  then have "(x + 2 ^ 63) mod 2 ^ 64 = x + 2 ^ 63 - 2 ^ 64"
    by (subst mod_pos_geq) simp_all
  then show ?thesis by (simp add: wrap64_def)
qed

lemma time_Sub_self [simp]: "time_Sub t t = 0"
  by (simp add: time_Sub_def minInt64_def maxInt64_def)

lemma time_Sub_exact: "in64 (t - u) \<Longrightarrow> time_Sub t u = t - u"
  by (simp add: time_Sub_def in64_def)

lemma time_Sub_less: "d \<le> maxInt64 \<Longrightarrow> time_Sub t u < d \<longleftrightarrow> t - u < d \<and> minInt64 < d"
  by (auto simp: time_Sub_def minInt64_def maxInt64_def)

lemma time_Sub_le: "minInt64 < d \<Longrightarrow> d \<le> maxInt64 \<Longrightarrow> d \<le> time_Sub t u \<longleftrightarrow> d \<le> t - u"
  by (auto simp: time_Sub_def)

lemma time_Truncate_le: "time_Truncate t d \<le> t"
  by (simp add: time_Truncate_def)

lemma time_Truncate_gt: "0 < d \<Longrightarrow> t < time_Truncate t d + d"
  using pos_mod_bound [of d t] by (simp add: time_Truncate_def)

lemma time_Truncate_dvd: "0 < d \<Longrightarrow> d dvd time_Truncate t d"
  by (simp add: time_Truncate_def minus_mod_eq_mult_div)

lemma time_Truncate_idem [simp]: "time_Truncate (time_Truncate t d) d = time_Truncate t d"
  by (simp add: time_Truncate_def minus_mod_eq_mult_div)

lemma time_Truncate_mono: "t \<le> u \<Longrightarrow> time_Truncate t d \<le> time_Truncate u d"
proof (cases "d \<le> 0")
  case False
  assume "t \<le> u"
  with False have "d * (t div d) \<le> d * (u div d)"
    by (simp add: zdiv_mono1)
  with False show ?thesis by (simp add: time_Truncate_def minus_mod_eq_mult_div)
qed (simp add: time_Truncate_def)

text \<open>Numerals: printing and reading back.\<close>

declare show_nat.simps [simp del]

lemma digit_char_props [simp]:
  "n < 10 \<Longrightarrow> is_digit (digit_char n)" "n < 10 \<Longrightarrow> digit_val (digit_char n) = n"
  by (simp_all add: is_digit_def digit_char_def digit_val_def)

lemma show_nat_digits: "c \<in> set (show_nat n) \<Longrightarrow> is_digit c"
proof (induction n rule: show_nat.induct)
  case (1 n)
  then show ?case
    by (cases "n < 10") (auto simp: show_nat.simps [of n])
qed

lemma show_nat_nonempty [simp]: "show_nat n \<noteq> []"
  by (subst show_nat.simps) simp

lemma digits_val_append: "digits_val a (xs @ ys) = digits_val (digits_val a xs) ys"
  by (induction xs arbitrary: a) simp_all

lemma digits_val_show_nat [simp]: "digits_val 0 (show_nat n) = n"
proof (induction n rule: show_nat.induct)
  case (1 n)
  then show ?case
    by (cases "n < 10") (simp_all add: show_nat.simps [of n] digits_val_append)
qed

lemma show_nat_inj: "show_nat m = show_nat n \<Longrightarrow> m = n"
  by (metis digits_val_show_nat)

text \<open>Splitting and trimming.\<close>

lemma strings_Split_nonempty [simp]: "strings_Split sep s \<noteq> []"
  by (induction s) (auto split: list.splits)

lemma strings_Split_no_sep: "p \<in> set (strings_Split sep s) \<Longrightarrow> sep \<notin> set p"
  by (induction s arbitrary: p) (force split: list.splits if_splits)+

lemma strings_TrimSpace_set: "set (strings_TrimSpace s) \<subseteq> set s"
  by (auto simp: strings_TrimSpace_def dest!: set_dropWhileD)

lemma strings_Cut_found:
  "sep \<notin> set a \<Longrightarrow> strings_Cut sep (a @ sep # b) = (a, b, True)"
  by (auto simp: strings_Cut_def takeWhile_append dropWhile_append)

lemma cons_append_eq: "a @ [x] @ b = a' @ [x] @ b' \<Longrightarrow> x \<notin> set a \<Longrightarrow> x \<notin> set a' \<Longrightarrow> a = a' \<and> b = b'"
  by (auto simp: append_eq_append_conv2 append_eq_Cons_conv Cons_eq_append_conv)

lemma list_all2_mem: "list_all2 P xs ys \<Longrightarrow> y \<in> set ys \<Longrightarrow> \<exists>x \<in> set xs. P x y"
  by (induction rule: list_all2_induct) auto

end
