(* ===== verification/GoRuntime.thy ===== *)
theory GoRuntime
  imports Prelude
begin

text \<open>
  The runtime the service's code runs on, as explicit state: error values and their
  wrapping chains, panics, contexts, the clock, the random source, structured logging
  and the metrics registry (\<open>internal/observability/logging.go\<close>, \<open>metrics.go\<close>), and
  the trace of commands issued to systems outside the process (Redis, HTTP
  destinations, the mail server).

  Systems outside the process are parameters: a call to one is a function of the
  context, the instant and the outside state \<open>'n\<close>, and gives a reply, the time the
  call took and the new outside state. \<open>call\<close> runs one, advances the clock and records
  the command. A context is done from a fixed but arbitrary instant on, so
  cancellation can happen at every point of a run. Time passes in calls and waits
  only.
\<close>

section \<open>Errors and panics\<close>

datatype FailureKind = Transient | Permanent

datatype gerror =
    DispatchError FailureKind int gerror \<comment> \<open>\<open>*dispatch.Error\<close>: kind, status, cause\<close>
  | Wrapf string gerror \<comment> \<open>\<open>fmt.Errorf("...: %w", err)\<close>\<close>
  | Suffixf gerror string \<comment> \<open>\<open>fmt.Errorf("%w: ...", err)\<close>\<close>
  | ErrUnprocessable \<comment> \<open>\<open>envelope.ErrUnprocessable\<close>\<close>
  | ContextCanceled
  | ContextDeadlineExceeded
  | RedisNil \<comment> \<open>\<open>goredis.Nil\<close>\<close>
  | ErrorString string \<comment> \<open>every other error, by its text\<close>

text \<open>A function that may panic returns \<open>Panic\<close> with the panic value's text.\<close>

datatype 'a gores = Ret 'a | Panic string

fun FailureKind_String :: "FailureKind \<Rightarrow> string" where
  "FailureKind_String Permanent = ''permanent''"
| "FailureKind_String Transient = ''transient''"

fun error_Error :: "gerror \<Rightarrow> string" where
  "error_Error (DispatchError k st e) =
     (if st \<noteq> 0
      then FailureKind_String k @ '' failure: status '' @ strconv_Itoa st @ '': '' @ error_Error e
      else FailureKind_String k @ '' failure: '' @ error_Error e)"
| "error_Error (Wrapf p e) = p @ '': '' @ error_Error e"
| "error_Error (Suffixf e s) = error_Error e @ '': '' @ s"
| "error_Error ErrUnprocessable = ''unprocessable entry''"
| "error_Error ContextCanceled = ''context canceled''"
| "error_Error ContextDeadlineExceeded = ''context deadline exceeded''"
| "error_Error RedisNil = ''redis: nil''"
| "error_Error (ErrorString s) = s"

text \<open>\<open>errors.Is\<close> walks the chain of wrapped errors; \<open>errors.As\<close> for
  \<open>*dispatch.Error\<close> returns the kind of the first one in the chain.\<close>

fun errors_Is :: "gerror \<Rightarrow> gerror \<Rightarrow> bool" where
  "errors_Is (DispatchError k st e) t = (DispatchError k st e = t \<or> errors_Is e t)"
| "errors_Is (Wrapf p e) t = (Wrapf p e = t \<or> errors_Is e t)"
| "errors_Is (Suffixf e s) t = (Suffixf e s = t \<or> errors_Is e t)"
| "errors_Is e t = (e = t)"

fun errors_As_dispatch :: "gerror \<Rightarrow> FailureKind option" where
  "errors_As_dispatch (DispatchError k st e) = Some k"
| "errors_As_dispatch (Wrapf p e) = errors_As_dispatch e"
| "errors_As_dispatch (Suffixf e s) = errors_As_dispatch e"
| "errors_As_dispatch _ = None"

section \<open>Contexts\<close>

record ctx =
  cancel_at :: "time option" \<comment> \<open>the instant a parent cancels it\<close>
  deadline :: "time option"
  attemptKey :: "int option" \<comment> \<open>the value under \<open>dispatch.attemptKey\<close>\<close>

definition background :: ctx where
  "background = \<lparr>cancel_at = None, deadline = None, attemptKey = None\<rparr>"

fun reached :: "time option \<Rightarrow> time \<Rightarrow> bool" where
  "reached None t = False"
| "reached (Some c) t = (c \<le> t)"

definition opt_min :: "time option \<Rightarrow> time option \<Rightarrow> time option" where
  "opt_min a b = (case a of None \<Rightarrow> b | Some x \<Rightarrow> (case b of None \<Rightarrow> a | Some y \<Rightarrow> Some (min x y)))"

definition with_timeout :: "ctx \<Rightarrow> time \<Rightarrow> duration \<Rightarrow> ctx" where
  "with_timeout c t d = c\<lparr>deadline := opt_min (deadline c) (Some (t + d))\<rparr>"

text \<open>\<open>ctx.Err()\<close> at an instant: whichever of cancellation and deadline came first.\<close>

definition ctx_Err_at :: "ctx \<Rightarrow> time \<Rightarrow> gerror option" where
  "ctx_Err_at c t =
     (if reached (cancel_at c) t \<and> opt_min (cancel_at c) (deadline c) = cancel_at c
      then Some ContextCanceled
      else if reached (deadline c) t then Some ContextDeadlineExceeded
      else None)"

definition done_at :: "ctx \<Rightarrow> time option" where
  "done_at c = opt_min (cancel_at c) (deadline c)"

section \<open>Structured logging\<close>

datatype level = LDebug | LInfo | LWarn | LError

fun level_num :: "level \<Rightarrow> int" where
  "level_num LDebug = -4"
| "level_num LInfo = 0"
| "level_num LWarn = 4"
| "level_num LError = 8"

datatype attr_value = AStr string | AInt int | ABool bool | ATime time | ADur duration

type_synonym attrs = "(string \<times> attr_value) list"

record logline =
  l_level :: level
  l_msg :: string
  l_attrs :: attrs

record logger =
  min_level :: level
  base_attrs :: attrs

section \<open>Commands issued to the outside\<close>

record http_request =
  r_url :: string
  r_headers :: "(string \<times> string) list"
  r_body :: bytes

datatype cmd =
    XGROUP_CREATE string string string \<comment> \<open>stream, group, start id\<close>
  | XREADGROUP string string string string int duration \<comment> \<open>stream, id, group, consumer, count, block\<close>
  | XACK string string string \<comment> \<open>stream, group, entry id\<close>
  | XINFO_GROUPS string
  | XINFO_STREAM string
  | XINFO_CONSUMERS string string
  | XLEN string
  | XPENDING string string
  | XAUTOCLAIM string string string duration string int
      \<comment> \<open>stream, group, consumer, min idle, start, count\<close>
  | XGROUP_DELCONSUMER string string string \<comment> \<open>stream, group, consumer\<close>
  | BLPOP string duration
  | LLEN string
  | PING
  | HTTP_POST http_request
  | SMTP_SEND string string string bytes \<comment> \<open>server, from, to, message\<close>

section \<open>The process's world\<close>

type_synonym series = "string \<times> string list" \<comment> \<open>metric name, label values\<close>

record 'n world =
  clock :: time
  draws :: "nat \<Rightarrow> int" \<comment> \<open>raw values of the random source\<close>
  drawn :: nat
  counters :: "series \<Rightarrow> nat"
  gauges :: "series \<Rightarrow> int"
  histograms :: "series \<Rightarrow> duration list"
  logs :: "logline list"
  trace :: "cmd list"
  outside :: 'n

definition start_world :: "time \<Rightarrow> (nat \<Rightarrow> int) \<Rightarrow> 'n \<Rightarrow> 'n world" where
  "start_world t r n =
     \<lparr>clock = t, draws = r, drawn = 0, counters = (\<lambda>_. 0), gauges = (\<lambda>_. 0),
      histograms = (\<lambda>_. []), logs = [], trace = [], outside = n\<rparr>"

type_synonym ('n, 'r) external = "ctx \<Rightarrow> time \<Rightarrow> 'n \<Rightarrow> 'r \<times> nat \<times> 'n"

definition call :: "cmd \<Rightarrow> ('n, 'r) external \<Rightarrow> ctx \<Rightarrow> 'n world \<Rightarrow> 'r \<times> 'n world" where
  "call c f cx w =
     (case f cx (clock w) (outside w) of
        (r, d, n) \<Rightarrow> (r, w\<lparr>clock := clock w + int d, trace := trace w @ [c], outside := n\<rparr>))"

text \<open>An outside that gives the same reply to a command whenever it is asked.\<close>

definition replies :: "('n, 'r) external \<Rightarrow> 'r \<Rightarrow> bool" where
  "replies f r \<longleftrightarrow> (\<forall>c t n. fst (f c t n) = r)"

definition still :: "'r \<Rightarrow> ('n, 'r) external" where
  "still r c t n = (r, 0, n)"

definition ctx_Err :: "ctx \<Rightarrow> 'n world \<Rightarrow> gerror option" where
  "ctx_Err c w = ctx_Err_at c (clock w)"

text \<open>\<open>rand.Int64N(n)\<close> panics unless \<open>n > 0\<close> and otherwise gives some value of
  \<open>[0, n)\<close>.\<close>

definition rand_Int64N :: "int \<Rightarrow> 'n world \<Rightarrow> int gores \<times> 'n world" where
  "rand_Int64N n w =
     (if n \<le> 0 then (Panic ''invalid argument to Int64N'', w)
      else (Ret (draws w (drawn w) mod n), w\<lparr>drawn := Suc (drawn w)\<rparr>))"

text \<open>
  \<open>select { case <-ctx.Done(): ... case <-time.After(d): ... }\<close>: \<open>True\<close> when the context
  wins. The earlier of the two instants wins; when both are ready together the choice
  is the random source's. A non-positive \<open>d\<close> fires at once.
\<close>

definition select_done_after :: "ctx \<Rightarrow> duration \<Rightarrow> 'n world \<Rightarrow> bool \<times> 'n world" where
  "select_done_after c d w =
     (let fire = clock w + max 0 d in
      case done_at c of
        None \<Rightarrow> (False, w\<lparr>clock := fire\<rparr>)
      | Some t \<Rightarrow>
          (let dn = max t (clock w) in
           if dn < fire then (True, w\<lparr>clock := dn\<rparr>)
           else if fire < dn then (False, w\<lparr>clock := fire\<rparr>)
           else (even (draws w (drawn w)), w\<lparr>clock := fire, drawn := Suc (drawn w)\<rparr>)))"

definition log_at :: "logger \<Rightarrow> level \<Rightarrow> string \<Rightarrow> attrs \<Rightarrow> 'n world \<Rightarrow> 'n world" where
  "log_at lg lv msg as w =
     (if level_num (min_level lg) \<le> level_num lv
      then w\<lparr>logs := logs w @ [\<lparr>l_level = lv, l_msg = msg, l_attrs = base_attrs lg @ as\<rparr>]\<rparr>
      else w)"

definition log_With :: "logger \<Rightarrow> attrs \<Rightarrow> logger" where
  "log_With lg as = lg\<lparr>base_attrs := base_attrs lg @ as\<rparr>"

definition counter_Inc :: "string \<Rightarrow> string list \<Rightarrow> 'n world \<Rightarrow> 'n world" where
  "counter_Inc m ls w = w\<lparr>counters := (counters w)((m, ls) := Suc (counters w (m, ls)))\<rparr>"

definition gauge_Set :: "string \<Rightarrow> string list \<Rightarrow> int \<Rightarrow> 'n world \<Rightarrow> 'n world" where
  "gauge_Set m ls v w = w\<lparr>gauges := (gauges w)((m, ls) := v)\<rparr>"

definition histogram_Observe :: "string \<Rightarrow> string list \<Rightarrow> duration \<Rightarrow> 'n world \<Rightarrow> 'n world" where
  "histogram_Observe m ls v w =
     w\<lparr>histograms := (histograms w)((m, ls) := histograms w (m, ls) @ [v])\<rparr>"

text \<open>A step that leaves logs and metrics alone, and the commands a step issues.\<close>

definition quiet :: "'n world \<Rightarrow> 'n world \<Rightarrow> bool" where
  "quiet w w' \<longleftrightarrow> logs w' = logs w \<and> counters w' = counters w \<and> gauges w' = gauges w \<and>
     histograms w' = histograms w \<and> clock w \<le> clock w'"

definition issued :: "'n world \<Rightarrow> 'n world \<Rightarrow> cmd list" where
  "issued w w' = drop (length (trace w)) (trace w')"

definition extends :: "'n world \<Rightarrow> 'n world \<Rightarrow> bool" where
  "extends w w' \<longleftrightarrow> trace w' = trace w @ issued w w'"

section \<open>internal/observability/logging.go\<close>

definition to_lower :: "char \<Rightarrow> char" where
  "to_lower c = (if 65 \<le> (of_char c :: nat) \<and> (of_char c :: nat) \<le> 90
                 then char_of ((of_char c :: nat) + 32) else c)"

definition NewLogger :: "string \<Rightarrow> logger" where
  "NewLogger lvl =
     (let l = map to_lower (strings_TrimSpace lvl) in
      \<lparr>min_level =
         (if l = ''debug'' then LDebug
          else if l = ''warn'' \<or> l = ''warning'' then LWarn
          else if l = ''error'' then LError
          else LInfo),
       base_attrs = []\<rparr>)"

definition ForAgent :: "logger \<Rightarrow> string \<Rightarrow> string \<Rightarrow> logger" where
  "ForAgent base agentID source = log_With base [(''agent'', AStr agentID), (''source'', AStr source)]"

section \<open>Lemmas\<close>

lemmas [go_defs] = log_at_def log_With_def counter_Inc_def gauge_Set_def histogram_Observe_def
  ctx_Err_def

lemma error_levels_always_enabled [simp]: "level_num l \<le> 8"
  by (cases l) simp_all

lemma log_error [simp]:
  "logs (log_at lg LError msg as w) =
     logs w @ [\<lparr>l_level = LError, l_msg = msg, l_attrs = base_attrs lg @ as\<rparr>]"
  by (simp add: log_at_def)

lemma log_at_frame [frame, simp]:
  "clock (log_at lg lv m as w) = clock w"
  "draws (log_at lg lv m as w) = draws w"
  "drawn (log_at lg lv m as w) = drawn w"
  "counters (log_at lg lv m as w) = counters w"
  "gauges (log_at lg lv m as w) = gauges w"
  "histograms (log_at lg lv m as w) = histograms w"
  "trace (log_at lg lv m as w) = trace w"
  "outside (log_at lg lv m as w) = outside w"
  by (simp_all add: log_at_def)

lemma metrics_frame [frame, simp]:
  "clock (counter_Inc m ls w) = clock w" "clock (gauge_Set m ls g w) = clock w"
  "clock (histogram_Observe m ls v w) = clock w"
  "logs (counter_Inc m ls w) = logs w" "logs (gauge_Set m ls g w) = logs w"
  "logs (histogram_Observe m ls v w) = logs w"
  "trace (counter_Inc m ls w) = trace w" "trace (gauge_Set m ls g w) = trace w"
  "trace (histogram_Observe m ls v w) = trace w"
  "outside (counter_Inc m ls w) = outside w" "outside (gauge_Set m ls g w) = outside w"
  "outside (histogram_Observe m ls v w) = outside w"
  "counters (gauge_Set m ls g w) = counters w"
  "counters (histogram_Observe m ls v w) = counters w"
  "gauges (counter_Inc m ls w) = gauges w" "gauges (histogram_Observe m ls v w) = gauges w"
  "drawn (counter_Inc m ls w) = drawn w" "drawn (gauge_Set m ls g w) = drawn w"
  "drawn (histogram_Observe m ls v w) = drawn w"
  "draws (counter_Inc m ls w) = draws w" "draws (gauge_Set m ls g w) = draws w"
  "draws (histogram_Observe m ls v w) = draws w"
  by (simp_all add: counter_Inc_def gauge_Set_def histogram_Observe_def)

lemma counters_Inc [simp]:
  "counters (counter_Inc m ls w) =
     (counters w)((m, ls) := Suc (counters w (m, ls)))"
  by (simp add: counter_Inc_def)

lemma gauges_Set [simp]: "gauges (gauge_Set m ls v w) = (gauges w)((m, ls) := v)"
  by (simp add: gauge_Set_def)

lemma call_frame [frame]:
  assumes "call c f cx w = (r, w')"
  shows "logs w' = logs w" "counters w' = counters w" "gauges w' = gauges w"
    "histograms w' = histograms w" "draws w' = draws w" "drawn w' = drawn w"
    "trace w' = trace w @ [c]" "clock w \<le> clock w'"
  using assms by (auto simp: call_def split: prod.splits)

lemma replies_still [simp]: "replies (still r) q \<longleftrightarrow> r = q"
  by (simp add: replies_def still_def)

lemma call_replies: "replies f r \<Longrightarrow> \<exists>w'. call c f cx w = (r, w')"
  by (auto simp: call_def replies_def split: prod.split) (metis fst_conv)

lemma call_replies_eq: "replies f r \<Longrightarrow> call c f cx w = (q, w') \<Longrightarrow> q = r"
  by (auto simp: call_def replies_def split: prod.splits) (metis fst_conv)

lemma rand_frame [frame]:
  assumes "rand_Int64N n w = (r, w')"
  shows "logs w' = logs w" "counters w' = counters w" "gauges w' = gauges w"
    "histograms w' = histograms w" "trace w' = trace w" "outside w' = outside w"
    "clock w' = clock w"
  using assms by (auto simp: rand_Int64N_def split: if_splits)

lemma rand_Ret_iff: "(\<exists>v. fst (rand_Int64N n w) = Ret v) \<longleftrightarrow> 0 < n"
  by (simp add: rand_Int64N_def)

lemma rand_range: "rand_Int64N n w = (Ret v, w') \<Longrightarrow> 0 \<le> v \<and> v < n"
  by (auto simp: rand_Int64N_def split: if_splits)

lemma select_frame [frame]:
  assumes "select_done_after c d w = (b, w')"
  shows "logs w' = logs w" "counters w' = counters w" "gauges w' = gauges w"
    "histograms w' = histograms w" "trace w' = trace w" "outside w' = outside w"
    "clock w \<le> clock w'" "clock w' \<le> clock w + max 0 d"
  using assms by (auto simp: select_done_after_def Let_def split: option.splits if_splits)

lemma ctx_Err_background [simp]: "ctx_Err background w = None"
  by (simp add: ctx_Err_def ctx_Err_at_def background_def)

lemma errors_Is_refl [simp]: "errors_Is e e"
  by (cases e) simp_all

text \<open>Composing steps.\<close>

lemma extends_refl [simp]: "extends w w" "issued w w = []"
  by (simp_all add: extends_def issued_def)

lemma extendsI: "trace w' = trace w @ cs \<Longrightarrow> extends w w' \<and> issued w w' = cs"
  by (simp add: extends_def issued_def)

lemma extends_trans:
  assumes "extends w w1" and "extends w1 w2"
  shows "extends w w2" "issued w w2 = issued w w1 @ issued w1 w2"
  using assms unfolding extends_def issued_def by (metis append.assoc append_eq_conv_conj)+

lemma quiet_refl [simp]: "quiet w w"
  by (simp add: quiet_def)

lemma quiet_trans: "quiet w w1 \<Longrightarrow> quiet w1 w2 \<Longrightarrow> quiet w w2"
  by (auto simp: quiet_def)

lemma call_quiet: "call c f cx w = (r, w') \<Longrightarrow> quiet w w' \<and> extends w w' \<and> issued w w' = [c]"
  by (auto simp: quiet_def dest: call_frame intro!: extendsI [THEN conjunct1] extendsI [THEN conjunct2])

lemma rand_quiet: "rand_Int64N n w = (r, w') \<Longrightarrow> quiet w w' \<and> trace w' = trace w"
  by (auto simp: quiet_def dest: rand_frame)

lemma select_quiet: "select_done_after c d w = (b, w') \<Longrightarrow> quiet w w' \<and> trace w' = trace w"
  by (auto simp: quiet_def dest: select_frame)

lemma same_trace: "trace w' = trace w \<Longrightarrow> extends w w' \<and> issued w w' = []"
  using extendsI [of w' w "[]"] by simp

end
