(* ===== verification/Envelope.thy ===== *)
theory Envelope
  imports GoRuntime
begin

text \<open>
  The gateway's JSON envelope (\<open>internal/envelope/envelope.go\<close>, \<open>parse.go\<close>) and the
  logger that carries its identity (\<open>ForEnvelope\<close> of
  \<open>internal/observability/logging.go\<close>). The JSON decoder is an argument of \<open>Parse\<close>:
  the lemmas hold for whatever it makes of the bytes.
\<close>

record Envelope =
  EventID :: string
  GatewayID :: string
  ReceivedAt :: time
  ReceivedZone :: int \<comment> \<open>of \<open>ReceivedAt\<close>: seconds east of UTC in the zone it was read in\<close>
  RetryCount :: int
  StreamName :: string
  EventHeader :: bytes \<comment> \<open>raw JSON; empty when the gateway attached none\<close>
  Payload :: bytes \<comment> \<open>raw JSON\<close>

definition zero_Envelope :: Envelope where
  "zero_Envelope =
     \<lparr>EventID = [], GatewayID = [], ReceivedAt = zero_time, ReceivedZone = 0, RetryCount = 0, StreamName = [],
      EventHeader = [], Payload = []\<rparr>"

definition HasEventHeader :: "Envelope \<Rightarrow> bool" where
  "HasEventHeader e \<longleftrightarrow> length (EventHeader e) > 0 \<and> EventHeader e \<noteq> ''null''"

text \<open>\<open>Validate\<close>: \<open>None\<close> is Go's nil error.\<close>

definition Envelope_Validate :: "Envelope \<Rightarrow> gerror option" where
  "Envelope_Validate e =
     (if EventID e = [] then Some (Suffixf ErrUnprocessable ''event_id is empty'')
      else if GatewayID e = [] then Some (Suffixf ErrUnprocessable ''gateway_id is empty'')
      else if length (Payload e) = 0 \<or> Payload e = ''null''
        then Some (Suffixf ErrUnprocessable ''payload is empty'')
      else None)"

text \<open>A decoder gives the error's text or the decoded envelope.\<close>

type_synonym json_decoder = "bytes \<Rightarrow> string + Envelope"

definition Parse :: "json_decoder \<Rightarrow> bytes \<Rightarrow> Envelope \<times> gerror option" where
  "Parse unmarshal raw =
     (case unmarshal raw of
        Inl err \<Rightarrow> (zero_Envelope, Some (Suffixf ErrUnprocessable (''malformed JSON: '' @ err)))
      | Inr e \<Rightarrow>
          (case Envelope_Validate e of
             Some err \<Rightarrow> (zero_Envelope, Some err)
           | None \<Rightarrow> (e, None)))"

definition ForEnvelope :: "logger \<Rightarrow> Envelope \<Rightarrow> logger" where
  "ForEnvelope base env =
     log_With base [(''event_id'', AStr (EventID env)), (''gateway_id'', AStr (GatewayID env))]"

section \<open>Lemmas\<close>

text \<open>The required-field rule, in one predicate.\<close>

definition well_formed :: "Envelope \<Rightarrow> bool" where
  "well_formed e \<longleftrightarrow>
     EventID e \<noteq> [] \<and> GatewayID e \<noteq> [] \<and> Payload e \<noteq> [] \<and> Payload e \<noteq> ''null''"

lemma Validate_None_iff [simp]: "Envelope_Validate e = None \<longleftrightarrow> well_formed e"
  by (auto simp: Envelope_Validate_def well_formed_def)

lemma Validate_ok [simp]: "well_formed e \<Longrightarrow> Envelope_Validate e = None"
  by simp

lemma Validate_unprocessable:
  "Envelope_Validate e = Some err \<Longrightarrow> errors_Is err ErrUnprocessable"
  by (auto simp: Envelope_Validate_def split: if_splits)

lemma Parse_cases:
  obtains (ok) e where "Parse u raw = (e, None)" "u raw = Inr e" "well_formed e"
  | (bad) err where "Parse u raw = (zero_Envelope, Some err)" "errors_Is err ErrUnprocessable"
proof (cases "u raw")
  case (Inl s)
  show ?thesis by (rule bad) (simp add: Parse_def Inl, simp)
next
  case (Inr e)
  show ?thesis
  proof (cases "Envelope_Validate e")
    case None
    then have "well_formed e" by simp
    with None Inr show ?thesis using ok [of e] by (simp add: Parse_def)
  next
    case (Some err)
    with Inr show ?thesis using bad [of err] by (simp add: Parse_def Validate_unprocessable)
  qed
qed

lemma zero_not_well_formed [simp]: "\<not> well_formed zero_Envelope"
  by (simp add: well_formed_def zero_Envelope_def)

text \<open>
  Parse either decodes an envelope whose required fields are all present, or
  returns the zero envelope with an error in the \<open>ErrUnprocessable\<close> chain; the two
  outcomes are told apart by the error alone.
\<close>

theorem Parse_sound:
  "(snd (Parse u raw) = None \<longleftrightarrow> (\<exists>e. u raw = Inr e \<and> well_formed e \<and> fst (Parse u raw) = e)) \<and>
   (\<forall>err. snd (Parse u raw) = Some err \<longrightarrow>
      fst (Parse u raw) = zero_Envelope \<and> errors_Is err ErrUnprocessable \<and>
      errors_As_dispatch err = None)"
proof (cases "u raw")
  case (Inl s)
  then show ?thesis by (simp add: Parse_def)
next
  case (Inr e)
  then show ?thesis
    by (auto simp: Parse_def Envelope_Validate_def well_formed_def)
qed

theorem Parse_sound_witness:
  "fst (Parse (\<lambda>_. Inr (zero_Envelope\<lparr>EventID := ''e1''\<rparr>)) []) = zero_Envelope"
  using Parse_sound [of "\<lambda>_. Inr (zero_Envelope\<lparr>EventID := ''e1''\<rparr>)" "[]"]
  by (simp add: Parse_def Envelope_Validate_def zero_Envelope_def)

end
