(* ===== verification/StdParse.thy ===== *)
theory StdParse
  imports Prelude
begin

text \<open>
  The parsers of the Go library that configuration and stream ids go through:
  \<open>strconv.ParseInt\<close> (base 10, 64 bits; \<open>strconv.Atoi\<close> agrees with it on a 64-bit
  platform), \<open>strconv.ParseBool\<close> and \<open>time.ParseDuration\<close>, including the
  double-precision arithmetic the last one uses for fractions. \<open>ParseInt\<close> returns a
  value beside its error, because the service reads that value and ignores the error.
\<close>

section \<open>strconv.ParseInt\<close>

datatype num_error = ErrSyntax | ErrRange

fun parse_uint :: "nat \<Rightarrow> string \<Rightarrow> nat \<times> num_error option" where
  "parse_uint n [] = (n, None)"
| "parse_uint n (c # cs) =
     (if \<not> is_digit c then (0, Some ErrSyntax)
      else if 10 * n + digit_val c > 2 ^ 64 - 1 then (2 ^ 64 - 1, Some ErrRange)
      else parse_uint (10 * n + digit_val c) cs)"

definition ParseUint :: "string \<Rightarrow> nat \<times> num_error option" where
  "ParseUint s = (if s = [] then (0, Some ErrSyntax) else parse_uint 0 s)"

definition ParseInt :: "string \<Rightarrow> int \<times> num_error option" where
  "ParseInt s =
     (case s of
        [] \<Rightarrow> (0, Some ErrSyntax)
      | c # cs \<Rightarrow>
          (let neg = (c = CHR ''-'');
               rest = (if c = CHR ''-'' \<or> c = CHR ''+'' then cs else s);
               (un, err) = ParseUint rest
           in if err = Some ErrSyntax then (0, err)
              else if \<not> neg \<and> un \<ge> 2 ^ 63 then (2 ^ 63 - 1, Some ErrRange)
              else if neg \<and> un > 2 ^ 63 then (- (2 ^ 63), Some ErrRange)
              else (if neg then - int un else int un, None)))"

definition Atoi :: "string \<Rightarrow> int option" where
  "Atoi s = (case ParseInt s of (n, None) \<Rightarrow> Some n | (n, Some e) \<Rightarrow> None)"

section \<open>strconv.ParseBool\<close>

definition ParseBool :: "string \<Rightarrow> bool option" where
  "ParseBool s =
     (if s \<in> {''1'', ''t'', ''T'', ''true'', ''TRUE'', ''True''} then Some True
      else if s \<in> {''0'', ''f'', ''F'', ''false'', ''FALSE'', ''False''} then Some False
      else None)"

section \<open>Double precision, for positive normal values\<close>

text \<open>A value \<open>m * 2 ^ e\<close> with \<open>m < 2 ^ 53\<close>; rounding is to nearest, ties to even.\<close>

type_synonym double = "nat \<times> int"

definition rne :: "nat \<Rightarrow> nat \<Rightarrow> nat" where
  "rne p q =
     (let d = p div q; r = p mod q
      in if 2 * r < q \<or> (2 * r = q \<and> even d) then d else Suc d)"

fun bit_length :: "nat \<Rightarrow> nat" where
  "bit_length n = (if n = 0 then 0 else Suc (bit_length (n div 2)))"

definition scaled_rne :: "nat \<Rightarrow> nat \<Rightarrow> int \<Rightarrow> double" where
  "scaled_rne p q e =
     (if e \<ge> 0 then (rne p (q * 2 ^ nat e), e) else (rne (p * 2 ^ nat (- e)) q, e))"

text \<open>\<open>p / q\<close> rounded to 53 bits: the exponent is chosen so that the quotient has 53 bits.\<close>

definition double_quot :: "nat \<Rightarrow> nat \<Rightarrow> double" where
  "double_quot p q =
     (if p = 0 then (0, 0)
      else let e = int (bit_length p) - int (bit_length q) - 53;
               small = (if e \<ge> 0 then p < q * 2 ^ nat e * 2 ^ 53
                        else p * 2 ^ nat (- e) < q * 2 ^ 53)
           in scaled_rne p q (if small then e else e + 1))"

definition double_of_nat :: "nat \<Rightarrow> double" where
  "double_of_nat n = double_quot n 1"

definition double_mult :: "double \<Rightarrow> double \<Rightarrow> double" where
  "double_mult x y =
     (case double_quot (fst x * fst y) 1 of (m, e) \<Rightarrow> (m, e + snd x + snd y))"

definition double_div :: "double \<Rightarrow> double \<Rightarrow> double" where
  "double_div x y =
     (case double_quot (fst x) (fst y) of (m, e) \<Rightarrow> (m, e + snd x - snd y))"

definition double_trunc :: "double \<Rightarrow> nat" where
  "double_trunc x =
     (if snd x \<ge> 0 then fst x * 2 ^ nat (snd x) else fst x div 2 ^ nat (- snd x))"

section \<open>time.ParseDuration\<close>

text \<open>\<open>leadingInt\<close>: \<open>None\<close> on overflow, otherwise the value and the rest.\<close>

fun leadingInt :: "nat \<Rightarrow> string \<Rightarrow> (nat \<times> string) option" where
  "leadingInt x [] = Some (x, [])"
| "leadingInt x (c # cs) =
     (if \<not> is_digit c then Some (x, c # cs)
      else if x > 2 ^ 63 div 10 then None
      else if 10 * x + digit_val c > 2 ^ 63 then None
      else leadingInt (10 * x + digit_val c) cs)"

fun leadingFraction :: "nat \<Rightarrow> double \<Rightarrow> bool \<Rightarrow> string \<Rightarrow> nat \<times> double \<times> string" where
  "leadingFraction x scale ov [] = (x, scale, [])"
| "leadingFraction x scale ov (c # cs) =
     (if \<not> is_digit c then (x, scale, c # cs)
      else if ov then leadingFraction x scale True cs
      else if x > (2 ^ 63 - 1) div 10 then leadingFraction x scale True cs
      else if 10 * x + digit_val c > 2 ^ 63 then leadingFraction x scale True cs
      else leadingFraction (10 * x + digit_val c) (double_mult scale (double_of_nat 10)) False cs)"

definition unitMap :: "string \<Rightarrow> nat option" where
  "unitMap u =
     (if u = ''ns'' then Some 1
      else if u = ''us'' then Some 1000
      else if u = [char_of (0xC2::nat), char_of (0xB5::nat), CHR ''s''] then Some 1000
      else if u = [char_of (0xCE::nat), char_of (0xBC::nat), CHR ''s''] then Some 1000
      else if u = ''ms'' then Some 1000000
      else if u = ''s'' then Some 1000000000
      else if u = ''m'' then Some 60000000000
      else if u = ''h'' then Some 3600000000000
      else None)"

definition num_char :: "char \<Rightarrow> bool" where
  "num_char c \<longleftrightarrow> c = CHR ''.'' \<or> is_digit c"

text \<open>One \<open>number unit\<close> group: its nanoseconds and the rest of the input.\<close>

definition duration_group :: "string \<Rightarrow> (nat \<times> string) option" where
  "duration_group s =
     (if s = [] \<or> \<not> num_char (hd s) then None
      else case leadingInt 0 s of
        None \<Rightarrow> None
      | Some (v, s1) \<Rightarrow>
          (let pre = (length s1 \<noteq> length s);
               dot = (s1 \<noteq> [] \<and> hd s1 = CHR ''.'');
               (f, scale, s2) =
                 (if dot then leadingFraction 0 (double_of_nat 1) False (tl s1)
                  else (0, double_of_nat 1, s1));
               post = (dot \<and> length s2 \<noteq> length (tl s1));
               u = takeWhile (\<lambda>c. \<not> num_char c) s2;
               s3 = dropWhile (\<lambda>c. \<not> num_char c) s2
           in if \<not> pre \<and> \<not> post then None
              else if u = [] then None
              else case unitMap u of
                None \<Rightarrow> None
              | Some unit \<Rightarrow>
                  if v > 2 ^ 63 div unit then None
                  else let v2 = v * unit +
                         (if f > 0
                          then double_trunc (double_mult (double_of_nat f)
                                 (double_div (double_of_nat unit) scale))
                          else 0)
                       in if f > 0 \<and> v2 > 2 ^ 63 then None else Some (v2, s3)))"

text \<open>The loop over the groups; every group consumes input, which is the measure.\<close>

function duration_groups :: "nat \<Rightarrow> string \<Rightarrow> nat option" where
  "duration_groups d s =
     (if s = [] then Some d
      else case duration_group s of
        None \<Rightarrow> None
      | Some (v, s') \<Rightarrow>
          if length s' < length s
          then (if d + v > 2 ^ 63 then None else duration_groups (d + v) s')
          else None)"
  by pat_completeness auto
termination
  by (relation "measure (\<lambda>(d, s). length s)") auto

definition ParseDuration :: "string \<Rightarrow> duration option" where
  "ParseDuration s0 =
     (let neg = (s0 \<noteq> [] \<and> hd s0 = CHR ''-'');
          s = (if s0 \<noteq> [] \<and> (hd s0 = CHR ''-'' \<or> hd s0 = CHR ''+'') then tl s0 else s0)
      in if s = ''0'' then Some 0
         else if s = [] then None
         else case duration_groups 0 s of
           None \<Rightarrow> None
         | Some d \<Rightarrow>
             if neg then Some (- int d)
             else if d > 2 ^ 63 - 1 then None
             else Some (int d))"

section \<open>Lemmas\<close>

declare bit_length.simps [simp del]
declare duration_groups.simps [simp del]

text \<open>A group that parses has consumed at least its unit, so the length guard in
  \<open>duration_groups\<close> never decides anything.\<close>

lemma leadingInt_length: "leadingInt x s = Some (v, s') \<Longrightarrow> length s' \<le> length s"
  by (induction x s rule: leadingInt.induct) (force split: if_splits)+

lemma leadingFraction_length: "leadingFraction x sc ov s = (f, sc', s') \<Longrightarrow> length s' \<le> length s"
  by (induction x sc ov s rule: leadingFraction.induct) (force split: if_splits)+

lemma take_drop_while_shorter: "takeWhile P xs \<noteq> [] \<Longrightarrow> length (dropWhile P xs) < length xs"
proof -
  assume "takeWhile P xs \<noteq> []"
  moreover have "length xs = length (takeWhile P xs) + length (dropWhile P xs)"
    by (metis length_append takeWhile_dropWhile_id)
  ultimately show ?thesis by (simp add: length_greater_0_conv [symmetric] del: length_greater_0_conv)
qed

lemma duration_group_shorter:
  assumes "duration_group s = Some (v, s')"
  shows "length s' < length s"
proof -
  from assms obtain v0 s1 where s1: "leadingInt 0 s = Some (v0, s1)"
    by (auto simp: duration_group_def split: if_splits option.splits)
  define p where "p = (if s1 \<noteq> [] \<and> hd s1 = CHR ''.''
      then leadingFraction 0 (double_of_nat 1) False (tl s1) else (0, double_of_nat 1, s1))"
  obtain f sc s2 where p: "p = (f, sc, s2)" by (cases p) auto
  have "length s2 \<le> length s1"
    using p leadingFraction_length [of 0 "double_of_nat 1" False "tl s1" f sc s2]
    by (auto simp: p_def split: if_splits)
  moreover have "takeWhile (\<lambda>c. \<not> num_char c) s2 \<noteq> []"
    and "s' = dropWhile (\<lambda>c. \<not> num_char c) s2"
    using assms s1 p unfolding duration_group_def p_def
    by (auto simp: Let_def split: if_splits option.splits)
  ultimately show ?thesis
    using take_drop_while_shorter [of "\<lambda>c. \<not> num_char c" s2] leadingInt_length [OF s1]
    by simp
qed

lemma duration_groups_unfold:
  "duration_groups d s =
     (if s = [] then Some d
      else case duration_group s of
        None \<Rightarrow> None
      | Some (v, s') \<Rightarrow> if d + v > 2 ^ 63 then None else duration_groups (d + v) s')"
  by (subst duration_groups.simps)
     (auto split: option.split dest: duration_group_shorter)

lemma duration_groups_bound: "duration_groups d s = Some r \<Longrightarrow> d \<le> 2 ^ 63 \<Longrightarrow> r \<le> 2 ^ 63"
proof (induction d s rule: duration_groups.induct)
  case (1 d s)
  then show ?case
    by (subst (asm) (2) duration_groups.simps)
       (auto split: if_splits option.splits)
qed

lemma ParseDuration_in64: "ParseDuration s = Some d \<Longrightarrow> in64 d"
  by (auto simp: ParseDuration_def Let_def in64_def minInt64_def maxInt64_def
        dest!: duration_groups_bound split: if_splits option.splits)

lemma ParseInt_in64: "in64 (fst (ParseInt s))"
  by (auto simp: ParseInt_def Let_def in64_def minInt64_def maxInt64_def not_le not_less
        split: list.split prod.split)

lemma parse_uint_digits:
  assumes "\<And>c. c \<in> set s \<Longrightarrow> is_digit c" and "digits_val n s < 2 ^ 64"
  shows "parse_uint n s = (digits_val n s, None)"
  using assms
proof (induction s arbitrary: n)
  case (Cons c cs)
  have mono: "m \<le> digits_val m xs" for m xs
    by (induction xs arbitrary: m) (simp, fastforce intro: order_trans [rotated])
  from mono [of "10 * n + digit_val c" cs] Cons.prems(2)
  have "10 * n + digit_val c < 2 ^ 64" by simp
  with Cons show ?case by simp
qed simp

lemma show_nat_hd: "\<exists>c cs. show_nat n = c # cs \<and> is_digit c"
  using show_nat_digits [of _ n] by (cases "show_nat n") auto

lemma ParseInt_show_nat: "n < 2 ^ 63 \<Longrightarrow> ParseInt (show_nat n) = (int n, None)"
proof -
  assume n: "n < 2 ^ 63"
  obtain c cs where c: "show_nat n = c # cs" and d: "is_digit c"
    using show_nat_hd by blast
  from d have "c \<noteq> CHR ''-''" and "c \<noteq> CHR ''+''"
    by (auto simp: is_digit_def)
  moreover have "parse_uint 0 (show_nat n) = (n, None)"
    using n by (subst parse_uint_digits) (simp_all add: show_nat_digits)
  ultimately show ?thesis
    using n by (simp add: ParseInt_def ParseUint_def c Let_def)
qed

end
