(* ===== verification/Config.thy ===== *)
theory Config
  imports StdParse
begin

text \<open>
  Configuration (\<open>internal/config/config.go\<close>, \<open>validate.go\<close>): the records, the
  lookup helpers, agent-id normalisation, loading from an environment and validation.
  The environment is a function from keys to values, empty when unset, as
  \<open>os.Getenv\<close> presents it; the host name and the float parser are arguments. An error
  is the text the Go error prints; \<open>Inl\<close> carries it.
\<close>

section \<open>Data\<close>

abbreviation ModeStream :: string where "ModeStream \<equiv> ''stream''"
abbreviation ModePeriodic :: string where "ModePeriodic \<equiv> ''periodic''"
abbreviation kindStream :: string where "kindStream \<equiv> ''stream''"
abbreviation kindList :: string where "kindList \<equiv> ''list''"
abbreviation destSummary :: string where "destSummary \<equiv> ''summary''"

type_synonym float64 = string \<comment> \<open>a float by the literal it was read from; nothing computes with it\<close>

record RedisCfg =
  Addr :: string
  Password :: string
  DB :: int
  ConsumerGrp :: string
  ConsumerNameBase :: string

record DispatchCfg =
  d_MaxAttempts :: int
  d_Timeout :: duration
  d_BackoffInitial :: duration
  d_BackoffMax :: duration
  LTRURL :: string
  CEPURL :: string

record HouseCfg =
  PendingMinIdle :: duration
  PendingBatch :: int
  ConsumerRetireIdle :: duration
  SummaryPeriod :: duration
  SummaryDestination :: string
  SummaryMaxDepth :: int

record AnomalyCfg =
  LagThresholdEntries :: int
  LagSustainedFor :: duration
  DropRateThreshold :: float64
  CheckInterval :: duration
  NotifyCooldown :: duration
  MaxPerHour :: int
  EmailEnabled :: bool
  SMTPAddr :: string
  SupportTo :: string
  SupportFrom :: string

record AgentCfg =
  a_ID :: string
  a_Key :: string
  a_Enabled :: bool
  a_Mode :: string
  a_Source :: string
  a_SourceKind :: string
  a_Destinations :: "string list"
  a_Interval :: duration
  a_BatchSize :: int
  a_BlockTimeout :: duration

record Config =
  HTTPAddr :: string
  ShutdownGrace :: duration
  InstanceID :: string
  LogLevel :: string
  c_Redis :: RedisCfg
  c_Dispatch :: DispatchCfg
  c_House :: HouseCfg
  c_Anomaly :: AnomalyCfg
  c_Agents :: "AgentCfg list"

section \<open>Agent-id normalisation\<close>

definition to_upper :: "char \<Rightarrow> char" where
  "to_upper c = (if 97 \<le> (of_char c :: nat) \<and> (of_char c :: nat) \<le> 122
                 then char_of ((of_char c :: nat) - 32) else c)"

definition key_alnum :: "char \<Rightarrow> bool" where
  "key_alnum c \<longleftrightarrow> is_digit c \<or> (65 \<le> (of_char c :: nat) \<and> (of_char c :: nat) \<le> 90)"

text \<open>\<open>nonAlnum.ReplaceAllString(s, "_")\<close>: every maximal run of other characters becomes
  one underscore. The flag says whether the previous character was in a run.\<close>

fun fold_runs :: "bool \<Rightarrow> string \<Rightarrow> string" where
  "fold_runs b [] = []"
| "fold_runs b (c # cs) =
     (if key_alnum c then c # fold_runs False cs
      else if b then fold_runs True cs
      else CHR ''_'' # fold_runs True cs)"

definition trim_char :: "char \<Rightarrow> string \<Rightarrow> string" where
  "trim_char x s = rev (dropWhile (\<lambda>c. c = x) (rev (dropWhile (\<lambda>c. c = x) s)))"

definition NormaliseID :: "string \<Rightarrow> string" where
  "NormaliseID ident = trim_char CHR ''_'' (fold_runs False (map to_upper ident))"

section \<open>Lookup helpers\<close>

definition str :: "(string \<Rightarrow> string) \<Rightarrow> string \<Rightarrow> string \<Rightarrow> string" where
  "str get k def = (let v = strings_TrimSpace (get k) in if v \<noteq> [] then v else def)"

definition num :: "(string \<Rightarrow> string) \<Rightarrow> string \<Rightarrow> int \<Rightarrow> int" where
  "num get k def =
     (let v = strings_TrimSpace (get k) in
      if v \<noteq> [] then (case Atoi v of Some n \<Rightarrow> n | None \<Rightarrow> def) else def)"

definition flt :: "(string \<Rightarrow> float64 option) \<Rightarrow> (string \<Rightarrow> string) \<Rightarrow> string \<Rightarrow> float64 \<Rightarrow> float64" where
  "flt parse_float get k def =
     (let v = strings_TrimSpace (get k) in
      if v \<noteq> [] then (case parse_float v of Some f \<Rightarrow> f | None \<Rightarrow> def) else def)"

definition dur :: "(string \<Rightarrow> string) \<Rightarrow> string \<Rightarrow> duration \<Rightarrow> duration" where
  "dur get k def =
     (let v = strings_TrimSpace (get k) in
      if v \<noteq> [] then (case ParseDuration v of Some d \<Rightarrow> d | None \<Rightarrow> def) else def)"

definition boolean :: "(string \<Rightarrow> string) \<Rightarrow> string \<Rightarrow> bool \<Rightarrow> bool" where
  "boolean get k def =
     (let v = strings_TrimSpace (get k) in
      if v \<noteq> [] then (case ParseBool v of Some b \<Rightarrow> b | None \<Rightarrow> def) else def)"

definition csv :: "string \<Rightarrow> string list" where
  "csv v = filter (\<lambda>p. p \<noteq> []) (map strings_TrimSpace (strings_Split CHR '','' v))"

definition fallback :: "string \<Rightarrow> string \<Rightarrow> string" where
  "fallback v def = (if strings_TrimSpace v = [] then def else v)"

section \<open>Loading\<close>

text \<open>The agent record read under \<open>AGENT_<key>_\<close>.\<close>

definition load_agent :: "(string \<Rightarrow> string) \<Rightarrow> string \<Rightarrow> string \<Rightarrow> AgentCfg" where
  "load_agent get ident key =
     (let p = (\<lambda>suffix. get (''AGENT_'' @ key @ ''_'' @ suffix)) in
      \<lparr>a_ID = ident, a_Key = key,
       a_Enabled = boolean p ''ENABLED'' True,
       a_Mode = strings_TrimSpace (p ''MODE''),
       a_Source = strings_TrimSpace (p ''SOURCE''),
       a_SourceKind = str p ''SOURCE_KIND'' ''stream'',
       a_Destinations = csv (p ''DESTINATIONS''),
       a_Interval = dur p ''INTERVAL'' 0,
       a_BatchSize = num p ''BATCH_SIZE'' 100,
       a_BlockTimeout = dur p ''BLOCK_TIMEOUT'' (5 * second)\<rparr>)"

text \<open>The loop of \<open>loadAgents\<close>: \<open>seen\<close> maps a key to the id it came from.\<close>

fun load_ids ::
  "(string \<Rightarrow> string) \<Rightarrow> (string \<rightharpoonup> string) \<Rightarrow> string list \<Rightarrow> string + AgentCfg list" where
  "load_ids get seen [] = Inr []"
| "load_ids get seen (x # xs) =
     (let ident = strings_TrimSpace x in
      if ident = [] then load_ids get seen xs
      else let key = NormaliseID ident in
        if key = [] then Inl (''agent id '' @ strconv_Quote ident @ '' normalises to an empty key'')
        else case seen key of
          Some prev \<Rightarrow>
            Inl (''agent ids '' @ strconv_Quote prev @ '' and '' @ strconv_Quote ident @
                 '' both normalise to '' @ strconv_Quote key @
                 ''; ids must be unique after normalisation'')
        | None \<Rightarrow>
            (case load_ids get (seen(key \<mapsto> ident)) xs of
               Inl e \<Rightarrow> Inl e
             | Inr agents \<Rightarrow> Inr (load_agent get ident key # agents)))"

definition loadAgents :: "(string \<Rightarrow> string) \<Rightarrow> string + AgentCfg list" where
  "loadAgents get =
     (let raw = strings_TrimSpace (get ''CONFLUX_AGENTS'') in
      if raw = [] then Inr [] else load_ids get Map.empty (strings_Split CHR '','' raw))"

section \<open>Validation\<close>

definition agent_key :: "AgentCfg \<Rightarrow> string \<Rightarrow> string" where
  "agent_key a suffix = ''AGENT_'' @ a_Key a @ ''_'' @ suffix"

definition mode_errors :: "AgentCfg \<Rightarrow> string list" where
  "mode_errors a =
     (if a_Mode a = ModeStream then
        (if a_Source a = [] then [agent_key a ''SOURCE'' @ '' is required for a stream agent''] else []) @
        (if a_SourceKind a \<noteq> kindStream \<and> a_SourceKind a \<noteq> kindList
         then [agent_key a ''SOURCE_KIND'' @ '' must be '' @ strconv_Quote kindStream @ '' or '' @
               strconv_Quote kindList @ '', got '' @ strconv_Quote (a_SourceKind a)]
         else [])
      else if a_Mode a = ModePeriodic then
        (if a_Interval a \<le> 0
         then [agent_key a ''INTERVAL'' @ '' is required for a periodic agent and must be positive'']
         else [])
      else if a_Mode a = [] then
        [agent_key a ''MODE'' @ '' is required ('' @ strconv_Quote ModeStream @ '' or '' @
         strconv_Quote ModePeriodic @ '')'']
      else
        [agent_key a ''MODE'' @ '' must be '' @ strconv_Quote ModeStream @ '' or '' @
         strconv_Quote ModePeriodic @ '', got '' @ strconv_Quote (a_Mode a)])"

definition Agent_validate :: "AgentCfg \<Rightarrow> Config \<Rightarrow> string list" where
  "Agent_validate a c =
     mode_errors a @
     (if length (a_Destinations a) = 0
      then [agent_key a ''DESTINATIONS'' @ '' is required (comma-separated destination names)'']
      else []) @
     concat (map (\<lambda>d. if d = destSummary \<and> SummaryDestination (c_House c) = []
                      then [''SUMMARY_DESTINATION is required when the summary agent is enabled'']
                      else [])
                 (a_Destinations a))"

definition validate_errors :: "Config \<Rightarrow> string list" where
  "validate_errors c =
     (if EmailEnabled (c_Anomaly c) \<and> strings_TrimSpace (SupportTo (c_Anomaly c)) = []
      then [''SUPPORT_EMAIL_TO is required when EMAIL_ENABLED=true''] else []) @
     (if d_MaxAttempts (c_Dispatch c) < 1
      then [''DISPATCH_MAX_ATTEMPTS must be at least 1''] else []) @
     concat (map (\<lambda>a. if \<not> a_Enabled a then [] else Agent_validate a c) (c_Agents c))"

text \<open>\<open>errors.Join\<close>: nil for no errors, else one error printing them on separate lines.\<close>

definition Config_Validate :: "Config \<Rightarrow> string option" where
  "Config_Validate c =
     (case validate_errors c of
        [] \<Rightarrow> None
      | es \<Rightarrow> Some (strings_Join [char_of (10 :: nat)] es))"

section \<open>The whole configuration\<close>

definition base_config ::
  "(string \<Rightarrow> float64 option) \<Rightarrow> string \<Rightarrow> (string \<Rightarrow> string) \<Rightarrow> Config" where
  "base_config parse_float host get =
     \<lparr>HTTPAddr = str get ''HTTP_ADDR'' '':8090'',
      ShutdownGrace = dur get ''SHUTDOWN_GRACE'' (15 * second),
      InstanceID = str get ''CONFLUX_INSTANCE_ID'' (fallback host ''conflux''),
      LogLevel = str get ''LOG_LEVEL'' ''info'',
      c_Redis =
        \<lparr>Addr = str get ''REDIS_ADDR'' ''localhost:6379'',
         Password = get ''REDIS_PASSWORD'',
         DB = num get ''REDIS_DB'' 0,
         ConsumerGrp = str get ''REDIS_CONSUMER_GROUP'' ''pulse-conflux-local'',
         ConsumerNameBase = str get ''REDIS_CONSUMER_NAME'' ''conflux''\<rparr>,
      c_Dispatch =
        \<lparr>d_MaxAttempts = num get ''DISPATCH_MAX_ATTEMPTS'' 3,
         d_Timeout = dur get ''DISPATCH_TIMEOUT'' (10 * second),
         d_BackoffInitial = dur get ''DISPATCH_BACKOFF_INITIAL'' (200 * millisecond),
         d_BackoffMax = dur get ''DISPATCH_BACKOFF_MAX'' (5 * second),
         LTRURL = str get ''DEST_LTR_URL'' ''http://localhost:9999/stub/ltr'',
         CEPURL = str get ''DEST_CEP_URL'' ''http://localhost:9999/stub/cep''\<rparr>,
      c_House =
        \<lparr>PendingMinIdle = dur get ''PENDING_MIN_IDLE'' (5 * minute),
         PendingBatch = num get ''PENDING_RECLAIM_BATCH'' 100,
         ConsumerRetireIdle = dur get ''CONSUMER_RETIRE_IDLE'' (24 * hour),
         SummaryPeriod = dur get ''SUMMARY_PERIOD'' hour,
         SummaryDestination = get ''SUMMARY_DESTINATION'',
         SummaryMaxDepth = num get ''SUMMARY_MAX_LIST_DEPTH'' 2000\<rparr>,
      c_Anomaly =
        \<lparr>LagThresholdEntries = num get ''LAG_THRESHOLD_ENTRIES'' 1000,
         LagSustainedFor = dur get ''LAG_SUSTAINED_FOR'' (3 * minute),
         DropRateThreshold = flt parse_float get ''DROP_RATE_THRESHOLD'' ''0.01'',
         CheckInterval = dur get ''ANOMALY_CHECK_INTERVAL'' minute,
         NotifyCooldown = dur get ''ANOMALY_NOTIFY_COOLDOWN'' (30 * minute),
         MaxPerHour = num get ''ANOMALY_MAX_PER_HOUR'' 4,
         EmailEnabled = boolean get ''EMAIL_ENABLED'' False,
         SMTPAddr = str get ''SMTP_ADDR'' ''localhost:1025'',
         SupportTo = get ''SUPPORT_EMAIL_TO'',
         SupportFrom = str get ''SUPPORT_EMAIL_FROM'' ''pulse-conflux@localhost''\<rparr>,
      c_Agents = []\<rparr>"

definition loadFrom ::
  "(string \<Rightarrow> float64 option) \<Rightarrow> string \<Rightarrow> (string \<Rightarrow> string) \<Rightarrow> string + Config" where
  "loadFrom parse_float host get =
     (case loadAgents get of
        Inl e \<Rightarrow> Inl e
      | Inr agents \<Rightarrow>
          (let c = (base_config parse_float host get)\<lparr>c_Agents := agents\<rparr> in
           case Config_Validate c of Some e \<Rightarrow> Inl e | None \<Rightarrow> Inr c))"

definition Config_Enabled :: "Config \<Rightarrow> AgentCfg list" where
  "Config_Enabled c = filter a_Enabled (c_Agents c)"

section \<open>Lemmas on normalisation\<close>

definition key_char :: "char \<Rightarrow> bool" where
  "key_char c \<longleftrightarrow> key_alnum c \<or> c = CHR ''_''"

lemma fold_runs_chars: "c \<in> set (fold_runs b s) \<Longrightarrow> key_char c"
  by (induction b s rule: fold_runs.induct) (auto simp: key_char_def split: if_splits)

lemma trim_char_set: "set (trim_char x s) \<subseteq> set s"
  by (auto simp: trim_char_def dest!: set_dropWhileD)

lemma dropWhile_hd_neq: "dropWhile (\<lambda>c. c = x) s \<noteq> [] \<Longrightarrow> hd (dropWhile (\<lambda>c. c = x) s) \<noteq> x"
  using hd_dropWhile [of "\<lambda>c. c = x" s] by simp

lemma last_dropWhile: "dropWhile P xs \<noteq> [] \<Longrightarrow> last (dropWhile P xs) = last xs"
  by (metis append_Nil2 last_append takeWhile_dropWhile_id)

lemma trim_char_ends:
  assumes "trim_char x s \<noteq> []"
  shows "hd (trim_char x s) \<noteq> x" "last (trim_char x s) \<noteq> x"
proof -
  let ?t = "dropWhile (\<lambda>c. c = x) s" and ?d = "\<lambda>u. dropWhile (\<lambda>c. c = x) (rev u)"
  from assms have d: "?d ?t \<noteq> []" by (simp add: trim_char_def)
  then have t: "?t \<noteq> []" by (metis dropWhile.simps(1) rev.simps(1))
  have "hd (trim_char x s) = last (?d ?t)"
    using d by (simp add: trim_char_def hd_rev)
  also have "\<dots> = hd ?t" using d t by (simp add: last_dropWhile last_rev)
  finally show "hd (trim_char x s) \<noteq> x" using t dropWhile_hd_neq by metis
  have "last (trim_char x s) = hd (?d ?t)" using d by (simp add: trim_char_def last_rev)
  then show "last (trim_char x s) \<noteq> x" using d dropWhile_hd_neq by metis
qed

text \<open>Strings of key characters in which no two underscores are adjacent.\<close>

fun single_us :: "bool \<Rightarrow> string \<Rightarrow> bool" where
  "single_us b [] = True"
| "single_us b (c # cs) =
     (if c = CHR ''_'' then \<not> b \<and> single_us True cs else key_alnum c \<and> single_us False cs)"

lemma us_not_alnum [simp]: "\<not> key_alnum CHR ''_''"
  by (simp add: key_alnum_def is_digit_def)

lemma single_us_fold_runs: "single_us b (fold_runs b s)"
  by (induction b s rule: fold_runs.induct) auto

lemma fold_runs_single_us: "single_us b s \<Longrightarrow> fold_runs b s = s"
  by (induction b s rule: single_us.induct) (auto split: if_splits)

lemma single_us_weaken: "single_us b s \<Longrightarrow> single_us False s"
  by (cases s) (auto split: if_splits)

lemma single_us_prefix: "single_us b (xs @ ys) \<Longrightarrow> single_us b xs"
  by (induction b xs rule: single_us.induct) (auto split: if_splits)

lemma single_us_suffix: "single_us b (xs @ ys) \<Longrightarrow> single_us False ys"
  by (induction b xs rule: single_us.induct) (auto split: if_splits intro: single_us_weaken)

lemma single_us_trim: "single_us b s \<Longrightarrow> single_us False (trim_char x s)"
proof -
  assume "single_us b s"
  then have "single_us False (dropWhile (\<lambda>c. c = x) s)"
    by (metis single_us_suffix takeWhile_dropWhile_id)
  moreover have "dropWhile (\<lambda>c. c = x) s =
      trim_char x s @ rev (takeWhile (\<lambda>c. c = x) (rev (dropWhile (\<lambda>c. c = x) s)))"
    by (metis rev_append rev_rev_ident takeWhile_dropWhile_id trim_char_def)
  ultimately show ?thesis by (metis single_us_prefix)
qed

lemma trim_char_fixed: "s = [] \<or> hd s \<noteq> x \<and> last s \<noteq> x \<Longrightarrow> trim_char x s = s"
proof (cases s)
  case (Cons c cs)
  assume "s = [] \<or> hd s \<noteq> x \<and> last s \<noteq> x"
  with Cons have h: "c \<noteq> x" and "last s \<noteq> x" by auto
  obtain y ys where r: "rev s = y # ys" using Cons by (cases "rev s") auto
  then have "y = last s" by (metis last_snoc rev.simps(2) rev_swap)
  with \<open>last s \<noteq> x\<close> have "y \<noteq> x" by simp
  then have "dropWhile (\<lambda>c. c = x) (rev s) = rev s" unfolding r by simp
  moreover have "dropWhile (\<lambda>c. c = x) s = s" using Cons h by simp
  ultimately show ?thesis by (simp add: trim_char_def)
qed (simp add: trim_char_def)

lemma to_upper_key_char: "key_char c \<Longrightarrow> to_upper c = c"
  by (auto simp: key_char_def key_alnum_def is_digit_def to_upper_def)

lemma NormaliseID_chars: "c \<in> set (NormaliseID s) \<Longrightarrow> key_char c"
  unfolding NormaliseID_def using trim_char_set fold_runs_chars by blast

section \<open>Properties of configuration\<close>

text \<open>
  A normalised id contains only \<open>A-Z\<close>, \<open>0-9\<close> and single underscores, never starts
  or ends with an underscore, and normalising it again changes nothing; ids that differ
  only in letter case normalise alike.
\<close>

theorem NormaliseID_canonical:
  "(\<forall>c \<in> set (NormaliseID s). key_alnum c \<or> c = CHR ''_'') \<and>
   single_us False (NormaliseID s) \<and>
   (NormaliseID s = [] \<or> hd (NormaliseID s) \<noteq> CHR ''_'' \<and> last (NormaliseID s) \<noteq> CHR ''_'') \<and>
   NormaliseID (NormaliseID s) = NormaliseID s \<and>
   NormaliseID (map to_upper s) = NormaliseID s"
proof -
  let ?n = "NormaliseID s"
  have chars: "\<forall>c \<in> set ?n. key_char c" using NormaliseID_chars by blast
  have single: "single_us False ?n"
    unfolding NormaliseID_def by (rule single_us_trim [OF single_us_fold_runs])
  have ends: "?n = [] \<or> hd ?n \<noteq> CHR ''_'' \<and> last ?n \<noteq> CHR ''_''"
    unfolding NormaliseID_def using trim_char_ends by blast
  have "map to_upper ?n = ?n" using chars by (simp add: map_idI to_upper_key_char)
  then have idem: "NormaliseID ?n = ?n"
    using single ends by (subst NormaliseID_def) (simp add: fold_runs_single_us trim_char_fixed)
  have upper: "to_upper (to_upper c) = to_upper c" for c
    by (auto simp: to_upper_def)
  have "NormaliseID (map to_upper s) = ?n" by (simp add: NormaliseID_def comp_def upper)
  with chars single ends idem show ?thesis by (simp add: key_char_def)
qed

theorem NormaliseID_canonical_witness:
  "NormaliseID ''-events.ltr '' = ''EVENTS_LTR'' \<and> NormaliseID ''EVENTS_LTR'' = ''EVENTS_LTR''"
proof -
  have e: "NormaliseID ''-events.ltr '' = ''EVENTS_LTR''" by code_simp
  show ?thesis using NormaliseID_canonical [of "''-events.ltr ''"] unfolding e by blast
qed

section \<open>Loading and validating\<close>

lemma load_ids_ok:
  "load_ids get seen xs = Inr as \<Longrightarrow>
     map a_ID as = filter (\<lambda>p. p \<noteq> []) (map strings_TrimSpace xs) \<and>
     distinct (map a_Key as) \<and>
     (\<forall>a \<in> set as. a_Key a = NormaliseID (a_ID a) \<and>
        a_Key a \<noteq> [] \<and> seen (a_Key a) = None)"
proof (induction get seen xs arbitrary: as rule: load_ids.induct)
  case (2 get seen x xs)
  let ?id = "strings_TrimSpace x" and ?key = "NormaliseID (strings_TrimSpace x)"
  show ?case
  proof (cases "?id = []")
    case True
    with "2.IH"(1) [OF refl True] "2.prems" show ?thesis by auto
  next
    case False
    with "2.prems" obtain as' where key: "?key \<noteq> []" "seen ?key = None"
      and rec: "load_ids get (seen(?key \<mapsto> ?id)) xs = Inr as'"
      and as: "as = load_agent get ?id ?key # as'"
      by (auto simp: Let_def split: if_splits option.splits sum.splits)
    have sel: "a_ID (load_agent get ?id ?key) = ?id" "a_Key (load_agent get ?id ?key) = ?key"
      by (simp_all add: load_agent_def Let_def)
    from "2.IH"(2) [OF refl False refl key rec] as False key sel show ?thesis
      by (auto split: if_splits)
  qed
qed simp

text \<open>
  C39. When the agent list loads, the agents are the non-empty trimmed ids of
  \<open>CONFLUX_AGENTS\<close> in order; every agent carries the non-empty normal form of its id as
  its key, and no two agents share a key (hence none share an id).
\<close>

theorem loadAgents_unique_keys:
  assumes "loadAgents get = Inr agents"
  shows "map a_ID agents = csv (strings_TrimSpace (get ''CONFLUX_AGENTS'')) \<and>
    (\<forall>a \<in> set agents. a_Key a = NormaliseID (a_ID a) \<and> a_Key a \<noteq> []) \<and>
    distinct (map a_Key agents) \<and> distinct (map a_ID agents)"
proof (cases "strings_TrimSpace (get ''CONFLUX_AGENTS'') = []")
  case True
  moreover have "csv [] = []" by code_simp
  ultimately show ?thesis using assms by (simp add: loadAgents_def)
next
  case False
  with assms have load: "load_ids get Map.empty
      (strings_Split CHR '','' (strings_TrimSpace (get ''CONFLUX_AGENTS''))) = Inr agents"
    by (simp add: loadAgents_def Let_def)
  from load_ids_ok [OF load] have "\<forall>a \<in> set agents. a_Key a = NormaliseID (a_ID a)" by blast
  then have keys: "map a_Key agents = map NormaliseID (map a_ID agents)"
    unfolding map_map by (intro map_cong) simp_all
  with load_ids_ok [OF load] show ?thesis
    by (metis csv_def distinct_map)
qed

theorem loadAgents_unique_keys_witness:
  "let get = (\<lambda>k. if k = ''CONFLUX_AGENTS'' then ''events-ltr, ,logs'' else []) in
   (case loadAgents get of Inl _ \<Rightarrow> False
    | Inr agents \<Rightarrow> map a_ID agents = [''events-ltr'', ''logs''] \<and> distinct (map a_Key agents))"
proof -
  define get :: "string \<Rightarrow> string" where
    "get = (\<lambda>k. if k = ''CONFLUX_AGENTS'' then ''events-ltr, ,logs'' else [])"
  have split: "strings_Split CHR '','' (strings_TrimSpace (get ''CONFLUX_AGENTS'')) =
      [''events-ltr'', '' '', ''logs'']" by (simp add: get_def) code_simp
  have ids: "csv (strings_TrimSpace (get ''CONFLUX_AGENTS'')) = [''events-ltr'', ''logs'']"
    by (simp add: csv_def split) code_simp
  have n: "NormaliseID ''events-ltr'' = ''EVENTS_LTR''" "NormaliseID ''logs'' = ''LOGS''"
    "strings_TrimSpace ''events-ltr'' = ''events-ltr''" "strings_TrimSpace ''logs'' = ''logs''"
    "strings_TrimSpace '' '' = []" "strings_TrimSpace (get ''CONFLUX_AGENTS'') \<noteq> []"
    by (code_simp, code_simp, code_simp, code_simp, code_simp, simp add: get_def, code_simp)
  obtain agents where a: "loadAgents get = Inr agents"
    by (simp add: loadAgents_def Let_def n split)
  with loadAgents_unique_keys [OF a] ids show ?thesis
    by (simp add: get_def [symmetric] Let_def)
qed

text \<open>What a valid configuration guarantees of an enabled agent.\<close>

definition agent_ok :: "Config \<Rightarrow> AgentCfg \<Rightarrow> bool" where
  "agent_ok c a \<longleftrightarrow>
     (a_Mode a = ModeStream \<and> a_Source a \<noteq> [] \<and> a_SourceKind a \<in> {kindStream, kindList} \<or>
      a_Mode a = ModePeriodic \<and> 0 < a_Interval a) \<and>
     a_Destinations a \<noteq> [] \<and>
     (destSummary \<in> set (a_Destinations a) \<longrightarrow> SummaryDestination (c_House c) \<noteq> [])"

lemma mode_errors_empty:
  "mode_errors a = [] \<longleftrightarrow>
     a_Mode a = ModeStream \<and> a_Source a \<noteq> [] \<and> a_SourceKind a \<in> {kindStream, kindList} \<or>
     a_Mode a = ModePeriodic \<and> 0 < a_Interval a"
  by (auto simp: mode_errors_def)

lemma Agent_validate_empty: "Agent_validate a c = [] \<longleftrightarrow> agent_ok c a"
  by (auto simp: Agent_validate_def agent_ok_def mode_errors_empty)

lemma validate_agents_empty:
  "concat (map (\<lambda>a. if \<not> a_Enabled a then [] else Agent_validate a c) as) = [] \<longleftrightarrow>
     (\<forall>a \<in> set as. a_Enabled a \<longrightarrow> agent_ok c a)"
  by (induction as) (auto simp: Agent_validate_empty)

lemma Validate_accepts:
  "Config_Validate c = None \<longleftrightarrow>
     1 \<le> d_MaxAttempts (c_Dispatch c) \<and>
     \<not> (EmailEnabled (c_Anomaly c) \<and> strings_TrimSpace (SupportTo (c_Anomaly c)) = []) \<and>
     list_all (agent_ok c) (Config_Enabled c)"
proof -
  have "Config_Validate c = None \<longleftrightarrow> validate_errors c = []"
    by (simp add: Config_Validate_def split: list.split)
  also have "\<dots> \<longleftrightarrow> 1 \<le> d_MaxAttempts (c_Dispatch c) \<and>
     (EmailEnabled (c_Anomaly c) \<longrightarrow> strings_TrimSpace (SupportTo (c_Anomaly c)) \<noteq> []) \<and>
     (\<forall>a \<in> set (c_Agents c). a_Enabled a \<longrightarrow> agent_ok c a)"
    by (auto simp del: concat_eq_Nil_conv simp: validate_errors_def validate_agents_empty)
  finally show ?thesis by (auto simp: Config_Enabled_def list_all_iff)
qed

text \<open>
  Validation accepts a configuration exactly when the attempt budget is at least
  one, enabled email has a recipient, and every enabled agent has one of the two modes
  with what that mode needs, at least one destination and, if it sends summaries, a
  summary destination. Disabled agents are not looked at.
\<close>

theorem Validate_exact:
  "Config_Validate c = None \<longleftrightarrow>
     1 \<le> d_MaxAttempts (c_Dispatch c) \<and>
     \<not> (EmailEnabled (c_Anomaly c) \<and> strings_TrimSpace (SupportTo (c_Anomaly c)) = []) \<and>
     list_all (agent_ok c) (Config_Enabled c)"
  by (rule Validate_accepts)

lemma loadFrom_Inr:
  "loadFrom pf host get = Inr c \<Longrightarrow>
     loadAgents get = Inr (c_Agents c) \<and> Config_Validate c = None \<and>
     c = (base_config pf host get)\<lparr>c_Agents := c_Agents c\<rparr>"
  by (auto simp: loadFrom_def Let_def split: sum.splits option.splits)

section \<open>A configuration for the examples\<close>

definition example_agent_cfg :: "string \<Rightarrow> string \<Rightarrow> string \<Rightarrow> string \<Rightarrow> string \<Rightarrow> string list \<Rightarrow> AgentCfg" where
  "example_agent_cfg ident key mode src kind dests =
     \<lparr>a_ID = ident, a_Key = key, a_Enabled = True, a_Mode = mode, a_Source = src, a_SourceKind = kind,
      a_Destinations = dests, a_Interval = minute, a_BatchSize = 100, a_BlockTimeout = 5 * second\<rparr>"

definition example_config :: Config where
  "example_config =
     \<lparr>HTTPAddr = '':8080'', ShutdownGrace = 25 * second, InstanceID = ''pod-0'', LogLevel = ''info'',
      c_Redis = \<lparr>Addr = ''localhost:6379'', Password = [], DB = 1, ConsumerGrp = ''conflux'', ConsumerNameBase = ''conflux''\<rparr>,
      c_Dispatch = \<lparr>d_MaxAttempts = 3, d_Timeout = 5 * second, d_BackoffInitial = second, d_BackoffMax = 30 * second,
        LTRURL = ''http://ltr'', CEPURL = ''http://cep''\<rparr>,
      c_House = \<lparr>PendingMinIdle = 5 * minute, PendingBatch = 100, ConsumerRetireIdle = hour, SummaryPeriod = minute,
        SummaryDestination = ''http://summary'', SummaryMaxDepth = 1000\<rparr>,
      c_Anomaly = \<lparr>LagThresholdEntries = 10, LagSustainedFor = 5 * minute, DropRateThreshold = ''0.01'', CheckInterval = 30 * second,
        NotifyCooldown = 15 * minute, MaxPerHour = 4, EmailEnabled = False, SMTPAddr = [], SupportTo = [], SupportFrom = []\<rparr>,
      c_Agents =
        [example_agent_cfg ''events-ltr'' ''EVENTS_LTR'' ModeStream ''events'' kindStream [''ltr''],
         example_agent_cfg ''logs'' ''LOGS'' ModeStream ''logs'' kindList [''summary''],
         example_agent_cfg ''pending-reclaim'' ''PENDING_RECLAIM'' ModePeriodic ''reclaim'' kindStream [''none'']]\<rparr>"

end
