(* ===== verification/Dispatch.thy ===== *)
theory Dispatch
  imports Envelope Config
begin

text \<open>
  Delivery to destinations (\<open>internal/dispatch/destination.go\<close>, \<open>retry.go\<close>,
  \<open>outcome.go\<close>): status classification, the bounded retry policy and the dispatcher
  that applies it to every destination of an agent. A destination is a record of the
  two methods of the Go interface; the stubs that implement it are in \<open>Stub\<close>.
\<close>

section \<open>Destinations and outcomes\<close>

record 'n Destination =
  dest_Name :: string
  dest_Dispatch :: "ctx \<Rightarrow> Envelope \<Rightarrow> 'n world \<Rightarrow> gerror option \<times> 'n world"

datatype Result = Delivered | Dropped

record Outcome =
  out_EventID :: string
  out_GatewayID :: string
  out_AgentID :: string
  out_Destination :: string
  out_Attempts :: int
  out_Result :: Result
  out_Reason :: string
  out_DurationMS :: int

section \<open>The retry policy\<close>

text \<open>The second component says whether the status is a success.\<close>

definition ClassifyStatus :: "int \<Rightarrow> FailureKind \<times> bool" where
  "ClassifyStatus status =
     (if 200 \<le> status \<and> status < 300 then (Transient, True)
      else if status = 408 \<or> status = 429 then (Transient, False)
      else if status \<ge> 500 then (Transient, False)
      else if status \<ge> 400 then (Permanent, False)
      else (Transient, False))"

record Policy =
  MaxAttempts :: int
  Timeout :: duration
  BackoffInitial :: duration
  BackoffMax :: duration

definition NewPolicy :: "DispatchCfg \<Rightarrow> Policy" where
  "NewPolicy c =
     \<lparr>MaxAttempts = d_MaxAttempts c, Timeout = d_Timeout c,
      BackoffInitial = d_BackoffInitial c, BackoffMax = d_BackoffMax c\<rparr>"

definition AttemptFrom :: "ctx \<Rightarrow> int option" where
  "AttemptFrom c = attemptKey c"

text \<open>\<open>None\<close> is the nil observer.\<close>

type_synonym 'n AttemptObserver = "(int \<Rightarrow> string \<Rightarrow> 'n world \<Rightarrow> 'n world) option"

definition observe :: "'n AttemptObserver \<Rightarrow> int \<Rightarrow> string \<Rightarrow> 'n world \<Rightarrow> 'n world" where
  "observe obs i outcome w = (case obs of None \<Rightarrow> w | Some f \<Rightarrow> f i outcome w)"

text \<open>The context of one attempt: the attempt number and a deadline \<open>Timeout\<close> from now.\<close>

definition attempt_ctx :: "Policy \<Rightarrow> ctx \<Rightarrow> int \<Rightarrow> 'n world \<Rightarrow> ctx" where
  "attempt_ctx p c attempt w =
     with_timeout (c\<lparr>attemptKey := Some attempt\<rparr>) (clock w) (Timeout p)"

definition failure_kind :: "gerror \<Rightarrow> FailureKind" where
  "failure_kind e = (case errors_As_dispatch e of Some k \<Rightarrow> k | None \<Rightarrow> Transient)"

definition next_backoff :: "Policy \<Rightarrow> duration \<Rightarrow> duration" where
  "next_backoff p b =
     (let b2 = wrap64 (b * 2) in if b2 > BackoffMax p then BackoffMax p else b2)"

definition budget_error :: "Policy \<Rightarrow> gerror option \<Rightarrow> gerror" where
  "budget_error p lastErr =
     (let pre = ''attempt budget of '' @ strconv_Itoa (MaxAttempts p) @ '' exhausted'' in
      case lastErr of
        Some e \<Rightarrow> Wrapf pre e
      | None \<Rightarrow> ErrorString (pre @ '': %!w(<nil>)''))"

text \<open>
  The loop of \<open>Policy.Do\<close> from attempt \<open>i\<close> on, with the current backoff and the last
  error. The result is the number of attempts and the error (\<open>None\<close> when delivered);
  drawing the jitter panics when the backoff plus one is not positive.
\<close>

function Do_from ::
  "Policy \<Rightarrow> ctx \<Rightarrow> 'n Destination \<Rightarrow> Envelope \<Rightarrow> 'n AttemptObserver \<Rightarrow> int \<Rightarrow> duration \<Rightarrow>
   gerror option \<Rightarrow> 'n world \<Rightarrow> (int \<times> gerror option) gores \<times> 'n world" where
  "Do_from p c dest env obs i backoff lastErr w =
     (if i \<le> MaxAttempts p then
        (case dest_Dispatch dest (attempt_ctx p c i w) env w of
           (None, w1) \<Rightarrow> (Ret (i, None), observe obs i ''delivered'' w1)
         | (Some err, w1) \<Rightarrow>
             (let kind = failure_kind err;
                  w2 = observe obs i (FailureKind_String kind) w1
              in if kind = Permanent
                 then (Ret (i, Some (Wrapf (''permanent failure on attempt '' @ strconv_Itoa i) err)), w2)
                 else if i = MaxAttempts p then (Ret (MaxAttempts p, Some (budget_error p (Some err))), w2)
                 else case rand_Int64N (wrap64 (backoff + 1)) w2 of
                   (Panic m, w3) \<Rightarrow> (Panic m, w3)
                 | (Ret wait, w3) \<Rightarrow>
                     (case select_done_after c wait w3 of
                        (True, w4) \<Rightarrow>
                          (Ret (i, Some (Wrapf (''cancelled after attempt '' @ strconv_Itoa i)
                             (case ctx_Err c w4 of Some e \<Rightarrow> e | None \<Rightarrow> ContextCanceled))), w4)
                      | (False, w4) \<Rightarrow>
                          Do_from p c dest env obs (i + 1) (next_backoff p backoff) (Some err) w4)))
      else (Ret (MaxAttempts p, Some (budget_error p lastErr)), w))"
  by pat_completeness auto
termination
  by (relation "measure (\<lambda>(p, c, dest, env, obs, i, b, l, w). nat (MaxAttempts p + 1 - i))") auto

declare Do_from.simps [simp del]

definition Policy_Do ::
  "Policy \<Rightarrow> ctx \<Rightarrow> 'n Destination \<Rightarrow> Envelope \<Rightarrow> 'n AttemptObserver \<Rightarrow> 'n world \<Rightarrow>
   (int \<times> gerror option) gores \<times> 'n world" where
  "Policy_Do p c dest env obs w = Do_from p c dest env obs 1 (BackoffInitial p) None w"

section \<open>The dispatcher\<close>

record 'n Dispatcher =
  disp_agentID :: string
  dests :: "'n Destination list"
  policy :: Policy
  disp_log :: logger

definition NewDispatcher :: "string \<Rightarrow> 'n Destination list \<Rightarrow> Policy \<Rightarrow> logger \<Rightarrow> 'n Dispatcher" where
  "NewDispatcher agentID ds p lg =
     \<lparr>disp_agentID = agentID, dests = ds, policy = p, disp_log = lg\<rparr>"

definition reasonLabel :: "gerror \<Rightarrow> string" where
  "reasonLabel e =
     (if errors_As_dispatch e = Some Permanent then ''permanent'' else ''budget_exhausted'')"

definition milliseconds :: "duration \<Rightarrow> int" where
  "milliseconds d = sgn d * (\<bar>d\<bar> div 1000000)"

definition attempts_observer :: "'n Dispatcher \<Rightarrow> 'n Destination \<Rightarrow> 'n AttemptObserver" where
  "attempts_observer d dest = Some (\<lambda>i outcome.
     counter_Inc ''conflux_dispatch_attempts_total'' [disp_agentID d, dest_Name dest, outcome])"

definition drop_attrs :: "'n Destination \<Rightarrow> Envelope \<Rightarrow> int \<Rightarrow> gerror \<Rightarrow> duration \<Rightarrow> attrs" where
  "drop_attrs dest env attempts err elapsed =
     [(''destination'', AStr (dest_Name dest)), (''attempts'', AInt attempts),
      (''reason'', AStr (error_Error err)), (''duration_ms'', AInt (milliseconds elapsed)),
      (''stream_name'', AStr (StreamName env)), (''received_at'', ATime (ReceivedAt env))]"

text \<open>One iteration of the loop of \<open>Send\<close>: dispatch to one destination and record how it
  resolved.\<close>

definition send_one ::
  "'n Dispatcher \<Rightarrow> ctx \<Rightarrow> Envelope \<Rightarrow> 'n Destination \<Rightarrow> 'n world \<Rightarrow> Outcome gores \<times> 'n world" where
  "send_one d c env dest w =
     (case Policy_Do (policy d) c dest env (attempts_observer d dest) w of
        (Panic m, w1) \<Rightarrow> (Panic m, w1)
      | (Ret (attempts, err), w1) \<Rightarrow>
          (let elapsed = time_Sub (clock w1) (clock w);
               w2 = histogram_Observe ''conflux_dispatch_duration_seconds''
                      [disp_agentID d, dest_Name dest] elapsed w1;
               lg = ForEnvelope (disp_log d) env;
               out = \<lparr>out_EventID = EventID env, out_GatewayID = GatewayID env,
                      out_AgentID = disp_agentID d, out_Destination = dest_Name dest,
                      out_Attempts = attempts, out_Result = Delivered, out_Reason = [],
                      out_DurationMS = milliseconds elapsed\<rparr>
           in case err of
                None \<Rightarrow>
                  (Ret out, log_at lg LDebug ''dispatched''
                     [(''destination'', AStr (dest_Name dest)), (''attempts'', AInt attempts)] w2)
              | Some e \<Rightarrow>
                  (Ret (out\<lparr>out_Result := Dropped, out_Reason := error_Error e\<rparr>),
                   log_at lg LError ''event dropped'' (drop_attrs dest env attempts e elapsed)
                     (counter_Inc ''conflux_dispatch_dropped_total''
                        [disp_agentID d, dest_Name dest, reasonLabel e] w2))))"

fun send_all ::
  "'n Dispatcher \<Rightarrow> ctx \<Rightarrow> Envelope \<Rightarrow> 'n Destination list \<Rightarrow> 'n world \<Rightarrow> Outcome list gores \<times> 'n world" where
  "send_all d c env [] w = (Ret [], w)"
| "send_all d c env (x # xs) w =
     (case send_one d c env x w of
        (Panic m, w1) \<Rightarrow> (Panic m, w1)
      | (Ret out, w1) \<Rightarrow>
          (case send_all d c env xs w1 of
             (Panic m, w2) \<Rightarrow> (Panic m, w2)
           | (Ret outs, w2) \<Rightarrow> (Ret (out # outs), w2)))"

definition Send :: "'n Dispatcher \<Rightarrow> ctx \<Rightarrow> Envelope \<Rightarrow> 'n world \<Rightarrow> Outcome list gores \<times> 'n world" where
  "Send d c env w = send_all d c env (dests d) w"

section \<open>The destination contract\<close>

text \<open>
  What \<open>destination.go\<close> requires of an implementation: one \<open>Dispatch\<close> issues at most one
  command (it must not retry on its own), and it writes neither the log nor the metrics,
  which belong to the caller.
\<close>

locale destination =
  fixes dest :: "'n Destination"
  assumes Dispatch_quiet: "dest_Dispatch dest c env w = (r, w') \<Longrightarrow> quiet w w'"
    and Dispatch_once: "dest_Dispatch dest c env w = (r, w') \<Longrightarrow>
      extends w w' \<and> length (issued w w') \<le> 1"

text \<open>One turn of the loop, by outcome.\<close>

lemma Do_from_cases [consumes 2, case_names Delivered Permanent Budget Panicked Cancelled Retry]:
  assumes "Do_from p c dest env obs i b l w = (res, w')" and "i \<le> MaxAttempts p"
  obtains w1 where "dest_Dispatch dest (attempt_ctx p c i w) env w = (None, w1)"
      "res = Ret (i, None)" "w' = observe obs i ''delivered'' w1"
  | w1 err where "dest_Dispatch dest (attempt_ctx p c i w) env w = (Some err, w1)"
      "failure_kind err = Permanent" "w' = observe obs i ''permanent'' w1"
      "res = Ret (i, Some (Wrapf (''permanent failure on attempt '' @ strconv_Itoa i) err))"
  | w1 err where "dest_Dispatch dest (attempt_ctx p c i w) env w = (Some err, w1)"
      "failure_kind err = Transient" "i = MaxAttempts p" "w' = observe obs i ''transient'' w1"
      "res = Ret (i, Some (budget_error p (Some err)))"
  | w1 err m where "dest_Dispatch dest (attempt_ctx p c i w) env w = (Some err, w1)"
      "failure_kind err = Transient" "i < MaxAttempts p"
      "rand_Int64N (wrap64 (b + 1)) (observe obs i ''transient'' w1) = (Panic m, w')"
      "res = Panic m"
  | w1 err wait w3 e where "dest_Dispatch dest (attempt_ctx p c i w) env w = (Some err, w1)"
      "failure_kind err = Transient" "i < MaxAttempts p"
      "rand_Int64N (wrap64 (b + 1)) (observe obs i ''transient'' w1) = (Ret wait, w3)"
      "select_done_after c wait w3 = (True, w')"
      "e = (case ctx_Err c w' of Some e \<Rightarrow> e | None \<Rightarrow> ContextCanceled)"
      "res = Ret (i, Some (Wrapf (''cancelled after attempt '' @ strconv_Itoa i) e))"
  | w1 err wait w3 w4 where "dest_Dispatch dest (attempt_ctx p c i w) env w = (Some err, w1)"
      "failure_kind err = Transient" "i < MaxAttempts p"
      "rand_Int64N (wrap64 (b + 1)) (observe obs i ''transient'' w1) = (Ret wait, w3)"
      "select_done_after c wait w3 = (False, w4)"
      "Do_from p c dest env obs (i + 1) (next_backoff p b) (Some err) w4 = (res, w')"
proof -
  obtain r w1 where d: "dest_Dispatch dest (attempt_ctx p c i w) env w = (r, w1)"
    by (cases "dest_Dispatch dest (attempt_ctx p c i w) env w")
  note eq = assms(1) [unfolded Do_from.simps [of p c dest env obs i b l w]]
  show ?thesis
  proof (cases r)
    case None
    with d eq assms(2) that(1) show ?thesis by simp
  next
    case (Some err)
    show ?thesis
    proof (cases "failure_kind err = Permanent")
      case True
      with Some d eq assms(2) that(2) show ?thesis by (simp add: Let_def)
    next
      case False
      then have k: "failure_kind err = Transient" by (cases "failure_kind err") simp_all
      show ?thesis
      proof (cases "i = MaxAttempts p")
        case True
        with Some k d eq that(3) show ?thesis by (simp add: Let_def)
      next
        case ne: False
        with assms(2) have lt: "i < MaxAttempts p" by simp
        obtain rr w3 where r: "rand_Int64N (wrap64 (b + 1)) (observe obs i ''transient'' w1) = (rr, w3)"
          by (cases "rand_Int64N (wrap64 (b + 1)) (observe obs i ''transient'' w1)")
        show ?thesis
        proof (cases rr)
          case (Panic m)
          with Some k d eq r lt ne that(4) show ?thesis by (simp add: Let_def)
        next
          case (Ret wait)
          obtain f w4 where s: "select_done_after c wait w3 = (f, w4)"
            by (cases "select_done_after c wait w3")
          show ?thesis
          proof (cases f)
            case True
            with Some k d eq r Ret ne s have "w4 = w'"
              and "res = Ret (i, Some (Wrapf (''cancelled after attempt '' @ strconv_Itoa i)
                (case ctx_Err c w' of Some e \<Rightarrow> e | None \<Rightarrow> ContextCanceled)))"
              using assms(2) by (auto simp: Let_def)
            with True s show ?thesis
              by (intro that(5) [OF d [unfolded Some] k lt r [unfolded Ret] _ refl]) simp_all
          next
            case False
            with Some k d eq r Ret lt ne s that(6) show ?thesis by (simp add: Let_def)
          qed
        qed
      qed
    qed
  qed
qed

section \<open>The retry policy is bounded\<close>

text \<open>An observer may only touch the counters; the dispatcher's does nothing else.\<close>

definition counting :: "'n AttemptObserver \<Rightarrow> bool" where
  "counting obs \<longleftrightarrow>
     (\<forall>i s w. logs (observe obs i s w) = logs w \<and> trace (observe obs i s w) = trace w \<and>
        clock (observe obs i s w) = clock w \<and>
        (\<forall>x. fst x \<noteq> ''conflux_dispatch_attempts_total'' \<longrightarrow> counters (observe obs i s w) x = counters w x))"

lemma counting_attempts [simp]: "counting (attempts_observer d dest)" "counting None"
  by (simp_all add: counting_def observe_def attempts_observer_def)

context destination
begin

text \<open>From attempt \<open>i\<close> on, the loop issues no more commands than attempts are left and
  reports an attempt number within the budget.\<close>

lemma Do_from_bounded:
  assumes "Do_from p c dest env obs i b l w = (res, w')" and "i \<le> MaxAttempts p" and "counting obs"
  shows "logs w' = logs w \<and> clock w \<le> clock w' \<and> extends w w' \<and>
    (\<forall>x. fst x \<noteq> ''conflux_dispatch_attempts_total'' \<longrightarrow> counters w' x = counters w x) \<and>
    int (length (issued w w')) \<le> MaxAttempts p + 1 - i \<and>
    (\<forall>n e. res = Ret (n, e) \<longrightarrow> i \<le> n \<and> n \<le> MaxAttempts p \<and>
       int (length (issued w w')) \<le> n + 1 - i)"
  using assms
proof (induction "nat (MaxAttempts p - i)" arbitrary: i b l w rule: less_induct)
  case less
  have obs: "logs (observe obs j s v) = logs v" "trace (observe obs j s v) = trace v"
    "clock (observe obs j s v) = clock v"
    "fst x \<noteq> ''conflux_dispatch_attempts_total'' \<Longrightarrow> counters (observe obs j s v) x = counters v x"
    for j s v x
    using less.prems(3) by (cases x, simp_all add: counting_def)+
  have att: "logs v = logs w" "clock w \<le> clock v" "extends w v" "length (issued w v) \<le> 1"
    "\<forall>x. fst x \<noteq> ''conflux_dispatch_attempts_total'' \<longrightarrow> counters v x = counters w x"
    if "dest_Dispatch dest (attempt_ctx p c i w) env w = (r, w1)" "v = observe obs i s w1" for r w1 s v
    using Dispatch_quiet [OF that(1)] Dispatch_once [OF that(1)]
    by (auto simp: that(2) obs quiet_def extends_def issued_def)
  from less.prems(1,2) show ?case
  proof (cases rule: Do_from_cases)
    case (Delivered w1)
    with att [OF Delivered(1,3)] less.prems(2) show ?thesis by auto
  next
    case (Permanent w1 err)
    with att [OF Permanent(1,3)] less.prems(2) show ?thesis by auto
  next
    case (Budget w1 err)
    with att [OF Budget(1,4)] show ?thesis by auto
  next
    case (Panicked w1 err m)
    have "logs w' = logs w" "clock w \<le> clock w'" "extends w w'" "length (issued w w') \<le> 1"
      "\<forall>x. fst x \<noteq> ''conflux_dispatch_attempts_total'' \<longrightarrow> counters w' x = counters w x"
      using att [OF Panicked(1) refl, of "''transient''"] rand_quiet [OF Panicked(4)]
      by (auto simp: quiet_def extends_def issued_def)
    with Panicked show ?thesis by auto
  next
    case (Cancelled w1 err wait w3 e)
    have "logs w' = logs w" "clock w \<le> clock w'" "extends w w'" "length (issued w w') \<le> 1"
      "\<forall>x. fst x \<noteq> ''conflux_dispatch_attempts_total'' \<longrightarrow> counters w' x = counters w x"
      using att [OF Cancelled(1) refl, of "''transient''"] rand_quiet [OF Cancelled(4)]
        select_quiet [OF Cancelled(5)] by (auto simp: quiet_def extends_def issued_def)
    with Cancelled show ?thesis by auto
  next
    case (Retry w1 err wait w3 w4)
    have w4: "logs w4 = logs w" "clock w \<le> clock w4" "extends w w4" "length (issued w w4) \<le> 1"
      "\<forall>x. fst x \<noteq> ''conflux_dispatch_attempts_total'' \<longrightarrow> counters w4 x = counters w x"
      using att [OF Retry(1) refl, of "''transient''"] rand_quiet [OF Retry(4)]
        select_quiet [OF Retry(5)] by (auto simp: quiet_def extends_def issued_def)
    have "nat (MaxAttempts p - (i + 1)) < nat (MaxAttempts p - i)" "i + 1 \<le> MaxAttempts p"
      using Retry(3) by simp_all
    from less.hyps [OF this(1) Retry(6) this(2) less.prems(3)] w4
    show ?thesis using extends_trans [OF w4(3), of w'] by fastforce
  qed
qed

end

section \<open>No panic, and no longer than the budget allows\<close>

definition sane_backoff :: "Policy \<Rightarrow> bool" where
  "sane_backoff p \<longleftrightarrow> 0 \<le> BackoffInitial p \<and> BackoffInitial p < 2 ^ 62 \<and>
     0 \<le> BackoffMax p \<and> BackoffMax p < 2 ^ 62"

definition backoff_bound :: "Policy \<Rightarrow> duration" where
  "backoff_bound p = max (BackoffInitial p) (BackoffMax p)"

lemma next_backoff_range:
  "sane_backoff p \<Longrightarrow> 0 \<le> b \<Longrightarrow> b \<le> backoff_bound p \<Longrightarrow>
     0 \<le> next_backoff p b \<and> next_backoff p b \<le> backoff_bound p"
  by (auto simp: next_backoff_def Let_def sane_backoff_def backoff_bound_def in64_def
        minInt64_def maxInt64_def)

lemma jitter_arg: "sane_backoff p \<Longrightarrow> 0 \<le> b \<Longrightarrow> b \<le> backoff_bound p \<Longrightarrow> wrap64 (b + 1) = b + 1"
  by (rule wrap64_id) (auto simp: sane_backoff_def backoff_bound_def in64_def minInt64_def maxInt64_def)

lemma Do_from_no_panic:
  assumes "Do_from p c dest env obs i b l w = (res, w')" and "i \<le> MaxAttempts p"
    and "sane_backoff p" and "0 \<le> b" and "b \<le> backoff_bound p"
  shows "\<exists>n e. res = Ret (n, e)"
  using assms
proof (induction "nat (MaxAttempts p - i)" arbitrary: i b l w rule: less_induct)
  case less
  from less.prems(1,2) show ?case
  proof (cases rule: Do_from_cases)
    case (Panicked w1 err m)
    then show ?thesis
      using rand_Ret_iff [of "wrap64 (b + 1)" "observe obs i ''transient'' w1"]
        jitter_arg [OF less.prems(3-5)] less.prems(4) by (auto simp: rand_Int64N_def)
  next
    case (Retry w1 err wait w3 w4)
    then show ?thesis
      using less.hyps [OF _ Retry(6)] next_backoff_range [OF less.prems(3-5)] less.prems(3) by simp
  qed auto
qed

lemma Do_from_time:
  assumes "Do_from p c dest env obs i b l w = (res, w')" and "i \<le> MaxAttempts p"
    and "sane_backoff p" and "0 \<le> b" and "b \<le> backoff_bound p" and "counting obs"
    and "0 \<le> Timeout p"
    and timely: "\<And>i w r w1. dest_Dispatch dest (attempt_ctx p c i w) env w = (r, w1) \<Longrightarrow>
      clock w1 \<le> clock w + Timeout p"
  shows "clock w' \<le> clock w + (MaxAttempts p + 1 - i) * Timeout p + (MaxAttempts p - i) * backoff_bound p"
  using assms(1-7)
proof (induction "nat (MaxAttempts p - i)" arbitrary: i b l w rule: less_induct)
  case less
  let ?T = "Timeout p" and ?B = "backoff_bound p"
  have obs: "clock (observe obs j s v) = clock v" for j s v
    using less.prems(6) by (simp add: counting_def)
  have B: "0 \<le> ?B" using less.prems(3) by (simp add: sane_backoff_def backoff_bound_def le_max_iff_disj)
  have room: "?T \<le> (MaxAttempts p + 1 - i) * ?T" "0 \<le> (MaxAttempts p - i) * ?B"
    using less.prems(2,7) B mult_right_mono [of 1 "MaxAttempts p + 1 - i" ?T] by simp_all
  have more: "?B \<le> (MaxAttempts p - i) * ?B" if "i < MaxAttempts p"
    using that B mult_right_mono [of 1 "MaxAttempts p - i" ?B] by simp
  have jit: "wait \<le> ?B \<and> 0 \<le> wait" if "rand_Int64N (wrap64 (b + 1)) v = (Ret wait, v')" for v wait v'
    using rand_range [OF that] jitter_arg [OF less.prems(3-5)] less.prems(5) by simp
  from less.prems(1,2) show ?case
  proof (cases rule: Do_from_cases)
    case (Delivered w1)
    with timely [OF Delivered(1)] room show ?thesis by (simp add: obs)
  next
    case (Permanent w1 err)
    with timely [OF Permanent(1)] room show ?thesis by (simp add: obs)
  next
    case (Budget w1 err)
    with timely [OF Budget(1)] room show ?thesis by (simp add: obs)
  next
    case (Panicked w1 err m)
    with timely [OF Panicked(1)] room rand_frame(7) [OF Panicked(4)] show ?thesis by (simp add: obs)
  next
    case (Cancelled w1 err wait w3 e)
    with timely [OF Cancelled(1)] room(1) more rand_frame(7) [OF Cancelled(4)]
      select_frame(8) [OF Cancelled(5)] jit [OF Cancelled(4)]
    show ?thesis by (simp add: obs)
  next
    case (Retry w1 err wait w3 w4)
    have "clock w4 \<le> clock w + ?T + ?B"
      using timely [OF Retry(1)] rand_frame(7) [OF Retry(4)] select_frame(8) [OF Retry(5)]
        jit [OF Retry(4)] by (simp add: obs)
    moreover have "clock w' \<le> clock w4 + (MaxAttempts p + 1 - (i + 1)) * ?T +
        (MaxAttempts p - (i + 1)) * ?B"
      using less.hyps [OF _ Retry(6)] Retry(3) less.prems(3,6,7)
        next_backoff_range [OF less.prems(3-5)] by simp
    ultimately show ?thesis by (simp add: algebra_simps)
  qed
qed

section \<open>What the policy decides\<close>

text \<open>
  The specification: given the reply of each attempt, a dispatch resolves at the first
  attempt that succeeds or fails permanently, and at the last allowed one if there is none.
\<close>

definition retryable :: "gerror option \<Rightarrow> bool" where
  "retryable r \<longleftrightarrow> (case r of None \<Rightarrow> False | Some e \<Rightarrow> failure_kind e = Transient)"

definition resolves_at :: "(int \<Rightarrow> gerror option) \<Rightarrow> int \<Rightarrow> int \<Rightarrow> bool" where
  "resolves_at reply budget n \<longleftrightarrow>
     1 \<le> n \<and> n \<le> budget \<and> (\<forall>j. 1 \<le> j \<and> j < n \<longrightarrow> retryable (reply j)) \<and>
     (n = budget \<or> \<not> retryable (reply n))"

lemma resolves_at_unique: "resolves_at reply b m \<Longrightarrow> resolves_at reply b n \<Longrightarrow> m = n"
  unfolding resolves_at_def by (metis linorder_neqE_linordered_idom order_less_le_trans order_less_irrefl)

lemma Do_from_spec:
  assumes "Do_from p c dest env obs i b l w = (res, w')" and "1 \<le> i" and "i \<le> MaxAttempts p"
    and "sane_backoff p" and "0 \<le> b" and "b \<le> backoff_bound p"
    and "\<forall>j. 1 \<le> j \<and> j < i \<longrightarrow> retryable (reply j)"
    and replies: "\<And>c' v. fst (dest_Dispatch dest c' env v) = reply (the (attemptKey c'))"
    and never: "done_at c = None"
  shows "\<exists>n. resolves_at reply (MaxAttempts p) n \<and>
    (case reply n of None \<Rightarrow> res = Ret (n, None) | Some err \<Rightarrow> \<exists>msg. res = Ret (n, Some (Wrapf msg err)))"
  using assms(1-7)
proof (induction "nat (MaxAttempts p - i)" arbitrary: i b l w rule: less_induct)
  case less
  have rep: "reply i = r" if "dest_Dispatch dest (attempt_ctx p c i w) env w = (r, w1)" for r w1
    using replies [of "attempt_ctx p c i w" w] that by (simp add: attempt_ctx_def with_timeout_def)
  from less.prems(1,3) show ?case
  proof (cases rule: Do_from_cases)
    case (Delivered w1)
    with rep [OF Delivered(1)] less.prems(2,3,7) show ?thesis
      by (intro exI [of _ i]) (auto simp: resolves_at_def retryable_def)
  next
    case (Permanent w1 err)
    with rep [OF Permanent(1)] less.prems(2,3,7) show ?thesis
      by (intro exI [of _ i]) (auto simp: resolves_at_def retryable_def)
  next
    case (Budget w1 err)
    with rep [OF Budget(1)] less.prems(2,3,7) show ?thesis
      by (intro exI [of _ i]) (auto simp: resolves_at_def budget_error_def Let_def)
  next
    case (Panicked w1 err m)
    with jitter_arg [OF less.prems(4-6)] less.prems(5) show ?thesis by (simp add: rand_Int64N_def)
  next
    case (Cancelled w1 err wait w3 e)
    with never show ?thesis by (simp add: select_done_after_def Let_def)
  next
    case (Retry w1 err wait w3 w4)
    have "\<forall>j. 1 \<le> j \<and> j < i + 1 \<longrightarrow> retryable (reply j)"
    proof (intro allI impI)
      fix j assume "1 \<le> j \<and> j < i + 1"
      then show "retryable (reply j)"
        using less.prems(7) rep [OF Retry(1)] Retry(2) by (cases "j = i") (auto simp: retryable_def)
    qed
    then show ?thesis
      using less.hyps [OF _ Retry(6)] Retry(3) less.prems(2,4) next_backoff_range [OF less.prems(4-6)]
      by simp
  qed
qed

section \<open>Accounting for every dispatch\<close>

text \<open>A log line that records in full a dropped outcome of an envelope.\<close>

definition records_drop :: "Envelope \<Rightarrow> logline \<Rightarrow> Outcome \<Rightarrow> bool" where
  "records_drop env line out \<longleftrightarrow>
     l_level line = LError \<and> l_msg line = ''event dropped'' \<and>
     {(''event_id'', AStr (out_EventID out)), (''gateway_id'', AStr (out_GatewayID out)),
      (''destination'', AStr (out_Destination out)), (''attempts'', AInt (out_Attempts out)),
      (''reason'', AStr (out_Reason out)), (''duration_ms'', AInt (out_DurationMS out)),
      (''stream_name'', AStr (StreamName env)), (''received_at'', ATime (ReceivedAt env))}
       \<subseteq> set (l_attrs line)"

definition new_drops :: "'n world \<Rightarrow> 'n world \<Rightarrow> logline list" where
  "new_drops w w' = filter (\<lambda>l. l_msg l = ''event dropped'') (drop (length (logs w)) (logs w'))"

definition dropped :: "Outcome \<Rightarrow> bool" where
  "dropped out \<longleftrightarrow> out_Result out = Dropped"

definition dropped_total :: "string \<Rightarrow> string \<Rightarrow> 'n world \<Rightarrow> nat" where
  "dropped_total agent dest w =
     counters w (''conflux_dispatch_dropped_total'', [agent, dest, ''permanent'']) +
     counters w (''conflux_dispatch_dropped_total'', [agent, dest, ''budget_exhausted''])"

definition log_extends :: "'n world \<Rightarrow> 'n world \<Rightarrow> bool" where
  "log_extends w w' \<longleftrightarrow> logs w' = logs w @ drop (length (logs w)) (logs w')"

lemma new_drops_trans:
  assumes "log_extends w w1" and "log_extends w1 w2"
  shows "log_extends w w2" "new_drops w w2 = new_drops w w1 @ new_drops w1 w2"
proof -
  from assms have "logs w2 = logs w @ drop (length (logs w)) (logs w1) @ drop (length (logs w1)) (logs w2)"
    unfolding log_extends_def by (metis append.assoc)
  then have d: "drop (length (logs w)) (logs w2) =
      drop (length (logs w)) (logs w1) @ drop (length (logs w1)) (logs w2)"
    by (metis append_eq_conv_conj)
  with assms show "log_extends w w2" unfolding log_extends_def by (metis append.assoc)
  show "new_drops w w2 = new_drops w w1 @ new_drops w1 w2" by (simp add: new_drops_def d)
qed

lemma reasonLabel_cases: "reasonLabel e = ''permanent'' \<or> reasonLabel e = ''budget_exhausted''"
  by (simp add: reasonLabel_def)

definition drop_line :: "'n Dispatcher \<Rightarrow> Envelope \<Rightarrow> 'n Destination \<Rightarrow> int \<Rightarrow> gerror \<Rightarrow> duration \<Rightarrow> logline" where
  "drop_line d env dest n e elapsed =
     \<lparr>l_level = LError, l_msg = ''event dropped'',
      l_attrs = base_attrs (ForEnvelope (disp_log d) env) @ drop_attrs dest env n e elapsed\<rparr>"

text \<open>What one \<open>send_one\<close> does to log, trace and counters, by outcome.\<close>

lemma send_one_Delivered:
  assumes "Policy_Do (policy d) c dest env (attempts_observer d dest) w = (Ret (n, None), w1)"
    and "send_one d c env dest w = (Ret out, w')"
  shows "out_EventID out = EventID env" "out_Destination out = dest_Name dest"
    "out_Attempts out = n" "out_Result out = Delivered" "trace w' = trace w1"
    "counters w' = counters w1"
    "\<exists>ls. logs w' = logs w1 @ ls \<and> filter (\<lambda>l. l_msg l = ''event dropped'') ls = []"
  using assms(2) by (auto simp: send_one_def assms(1) Let_def log_at_def histogram_Observe_def)

lemma send_one_Dropped:
  assumes "Policy_Do (policy d) c dest env (attempts_observer d dest) w = (Ret (n, Some e), w1)"
    and "send_one d c env dest w = (Ret out, w')"
  shows "out_EventID out = EventID env" "out_Destination out = dest_Name dest"
    "out_Attempts out = n" "out_Result out = Dropped" "trace w' = trace w1"
    "counters w' = (let k = (''conflux_dispatch_dropped_total'', [disp_agentID d, dest_Name dest, reasonLabel e])
       in (counters w1)(k := Suc (counters w1 k)))"
    "logs w' = logs w1 @ [drop_line d env dest n e (time_Sub (clock w1) (clock w))]"
    "records_drop env (drop_line d env dest n e (time_Sub (clock w1) (clock w))) out"
  using assms(2)
  by (simp_all add: send_one_def assms(1) Let_def drop_line_def)
     (auto simp: records_drop_def drop_attrs_def ForEnvelope_def log_With_def)

lemma dropped_total_Inc:
  assumes "counters w' = (let k = (''conflux_dispatch_dropped_total'', [a, x, reasonLabel e])
       in (counters w1)(k := Suc (counters w1 k)))"
  shows "dropped_total a y w' = dropped_total a y w1 + (if y = x then 1 else 0)"
  using reasonLabel_cases [of e]
proof
  assume r: "reasonLabel e = ''permanent''"
  show ?thesis by (simp add: dropped_total_def assms r Let_def)
next
  assume r: "reasonLabel e = ''budget_exhausted''"
  show ?thesis by (simp add: dropped_total_def assms r Let_def)
qed

context destination
begin

lemma send_one_accounts:
  assumes "send_one d c env dest w = (Ret out, w')" and "1 \<le> MaxAttempts (policy d)"
  shows "out_EventID out = EventID env \<and> out_Destination out = dest_Name dest \<and>
    1 \<le> out_Attempts out \<and> out_Attempts out \<le> MaxAttempts (policy d) \<and>
    extends w w' \<and> int (length (issued w w')) \<le> out_Attempts out \<and>
    log_extends w w' \<and> list_all2 (records_drop env) (new_drops w w') (filter dropped [out]) \<and>
    (\<forall>x. dropped_total (disp_agentID d) x w' = dropped_total (disp_agentID d) x w +
       (if dropped out \<and> x = dest_Name dest then 1 else 0))"
proof -
  obtain n err w1 where run: "Policy_Do (policy d) c dest env (attempts_observer d dest) w = (Ret (n, err), w1)"
    using assms(1) by (auto simp: send_one_def split: prod.splits gores.splits)
  note b = Do_from_bounded [OF run [unfolded Policy_Do_def] assms(2) counting_attempts(1)]
  have cnt: "dropped_total a x w1 = dropped_total a x w" for a x
    using b by (simp add: dropped_total_def)
  have n: "1 \<le> n" "n \<le> MaxAttempts (policy d)" "int (length (issued w w1)) \<le> n"
    "logs w1 = logs w" "trace w1 = trace w @ issued w w1"
    using b by (auto simp: extends_def)
  show ?thesis
  proof (cases err)
    case None
    note f = send_one_Delivered [OF run [unfolded None] assms(1)]
    from f(7) n(4) obtain ls where ls: "logs w' = logs w @ ls"
      "filter (\<lambda>l. l_msg l = ''event dropped'') ls = []" by auto
    have "dropped_total a x w' = dropped_total a x w1" for a x
      by (simp add: dropped_total_def f(6))
    moreover have "extends w w' \<and> issued w w' = issued w w1"
      using extendsI [of w' w "issued w w1"] f(5) n(5) by simp
    ultimately show ?thesis using f(1-4) n(1-3) ls cnt
      by (simp add: log_extends_def new_drops_def dropped_def)
  next
    case (Some e)
    note f = send_one_Dropped [OF run [unfolded Some] assms(1)]
    have "extends w w' \<and> issued w w' = issued w w1"
      using extendsI [of w' w "issued w w1"] f(5) n(5) by simp
    with f(1-4,7,8) n(1-4) dropped_total_Inc [OF f(6)] cnt show ?thesis
      by (simp add: log_extends_def new_drops_def dropped_def drop_line_def)
  qed
qed

end

lemma send_all_accounts:
  assumes "send_all d c env xs w = (Ret outs, w')" and "1 \<le> MaxAttempts (policy d)"
    and "\<And>x. x \<in> set xs \<Longrightarrow> destination x"
  shows "map out_Destination outs = map dest_Name xs \<and>
    (\<forall>out \<in> set outs. out_EventID out = EventID env \<and> 1 \<le> out_Attempts out \<and>
       out_Attempts out \<le> MaxAttempts (policy d)) \<and>
    extends w w' \<and> int (length (issued w w')) \<le> sum_list (map out_Attempts outs) \<and>
    log_extends w w' \<and> list_all2 (records_drop env) (new_drops w w') (filter dropped outs) \<and>
    (\<forall>x. dropped_total (disp_agentID d) x w' = dropped_total (disp_agentID d) x w +
       length (filter (\<lambda>out. dropped out \<and> out_Destination out = x) outs))"
  using assms
proof (induction xs arbitrary: w outs)
  case Nil
  then show ?case by (simp add: log_extends_def new_drops_def)
next
  case (Cons y ys)
  then obtain out w1 outs' where one: "send_one d c env y w = (Ret out, w1)"
    and rest: "send_all d c env ys w1 = (Ret outs', w')" and outs: "outs = out # outs'"
    by (auto split: prod.splits gores.splits)
  have "destination y" using Cons.prems(3) by simp
  note a = destination.send_one_accounts [OF this one Cons.prems(2)]
  note r = Cons.IH [OF rest Cons.prems(2)]
  from a have ext: "extends w w1" "log_extends w w1" by blast+
  have "list_all2 (records_drop env) (new_drops w w1 @ new_drops w1 w') (filter dropped [out] @ filter dropped outs')"
    using a r Cons.prems(3) by (intro list_all2_appendI) auto
  then have "list_all2 (records_drop env) (new_drops w w') (filter dropped outs)"
    using r ext Cons.prems(3) new_drops_trans [of w w1 w']
    by (cases "dropped out") (simp_all add: outs)
  then show ?case
    using a r ext Cons.prems(3) extends_trans [of w w1 w'] new_drops_trans [of w w1 w']
    by (auto simp: outs)
qed

text \<open>A dispatch always returns.\<close>

lemma Policy_Do_total:
  assumes "destination dest" and "1 \<le> MaxAttempts p" and "sane_backoff p" and "counting obs"
  shows "\<exists>n e w'. Policy_Do p c dest env obs w = (Ret (n, e), w') \<and> 1 \<le> n \<and> n \<le> MaxAttempts p \<and>
    int (length (issued w w')) \<le> n \<and> logs w' = logs w"
proof -
  obtain res w' where run: "Policy_Do p c dest env obs w = (res, w')" by fastforce
  have "0 \<le> BackoffInitial p" "BackoffInitial p \<le> backoff_bound p"
    using assms(3) by (simp_all add: sane_backoff_def backoff_bound_def)
  then obtain n e where "res = Ret (n, e)"
    using Do_from_no_panic [OF run [unfolded Policy_Do_def] assms(2,3)] by blast
  with run destination.Do_from_bounded [OF assms(1) run [unfolded Policy_Do_def] assms(2,4)]
  show ?thesis by auto
qed

lemma send_one_total:
  assumes "destination x" and "1 \<le> MaxAttempts (policy d)" and "sane_backoff (policy d)"
  shows "\<exists>out w'. send_one d c env x w = (Ret out, w')"
proof -
  obtain n e w1 where "Policy_Do (policy d) c x env (attempts_observer d x) w = (Ret (n, e), w1)"
    using Policy_Do_total [OF assms counting_attempts(1)] by metis
  then show ?thesis by (cases e) (simp_all add: send_one_def Let_def)
qed

lemma send_all_total:
  assumes "\<forall>x \<in> set xs. destination x" and "1 \<le> MaxAttempts (policy d)" and "sane_backoff (policy d)"
  shows "\<exists>outs w'. send_all d c env xs w = (Ret outs, w')"
  using assms(1)
proof (induction xs arbitrary: w)
  case (Cons x xs)
  from Cons.prems have x: "destination x" "\<forall>x \<in> set xs. destination x" by simp_all
  obtain out w1 where 1: "send_one d c env x w = (Ret out, w1)" using send_one_total [OF x(1) assms(2,3)] by blast
  obtain outs w2 where "send_all d c env xs w1 = (Ret outs, w2)" using Cons.IH [OF x(2)] by blast
  with 1 show ?case by simp
qed simp

text \<open>Sending takes no time backwards, and does not panic under a sane policy.\<close>

lemma send_all_clock:
  assumes "send_all d c env xs w = (r, w')" and "1 \<le> MaxAttempts (policy d)"
    and "\<And>x. x \<in> set xs \<Longrightarrow> destination x"
  shows "clock w \<le> clock w' \<and> (sane_backoff (policy d) \<longrightarrow> (\<exists>outs. r = Ret outs))"
  using assms
proof (induction xs arbitrary: w r w')
  case (Cons x xs)
  obtain res w1 where run: "Policy_Do (policy d) c x env (attempts_observer d x) w = (res, w1)" by fastforce
  have x: "destination x" using Cons.prems(3) by simp
  have le: "clock w \<le> clock w1"
    using destination.Do_from_bounded [OF x run [unfolded Policy_Do_def] Cons.prems(2) counting_attempts(1)] by simp
  have total: "sane_backoff (policy d) \<longrightarrow> (\<exists>n e. res = Ret (n, e))"
    using Policy_Do_total [OF x Cons.prems(2) _ counting_attempts(1)] run by (metis prod.inject)
  obtain r1 w2 where one: "send_one d c env x w = (r1, w2)" by fastforce
  have two: "clock w2 = clock w1" "(\<exists>n e. res = Ret (n, e)) \<longrightarrow> (\<exists>out. r1 = Ret out)"
    using one run by (auto simp: send_one_def Let_def split: gores.splits prod.splits option.splits)
  obtain r3 w3 where rest: "send_all d c env xs w2 = (r3, w3)" by fastforce
  note IH = Cons.IH [OF rest Cons.prems(2)]
  from Cons.prems(1) one rest le two total IH Cons.prems(3) show ?case
    by (cases r1; cases r3) auto
qed simp

text \<open>Sending touches no counters but its own two.\<close>

definition dispatch_counter :: "series \<Rightarrow> bool" where
  "dispatch_counter k \<longleftrightarrow>
     fst k = ''conflux_dispatch_attempts_total'' \<or> fst k = ''conflux_dispatch_dropped_total''"

lemma send_all_counters:
  assumes "send_all d c env xs w = (r, w')" and "1 \<le> MaxAttempts (policy d)"
    and "\<And>x. x \<in> set xs \<Longrightarrow> destination x" and "\<not> dispatch_counter k"
  shows "counters w' k = counters w k"
  using assms(1-3)
proof (induction xs arbitrary: w r w')
  case (Cons x xs)
  obtain res w1 where run: "Policy_Do (policy d) c x env (attempts_observer d x) w = (res, w1)" by fastforce
  have x: "destination x" using Cons.prems(3) by simp
  have le: "counters w1 k = counters w k"
    using destination.Do_from_bounded [OF x run [unfolded Policy_Do_def] Cons.prems(2) counting_attempts(1)] assms(4)
    by (cases k) (simp add: dispatch_counter_def)
  obtain r1 w2 where one: "send_one d c env x w = (r1, w2)" by fastforce
  have two: "counters w2 k = counters w1 k"
    using one run assms(4)
    by (auto simp: send_one_def Let_def dispatch_counter_def split: gores.splits prod.splits option.splits)
  obtain r3 w3 where rest: "send_all d c env xs w2 = (r3, w3)" by fastforce
  note IH = Cons.IH [OF rest Cons.prems(2)]
  from Cons.prems(1) one rest le two IH Cons.prems(3) show ?case
    by (cases r1; cases r3) auto
qed simp

text \<open>Sending writes no lines but its own two.\<close>

definition dispatch_line :: "logline \<Rightarrow> bool" where
  "dispatch_line l \<longleftrightarrow> l_msg l = ''dispatched'' \<or> l_msg l = ''event dropped''"

lemma send_all_logs:
  assumes "send_all d c env xs w = (r, w')" and "1 \<le> MaxAttempts (policy d)"
    and "\<And>x. x \<in> set xs \<Longrightarrow> destination x"
  shows "\<exists>ls. logs w' = logs w @ ls \<and> list_all dispatch_line ls"
  using assms
proof (induction xs arbitrary: w r w')
  case (Cons x xs)
  obtain res w1 where run: "Policy_Do (policy d) c x env (attempts_observer d x) w = (res, w1)" by fastforce
  have x: "destination x" using Cons.prems(3) by simp
  have same: "logs w1 = logs w"
    using destination.Do_from_bounded [OF x run [unfolded Policy_Do_def] Cons.prems(2) counting_attempts(1)] by simp
  obtain r1 w2 where one: "send_one d c env x w = (r1, w2)" by fastforce
  have two: "\<exists>ls. logs w2 = logs w @ ls \<and> list_all dispatch_line ls"
    using one run same
    by (auto simp: send_one_def Let_def dispatch_line_def log_at_def histogram_Observe_def counter_Inc_def
        split: gores.splits prod.splits option.splits)
  obtain r3 w3 where rest: "send_all d c env xs w2 = (r3, w3)" by fastforce
  have "\<exists>ls. logs w3 = logs w2 @ ls \<and> list_all dispatch_line ls"
    by (rule Cons.IH [OF rest Cons.prems(2)]) (simp add: Cons.prems(3))
  with two obtain ls ms where "logs w2 = logs w @ ls" "logs w3 = logs w2 @ ms" "list_all dispatch_line ls"
    "list_all dispatch_line (ls @ ms)" by auto
  moreover have "w' = w2 \<or> w' = w3" using Cons.prems(1) one rest by (cases r1; cases r3) auto
  ultimately show ?case by auto
qed simp

section \<open>Properties of dispatch\<close>

text \<open>
  A status is a success exactly for 2xx; among the failures it is permanent, so never
  retried, exactly for 4xx other than 408 and 429.
\<close>

theorem ClassifyStatus_exact:
  "(snd (ClassifyStatus st) \<longleftrightarrow> 200 \<le> st \<and> st < 300) \<and>
   (fst (ClassifyStatus st) = Permanent \<longleftrightarrow>
      400 \<le> st \<and> st < 500 \<and> st \<noteq> 408 \<and> st \<noteq> 429)"
  by (auto simp: ClassifyStatus_def)

text \<open>
  C31. With non-negative backoffs below \<open>2 ^ 62\<close> nanoseconds a dispatch never panics; it
  reports between one and \<open>MaxAttempts\<close> attempts, has issued at most one command per
  reported attempt, and has written nothing to the log itself.
\<close>

theorem Policy_Do_bounded:
  assumes "destination dest" and "1 \<le> MaxAttempts p" and "sane_backoff p" and "counting obs"
  shows "\<exists>n e w'. Policy_Do p c dest env obs w = (Ret (n, e), w') \<and> 1 \<le> n \<and> n \<le> MaxAttempts p \<and>
    int (length (issued w w')) \<le> n \<and> logs w' = logs w"
  by (rule Policy_Do_total [OF assms])

definition ok_dest :: "unit Destination" where
  "ok_dest = \<lparr>dest_Name = ''ltr'', dest_Dispatch = (\<lambda>c env w. (None, w))\<rparr>"

definition busy_dest :: "unit Destination" where
  "busy_dest = \<lparr>dest_Name = ''cep'', dest_Dispatch =
     (\<lambda>c env w. (Some (DispatchError Transient 503 (ErrorString ''busy'')), w))\<rparr>"

definition example_policy :: Policy where
  "example_policy = \<lparr>MaxAttempts = 2, Timeout = second, BackoffInitial = 0, BackoffMax = second\<rparr>"

definition example_world :: "unit world" where
  "example_world = start_world 1000 (\<lambda>_. 0) ()"

lemma example_destinations: "destination ok_dest" "destination busy_dest"
  by (unfold_locales; simp add: ok_dest_def busy_dest_def)+

lemma example_policy_ok: "1 \<le> MaxAttempts example_policy" "sane_backoff example_policy"
  by (simp_all add: example_policy_def sane_backoff_def)

theorem Policy_Do_bounded_witness:
  "\<exists>n e w'. Policy_Do example_policy background busy_dest zero_Envelope None example_world = (Ret (n, e), w') \<and>
     1 \<le> n \<and> n \<le> 2 \<and> int (length (issued example_world w')) \<le> n"
  using Policy_Do_bounded [OF example_destinations(2) example_policy_ok counting_attempts(2),
      of background zero_Envelope example_world]
  by (auto simp: example_policy_def)

text \<open>
  C6. Refinement: under a context that is never done, \<open>Policy.Do\<close> implements the
  specification. It resolves at exactly the attempt the replies determine, returning nil if
  that reply was a success and otherwise an error that wraps that reply's error.
\<close>

theorem Policy_Do_refines_spec:
  assumes "\<And>c' v. fst (dest_Dispatch dest c' env v) = reply (the (attemptKey c'))"
    and "done_at c = None" and "1 \<le> MaxAttempts p" and "sane_backoff p"
  shows "\<exists>n. resolves_at reply (MaxAttempts p) n \<and>
    (case reply n of
       None \<Rightarrow> fst (Policy_Do p c dest env obs w) = Ret (n, None)
     | Some err \<Rightarrow> \<exists>msg. fst (Policy_Do p c dest env obs w) = Ret (n, Some (Wrapf msg err)))"
proof -
  obtain res w' where run: "Policy_Do p c dest env obs w = (res, w')" by fastforce
  have "0 \<le> BackoffInitial p" "BackoffInitial p \<le> backoff_bound p"
    "\<forall>j. 1 \<le> j \<and> j < (1::int) \<longrightarrow> retryable (reply j)"
    using assms(4) by (auto simp: sane_backoff_def backoff_bound_def)
  from Do_from_spec [OF run [unfolded Policy_Do_def] order_refl assms(3,4) this assms(1,2)]
  show ?thesis unfolding run fst_conv .
qed

theorem Policy_Do_refines_spec_witness:
  "\<exists>n msg. resolves_at (\<lambda>_. Some (DispatchError Transient 503 (ErrorString ''busy''))) 2 n \<and>
     fst (Policy_Do example_policy background busy_dest zero_Envelope None example_world) =
       Ret (n, Some (Wrapf msg (DispatchError Transient 503 (ErrorString ''busy''))))"
  using Policy_Do_refines_spec [of busy_dest zero_Envelope
      "\<lambda>_. Some (DispatchError Transient 503 (ErrorString ''busy''))" background example_policy
      None example_world] example_policy_ok
  by (auto simp: busy_dest_def background_def done_at_def opt_min_def example_policy_def)

text \<open>
  If every attempt returns within the per-attempt timeout, a whole dispatch takes at
  most \<open>MaxAttempts\<close> timeouts plus \<open>MaxAttempts - 1\<close> waits of the larger of the two
  backoff settings: no destination can hold an agent longer.
\<close>

theorem Policy_Do_time_bound:
  assumes "\<And>i w r w1. dest_Dispatch dest (attempt_ctx p c i w) env w = (r, w1) \<Longrightarrow>
      clock w1 \<le> clock w + Timeout p"
    and "1 \<le> MaxAttempts p" and "0 \<le> Timeout p" and "sane_backoff p" and "counting obs"
  shows "clock (snd (Policy_Do p c dest env obs w)) \<le>
    clock w + MaxAttempts p * Timeout p + (MaxAttempts p - 1) * max (BackoffInitial p) (BackoffMax p)"
proof -
  obtain res w' where run: "Policy_Do p c dest env obs w = (res, w')" by fastforce
  have "0 \<le> BackoffInitial p" "BackoffInitial p \<le> backoff_bound p"
    using assms(4) by (simp_all add: sane_backoff_def backoff_bound_def)
  from Do_from_time [OF run [unfolded Policy_Do_def] assms(2,4) this assms(5,3,1)] run
  show ?thesis by (simp add: backoff_bound_def)
qed

theorem Policy_Do_time_bound_witness:
  "clock (snd (Policy_Do example_policy background busy_dest zero_Envelope None example_world))
     \<le> 1000 + 2 * second + second"
proof -
  have "dest_Dispatch busy_dest c env w = (r, w1) \<Longrightarrow> clock w1 \<le> clock w + Timeout example_policy"
    for c env w r w1 by (auto simp: busy_dest_def example_policy_def)
  from Policy_Do_time_bound [where c = background and env = zero_Envelope and w = example_world,
      OF this example_policy_ok(1) _ example_policy_ok(2) counting_attempts(2)]
  show ?thesis by (simp add: example_policy_def example_world_def start_world_def)
qed

text \<open>
  A backoff setting that is negative (which configuration accepts) makes the first
  transient failure panic as soon as a second attempt is allowed: the jitter is drawn from
  an empty range.
\<close>

theorem negative_backoff_panics:
  assumes "dest_Dispatch dest (attempt_ctx p c 1 w) env w = (Some err, w1)"
    and "failure_kind err = Transient" and "1 < MaxAttempts p"
    and "BackoffInitial p < 0" and "in64 (BackoffInitial p)"
  shows "fst (Policy_Do p c dest env obs w) = Panic ''invalid argument to Int64N''"
proof -
  have "wrap64 (BackoffInitial p + 1) = BackoffInitial p + 1"
    using assms(4,5) by (intro wrap64_id) (auto simp: in64_def maxInt64_def)
  with assms show ?thesis
    by (simp add: Policy_Do_def Do_from.simps [of p c dest env obs 1] Let_def rand_Int64N_def)
qed

theorem negative_backoff_panics_witness:
  "fst (Policy_Do (example_policy\<lparr>BackoffInitial := - second\<rparr>) background busy_dest zero_Envelope None
     example_world) = Panic ''invalid argument to Int64N''"
  by (rule negative_backoff_panics [of _ _ _ _ _ "DispatchError Transient 503 (ErrorString ''busy'')"])
     (simp_all add: busy_dest_def example_policy_def failure_kind_def in64_def minInt64_def maxInt64_def)

text \<open>
  C4. Sending accounts for every configured destination, in order and whatever the others
  did: each outcome carries the event's id and between one and \<open>MaxAttempts\<close> attempts; the
  new \<open>event dropped\<close> lines of the log are, one for one and in order, error-level records of
  the dropped outcomes with event id, gateway id, stream, time of receipt, destination, attempts,
  reason and duration, at every configured log level; and the drop counters grow by exactly the number of drops.
\<close>

theorem Send_accounts_for_every_destination:
  assumes "Send d c env w = (Ret outs, w')" and "1 \<le> MaxAttempts (policy d)"
    and "\<And>x. x \<in> set (dests d) \<Longrightarrow> destination x"
  shows "map out_Destination outs = map dest_Name (dests d) \<and>
    (\<forall>out \<in> set outs. out_EventID out = EventID env \<and> 1 \<le> out_Attempts out \<and>
       out_Attempts out \<le> MaxAttempts (policy d)) \<and>
    list_all2 (records_drop env) (new_drops w w') (filter dropped outs) \<and>
    (\<forall>x. dropped_total (disp_agentID d) x w' = dropped_total (disp_agentID d) x w +
       length (filter (\<lambda>out. dropped out \<and> out_Destination out = x) outs))"
  using send_all_accounts [OF assms(1) [unfolded Send_def] assms(2,3)] by blast

theorem Send_accounts_witness:
  "let d = NewDispatcher ''a'' [ok_dest, busy_dest] example_policy (NewLogger ''error'') in
   \<exists>outs w'. Send d background zero_Envelope example_world = (Ret outs, w') \<and>
     map out_Destination outs = [''ltr'', ''cep''] \<and>
     list_all2 (records_drop zero_Envelope) (new_drops example_world w') (filter dropped outs)"
proof -
  define d where "d = NewDispatcher ''a'' [ok_dest, busy_dest] example_policy (NewLogger ''error'')"
  have pol: "policy d = example_policy" "dests d = [ok_dest, busy_dest]"
    by (simp_all add: d_def NewDispatcher_def)
  have one: "\<exists>out w'. send_one d background zero_Envelope x w = (Ret out, w')" if "destination x" for x w
    using send_one_total [OF that] example_policy_ok pol(1) by simp
  obtain o1 w1 where 1: "send_one d background zero_Envelope ok_dest example_world = (Ret o1, w1)"
    using one example_destinations by blast
  obtain o2 w2 where 2: "send_one d background zero_Envelope busy_dest w1 = (Ret o2, w2)"
    using one example_destinations by blast
  have run: "Send d background zero_Envelope example_world = (Ret [o1, o2], w2)"
    by (simp add: Send_def pol 1 2)
  have pre: "1 \<le> MaxAttempts (policy d)" "\<And>x. x \<in> set (dests d) \<Longrightarrow> destination x"
    using example_policy_ok(1) example_destinations by (auto simp: pol)
  have names: "map dest_Name (dests d) = [''ltr'', ''cep'']"
    by (simp add: pol ok_dest_def busy_dest_def)
  from Send_accounts_for_every_destination [OF run pre] run names show ?thesis
    unfolding d_def [symmetric] Let_def by metis
qed

end
