(* ===== verification/Stub.thy ===== *)
theory Stub
  imports Dispatch
begin

text \<open>
  The destinations and the support notifier (\<open>internal/dispatch/stub/http.go\<close>,
  \<open>email.go\<close>). The HTTP client, the mail server, the parser of destination URLs and the
  JSON encoder are fields of the record \<open>net\<close>. Both destinations interpret the locale
  \<open>destination\<close>, and both notifier settings the locale \<open>notifier\<close>.
\<close>

text \<open>
  \<open>n_NewRequest\<close> is the error of \<open>http.NewRequestWithContext\<close> for a URL; \<open>n_Do\<close> gives the
  transport error or the status code and the status line.
\<close>

record 'n net =
  n_Marshal :: "Envelope \<Rightarrow> gerror + bytes"
  n_NewRequest :: "string \<Rightarrow> gerror option"
  n_Do :: "http_request \<Rightarrow> ('n, gerror + int \<times> string) external"
  n_SendMail :: "string \<Rightarrow> string \<Rightarrow> string \<Rightarrow> bytes \<Rightarrow> ('n, gerror option) external"

section \<open>The HTTP destination\<close>

record HTTPDestination =
  hd_name :: string
  hd_url :: string
  hd_agent :: string

definition NewHTTP :: "string \<Rightarrow> string \<Rightarrow> string \<Rightarrow> HTTPDestination" where
  "NewHTTP name url agentID = \<lparr>hd_name = name, hd_url = url, hd_agent = agentID\<rparr>"

definition NewLTR :: "string \<Rightarrow> string \<Rightarrow> HTTPDestination" where
  "NewLTR url agentID = NewHTTP ''ltr'' url agentID"

definition NewCEP :: "string \<Rightarrow> string \<Rightarrow> HTTPDestination" where
  "NewCEP url agentID = NewHTTP ''cep'' url agentID"

definition post_request :: "HTTPDestination \<Rightarrow> ctx \<Rightarrow> Envelope \<Rightarrow> bytes \<Rightarrow> http_request" where
  "post_request d c env body =
     \<lparr>r_url = hd_url d,
      r_headers =
        [(''Content-Type'', ''application/json''), (''Idempotency-Key'', EventID env),
         (''X-Conflux-Agent'', hd_agent d)] @
        (case AttemptFrom c of None \<Rightarrow> [] | Some n \<Rightarrow> [(''X-Conflux-Attempt'', strconv_Itoa n)]),
      r_body = body\<rparr>"

definition HTTP_Dispatch ::
  "'n net \<Rightarrow> HTTPDestination \<Rightarrow> ctx \<Rightarrow> Envelope \<Rightarrow> 'n world \<Rightarrow> gerror option \<times> 'n world" where
  "HTTP_Dispatch N d c env w =
     (case n_Marshal N env of
        Inl err \<Rightarrow> (Some (DispatchError Permanent 0 (Wrapf ''marshal envelope'' err)), w)
      | Inr body \<Rightarrow>
          (case n_NewRequest N (hd_url d) of
             Some err \<Rightarrow> (Some (DispatchError Permanent 0 err), w)
           | None \<Rightarrow>
               (let req = post_request d c env body in
                case call (HTTP_POST req) (n_Do N req) c w of
                  (Inl err, w1) \<Rightarrow> (Some (DispatchError Transient 0 err), w1)
                | (Inr (code, status), w1) \<Rightarrow>
                    (let (kind, ok) = ClassifyStatus code in
                     if ok then (None, w1)
                     else (Some (DispatchError kind code
                       (ErrorString (''destination '' @ hd_name d @ '' returned '' @ status))), w1)))))"

definition http_destination :: "'n net \<Rightarrow> HTTPDestination \<Rightarrow> 'n Destination" where
  "http_destination N d = \<lparr>dest_Name = hd_name d, dest_Dispatch = HTTP_Dispatch N d\<rparr>"

definition logOnly :: "string \<Rightarrow> 'n Destination" where
  "logOnly name = \<lparr>dest_Name = name, dest_Dispatch = (\<lambda>c env w. (None, w))\<rparr>"

definition NewSummary :: "'n net \<Rightarrow> string \<Rightarrow> string \<Rightarrow> 'n Destination" where
  "NewSummary N url agentID =
     (if url = [] \<or> url = ''summary'' then logOnly ''summary''
      else http_destination N (NewHTTP ''summary'' url agentID))"

section \<open>The support notifier\<close>

type_synonym 'n Notifier = "string \<Rightarrow> string \<Rightarrow> 'n world \<Rightarrow> gerror option \<times> 'n world"

definition mail_message :: "AnomalyCfg \<Rightarrow> string \<Rightarrow> string \<Rightarrow> bytes" where
  "mail_message cfg subject body =
     (let crlf = [CHR 0x0D, CHR 0x0A] in
      ''From: '' @ SupportFrom cfg @ crlf @ ''To: '' @ SupportTo cfg @ crlf @
      ''Subject: [pulse-conflux] '' @ subject @ crlf @ crlf @ body @ crlf)"

definition Notify :: "'n net \<Rightarrow> AnomalyCfg \<Rightarrow> logger \<Rightarrow> 'n Notifier" where
  "Notify N cfg lg subject body w =
     (if \<not> EmailEnabled cfg then
        (None, log_at lg LWarn ''support notification (email disabled; not sent)''
           [(''component'', AStr ''notify''), (''to'', AStr (SupportTo cfg)),
            (''subject'', AStr subject), (''body'', AStr body)] w)
      else
        (let msg = mail_message cfg subject body in
         case call (SMTP_SEND (SMTPAddr cfg) (SupportFrom cfg) (SupportTo cfg) msg)
                (n_SendMail N (SMTPAddr cfg) (SupportFrom cfg) (SupportTo cfg) msg) background w of
           (Some err, w1) \<Rightarrow> (Some (Wrapf (''smtp send to '' @ SupportTo cfg) err), w1)
         | (None, w1) \<Rightarrow>
             (None, log_at lg LInfo ''support notified''
                [(''component'', AStr ''notify''), (''subject'', AStr subject)] w1)))"

text \<open>What the anomaly detector may rely on: one notification issues at most one command, a
  mail; it neither touches the metrics nor turns back the clock.\<close>

definition mails_only :: "cmd list \<Rightarrow> bool" where
  "mails_only cs \<longleftrightarrow> length cs \<le> 1 \<and> (\<forall>x \<in> set cs. \<exists>a f t m. x = SMTP_SEND a f t m)"

locale notifier =
  fixes notify :: "'n Notifier"
  assumes notify_frame: "notify s b w = (e, w') \<Longrightarrow>
      counters w' = counters w \<and> gauges w' = gauges w \<and> clock w \<le> clock w'"
    and notify_once: "notify s b w = (e, w') \<Longrightarrow> extends w w' \<and> mails_only (issued w w')"

section \<open>Interpretations\<close>

lemma HTTP_Dispatch_frame:
  "HTTP_Dispatch N d c env w = (r, w') \<Longrightarrow> quiet w w' \<and> extends w w' \<and> length (issued w w') \<le> 1"
  by (auto simp: HTTP_Dispatch_def Let_def dest!: call_quiet split: sum.splits option.splits prod.splits if_splits)

text \<open>A destination that issues nothing but posts; both stubs are.\<close>

fun is_post :: "cmd \<Rightarrow> bool" where
  "is_post (HTTP_POST r) = True"
| "is_post _ = False"

locale posting_destination = destination +
  assumes Dispatch_posts: "dest_Dispatch dest c env w = (r, w') \<Longrightarrow> list_all is_post (issued w w')"

lemma HTTP_Dispatch_posts_only: "HTTP_Dispatch N d c env w = (r, w') \<Longrightarrow> list_all is_post (issued w w')"
  by (auto simp: HTTP_Dispatch_def Let_def dest!: call_quiet split: sum.splits option.splits prod.splits if_splits)

interpretation http_dest: posting_destination "http_destination N d" for N :: "'n net" and d
  by unfold_locales (auto simp: http_destination_def dest: HTTP_Dispatch_frame HTTP_Dispatch_posts_only)

interpretation log_only: posting_destination "logOnly name" for name
  by unfold_locales (auto simp: logOnly_def)

context posting_destination
begin

lemma Do_from_posts:
  assumes "Do_from p c dest env obs i b l w = (res, w')" and "i \<le> MaxAttempts p" and "counting obs"
  shows "extends w w' \<and> list_all is_post (issued w w')"
  using assms(1,2)
proof (induction "nat (MaxAttempts p - i)" arbitrary: i b l w rule: less_induct)
  case less
  have obs: "trace (observe obs j s v) = trace v" for j s v
    using assms(3) by (simp add: counting_def)
  have att: "extends w v \<and> list_all is_post (issued w v)"
    if "dest_Dispatch dest (attempt_ctx p c i w) env w = (r, w1)" and v: "trace v = trace w1" for r w1 v
    using Dispatch_once [OF that(1)] Dispatch_posts [OF that(1)] v by (auto simp: extends_def issued_def)
  from less.prems show ?case
  proof (cases rule: Do_from_cases)
    case (Delivered w1)
    then show ?thesis using att [OF Delivered(1)] by (simp add: obs)
  next
    case (Permanent w1 err)
    then show ?thesis using att [OF Permanent(1)] by (simp add: obs)
  next
    case (Budget w1 err)
    then show ?thesis using att [OF Budget(1)] by (simp add: obs)
  next
    case (Panicked w1 err m)
    then show ?thesis using att [OF Panicked(1)] rand_frame(5) [OF Panicked(4)] by (simp add: obs)
  next
    case (Cancelled w1 err wait w3 e)
    then show ?thesis
      using att [OF Cancelled(1)] rand_frame(5) [OF Cancelled(4)] select_frame(5) [OF Cancelled(5)] by (simp add: obs)
  next
    case (Retry w1 err wait w3 w4)
    have one: "extends w w4 \<and> list_all is_post (issued w w4)"
      using att [OF Retry(1), of w4] rand_frame(5) [OF Retry(4)] select_frame(5) [OF Retry(5)] by (simp add: obs)
    have "extends w4 w' \<and> list_all is_post (issued w4 w')"
      using less.hyps [OF _ Retry(6)] Retry(3) by simp
    with one extends_trans [of w w4 w'] show ?thesis by auto
  qed
qed

lemma send_one_posts:
  assumes "send_one d c env dest w = (r, w')" and "1 \<le> MaxAttempts (policy d)"
  shows "extends w w' \<and> list_all is_post (issued w w')"
proof -
  obtain res w1 where run: "Policy_Do (policy d) c dest env (attempts_observer d dest) w = (res, w1)" by fastforce
  note p = Do_from_posts [OF run [unfolded Policy_Do_def] assms(2) counting_attempts(1)]
  have "trace w' = trace w1"
    using assms(1) run by (auto simp: send_one_def Let_def split: gores.splits prod.splits option.splits)
  with p show ?thesis by (auto simp: extends_def issued_def)
qed

end

lemma send_all_posts:
  assumes "send_all d c env xs w = (r, w')" and "1 \<le> MaxAttempts (policy d)"
    and "list_all posting_destination xs"
  shows "extends w w' \<and> list_all is_post (issued w w')"
  using assms
proof (induction xs arbitrary: w r w')
  case (Cons x xs)
  obtain r1 w1 where one: "send_one d c env x w = (r1, w1)" by fastforce
  have x: "posting_destination x" using Cons.prems(3) by simp
  note s = posting_destination.send_one_posts [OF x one Cons.prems(2)]
  show ?case
  proof (cases r1)
    case (Panic m)
    with one Cons.prems(1) s show ?thesis by simp
  next
    case (Ret out)
    obtain r2 w2 where rest: "send_all d c env xs w1 = (r2, w2)" by fastforce
    have "w' = w2" using Cons.prems(1) one Ret rest by (auto split: gores.splits)
    with s Cons.IH [OF rest Cons.prems(2)] Cons.prems(3) extends_trans [of w w1 w2] show ?thesis by auto
  qed
qed simp

lemma NewSummary_destination: "destination (NewSummary N url agentID)"
  by (simp add: NewSummary_def http_dest.destination_axioms log_only.destination_axioms)

lemma Notify_disabled:
  "\<not> EmailEnabled cfg \<Longrightarrow> Notify N cfg lg s b w = (e, w') \<Longrightarrow> e = None \<and> trace w' = trace w \<and>
     counters w' = counters w \<and> gauges w' = gauges w \<and> clock w' = clock w"
  by (auto simp: Notify_def)

lemma Notify_enabled:
  assumes "EmailEnabled cfg" and "Notify N cfg lg s b w = (e, w')"
  shows "trace w' = trace w @ [SMTP_SEND (SMTPAddr cfg) (SupportFrom cfg) (SupportTo cfg) (mail_message cfg s b)] \<and>
    counters w' = counters w \<and> gauges w' = gauges w \<and> clock w \<le> clock w'"
  using assms by (auto simp: Notify_def Let_def split: prod.splits option.splits dest: call_frame)

interpretation email: notifier "Notify N cfg lg" for N :: "'n net" and cfg lg
proof
  fix s b and w w' :: "'n world" and e
  assume run: "Notify N cfg lg s b w = (e, w')"
  show "counters w' = counters w \<and> gauges w' = gauges w \<and> clock w \<le> clock w'"
    using Notify_disabled [OF _ run] Notify_enabled [OF _ run] by (cases "EmailEnabled cfg") auto
  show "extends w w' \<and> mails_only (issued w w')"
  proof (cases "EmailEnabled cfg")
    case True
    with Notify_enabled [OF _ run] show ?thesis using extendsI [of w' w] by (fastforce simp: mails_only_def)
  next
    case False
    with Notify_disabled [OF _ run] show ?thesis using same_trace [of w' w] by (auto simp: mails_only_def)
  qed
qed

section \<open>On the wire\<close>

text \<open>The request of one attempt.\<close>

definition attempt_request :: "HTTPDestination \<Rightarrow> Envelope \<Rightarrow> bytes \<Rightarrow> int \<Rightarrow> http_request" where
  "attempt_request d env body i = post_request d (background\<lparr>attemptKey := Some i\<rparr>) env body"

lemma post_request_attempt: "post_request d (attempt_ctx p c i w) env body = attempt_request d env body i"
  by (simp add: attempt_request_def post_request_def AttemptFrom_def attempt_ctx_def with_timeout_def)

lemma HTTP_Dispatch_posts:
  assumes "n_Marshal N env = Inr body" and "n_NewRequest N (hd_url d) = None"
    and "HTTP_Dispatch N d (attempt_ctx p c i w) env w = (r, w1)"
  shows "trace w1 = trace w @ [HTTP_POST (attempt_request d env body i)]"
  using assms(3)
  by (auto simp: HTTP_Dispatch_def assms(1,2) Let_def post_request_attempt dest: call_frame(7)
      split: prod.splits sum.splits if_splits)

lemma Do_from_wire:
  assumes "n_Marshal N env = Inr body" and "n_NewRequest N (hd_url d) = None" and "counting obs"
    and "Do_from p c (http_destination N d) env obs i b l w = (Ret (n, e), w')" and "i \<le> MaxAttempts p"
  shows "trace w' = trace w @ map (\<lambda>k. HTTP_POST (attempt_request d env body k)) [i..n] \<and> i \<le> n"
  using assms(4,5)
proof (induction "nat (MaxAttempts p - i)" arbitrary: i b l w rule: less_induct)
  case less
  let ?post = "\<lambda>k. HTTP_POST (attempt_request d env body k)"
  have obs: "trace (observe obs j s v) = trace v" for j s v
    using assms(3) by (simp add: counting_def)
  have post: "trace w1 = trace w @ [?post i]"
    if "dest_Dispatch (http_destination N d) (attempt_ctx p c i w) env w = (r, w1)" for r w1
    using HTTP_Dispatch_posts [OF assms(1,2)] that by (simp add: http_destination_def)
  from less.prems show ?case
  proof (cases rule: Do_from_cases)
    case (Delivered w1)
    with post [OF Delivered(1)] show ?thesis by (simp add: obs)
  next
    case (Permanent w1 err)
    with post [OF Permanent(1)] show ?thesis by (simp add: obs)
  next
    case (Budget w1 err)
    with post [OF Budget(1)] show ?thesis by (simp add: obs)
  next
    case (Cancelled w1 err wait w3 e')
    with post [OF Cancelled(1)] rand_frame(5) [OF Cancelled(4)] select_frame(5) [OF Cancelled(5)]
    show ?thesis by (simp add: obs)
  next
    case (Retry w1 err wait w3 w4)
    have "trace w4 = trace w @ [?post i]"
      using post [OF Retry(1)] rand_frame(5) [OF Retry(4)] select_frame(5) [OF Retry(5)] by (simp add: obs)
    moreover have "trace w' = trace w4 @ map ?post [i + 1..n] \<and> i + 1 \<le> n"
      using less.hyps [OF _ Retry(6)] Retry(3) by simp
    ultimately show ?thesis by (simp add: upto_rec1 [of i n])
  qed simp
qed

text \<open>An envelope that does not encode, or a URL that does not parse, is refused before there is a request, for good.\<close>

lemma refused_attempt:
  assumes "\<not> ((\<exists>body. n_Marshal N env = Inr body) \<and> n_NewRequest N (hd_url d) = None)" and "1 \<le> MaxAttempts p" and "counting obs"
    and "Policy_Do p c (http_destination N d) env obs w = (Ret (n, e), w')"
  shows "n = 1 \<and> e \<noteq> None \<and> trace w' = trace w"
proof -
  have "\<exists>err. dest_Dispatch (http_destination N d) (attempt_ctx p c 1 w) env w = (Some (DispatchError Permanent 0 err), w)"
    using assms(1) by (cases "n_Marshal N env"; cases "n_NewRequest N (hd_url d)") (simp_all add: http_destination_def HTTP_Dispatch_def)
  then obtain err where "dest_Dispatch (http_destination N d) (attempt_ctx p c 1 w) env w = (Some (DispatchError Permanent 0 err), w)"
    by blast
  moreover have "failure_kind (DispatchError Permanent 0 err) = Permanent" by (simp add: failure_kind_def)
  ultimately have "Policy_Do p c (http_destination N d) env obs w =
      (Ret (1, Some (Wrapf (''permanent failure on attempt '' @ strconv_Itoa 1) (DispatchError Permanent 0 err))),
       observe obs 1 ''permanent'' w)"
    unfolding Policy_Do_def using assms(2) by (subst Do_from.simps) (simp add: Let_def)
  with assms(3,4) show ?thesis by (auto simp: counting_def)
qed

section \<open>Properties of the destinations\<close>

text \<open>
  C16. On the wire, a dispatch of an envelope that encodes, to a URL that parses, that reports \<open>n\<close> attempts is exactly \<open>n\<close> POSTs
  of one and the same body to that URL, numbered 1 to \<open>n\<close> in \<open>X-Conflux-Attempt\<close>, each with the event id as its \<open>Idempotency-Key\<close>:
  the destination can tell a repeat from a new event, and the client is handed no request beyond the attempts that are accounted
  for. If the envelope does not encode or the URL does not parse, the dispatch fails for good after one attempt, without any
  request.
\<close>

theorem Policy_Do_on_the_wire:
  assumes "Policy_Do p c (http_destination N d) env obs w = (Ret (n, e), w')" and "1 \<le> MaxAttempts p" and "counting obs"
  shows "case (n_Marshal N env, n_NewRequest N (hd_url d)) of
      (Inr body, None) \<Rightarrow> 1 \<le> n \<and> issued w w' = map (\<lambda>i. HTTP_POST
        \<lparr>r_url = hd_url d,
         r_headers = [(''Content-Type'', ''application/json''), (''Idempotency-Key'', EventID env),
           (''X-Conflux-Agent'', hd_agent d), (''X-Conflux-Attempt'', strconv_Itoa i)],
         r_body = body\<rparr>) [1..n]
    | _ \<Rightarrow> n = 1 \<and> e \<noteq> None \<and> issued w w' = []"
proof (cases "(\<exists>body. n_Marshal N env = Inr body) \<and> n_NewRequest N (hd_url d) = None")
  case True
  then obtain body where ok: "n_Marshal N env = Inr body" "n_NewRequest N (hd_url d) = None" by blast
  from Do_from_wire [OF this assms(3) assms(1) [unfolded Policy_Do_def] assms(2)]
  have "issued w w' = map (\<lambda>k. HTTP_POST (attempt_request d env body k)) [1..n]" "1 \<le> n" using extendsI by blast+
  with ok show ?thesis by (simp add: attempt_request_def post_request_def AttemptFrom_def)
next
  case False
  from refused_attempt [OF this assms(2,3,1)] same_trace [of w' w] False show ?thesis
    by (auto split: sum.split option.split)
qed

definition example_net :: "unit net" where
  "example_net =
     \<lparr>n_Marshal = (\<lambda>env. Inr (''body of '' @ EventID env)), n_NewRequest = (\<lambda>_. None),
      n_Do = (\<lambda>_. still (Inr (503, ''503 Service Unavailable''))), n_SendMail = (\<lambda>_ _ _ _. still None)\<rparr>"

theorem Policy_Do_on_the_wire_witness:
  "\<exists>n e w'. Policy_Do example_policy background (http_destination example_net (NewLTR ''http://ltr'' ''a''))
       zero_Envelope None example_world = (Ret (n, e), w') \<and>
     int (length (issued example_world w')) = n"
proof -
  obtain n e w' where run: "Policy_Do example_policy background
      (http_destination example_net (NewLTR ''http://ltr'' ''a'')) zero_Envelope None example_world =
      (Ret (n, e), w')" and "1 \<le> n"
    using Policy_Do_total [OF http_dest.destination_axioms example_policy_ok counting_attempts(2)]
    by metis
  have "n_Marshal example_net zero_Envelope = Inr (''body of '' @ EventID zero_Envelope)"
    "n_NewRequest example_net (hd_url (NewLTR ''http://ltr'' ''a'')) = None"
    by (simp_all add: example_net_def)
  with Policy_Do_on_the_wire [OF run example_policy_ok(1) counting_attempts(2)]
  have "int (length (issued example_world w')) = n" using \<open>1 \<le> n\<close> by simp
  with run show ?thesis by blast
qed

text \<open>
  What one HTTP dispatch reports, on every branch: success exactly for a 2xx reply; a
  permanent error, without any request, when the envelope does not encode or the URL does not
  parse; a transient error when the request got no reply; otherwise an error that carries the
  status and is permanent exactly for 4xx other than 408 and 429.
\<close>

theorem HTTP_Dispatch_result:
  "case n_Marshal N env of
     Inl _ \<Rightarrow> (\<exists>err. HTTP_Dispatch N d c env w = (Some (DispatchError Permanent 0 err), w))
   | Inr body \<Rightarrow>
       (case n_NewRequest N (hd_url d) of
          Some err \<Rightarrow> HTTP_Dispatch N d c env w = (Some (DispatchError Permanent 0 err), w)
        | None \<Rightarrow>
            (case fst (n_Do N (post_request d c env body) c (clock w) (outside w)) of
               Inl err \<Rightarrow> fst (HTTP_Dispatch N d c env w) = Some (DispatchError Transient 0 err)
             | Inr (code, status) \<Rightarrow>
                 (fst (HTTP_Dispatch N d c env w) = None) = (200 \<le> code \<and> code < 300) \<and>
                 (fst (HTTP_Dispatch N d c env w) = None \<or>
                  (\<exists>msg. fst (HTTP_Dispatch N d c env w) =
                     Some (DispatchError
                       (if 400 \<le> code \<and> code < 500 \<and> code \<noteq> 408 \<and> code \<noteq> 429 then Permanent else Transient)
                       code msg)))))"
  by (auto simp: HTTP_Dispatch_def Let_def call_def ClassifyStatus_def split: sum.split option.split prod.split)

end
