(* ===== verification/Ingest.thy ===== *)
theory Ingest
  imports Envelope
begin

text \<open>
  The ingestion boundary (\<open>internal/ingest/source.go\<close>): deliveries with their
  acknowledgement still attached, lag readings, and the \<open>Source\<close> interface as a record of
  its methods. The locale \<open>source\<close> states what agents may rely on; \<open>RedisSource\<close>
  interprets it for both Redis primitives.
\<close>

section \<open>Deliveries\<close>

abbreviation KindStream :: string where "KindStream \<equiv> ''stream''"
abbreviation KindList :: string where "KindList \<equiv> ''list''"

record SourceRef =
  ref_Name :: string
  ref_Kind :: string

type_synonym 'n acker = "ctx \<Rightarrow> 'n world \<Rightarrow> gerror option \<times> 'n world"

text \<open>\<open>None\<close> for an acknowledgement is a nil function; \<open>None\<close> for \<open>Raw\<close> is a nil slice.\<close>

record 'n Delivery =
  d_Envelope :: Envelope
  d_Source :: SourceRef
  d_Position :: string
  d_Raw :: "bytes option"
  d_Unprocessable :: "gerror option"
  d_ack :: "'n acker option"
  d_nack :: "'n acker option"

definition NewDelivery ::
  "Envelope \<Rightarrow> SourceRef \<Rightarrow> string \<Rightarrow> bytes option \<Rightarrow> gerror option \<Rightarrow> 'n acker option \<Rightarrow> 'n acker option \<Rightarrow>
   'n Delivery" where
  "NewDelivery env src pos raw unproc ack nack =
     \<lparr>d_Envelope = env, d_Source = src, d_Position = pos, d_Raw = raw,
      d_Unprocessable = unproc, d_ack = ack, d_nack = nack\<rparr>"

definition Ack :: "'n Delivery \<Rightarrow> 'n acker" where
  "Ack d c w = (case d_ack d of None \<Rightarrow> (None, w) | Some f \<Rightarrow> f c w)"

definition Nack :: "'n Delivery \<Rightarrow> 'n acker" where
  "Nack d c w = (case d_nack d of None \<Rightarrow> (None, w) | Some f \<Rightarrow> f c w)"

record LagReading =
  lag_Entries :: int
  lag_Approximate :: bool

section \<open>Sources\<close>

record 'n Source =
  src_Ref :: SourceRef
  src_Read :: "ctx \<Rightarrow> 'n world \<Rightarrow> (gerror + 'n Delivery list) \<times> 'n world"
  src_Lag :: "ctx \<Rightarrow> 'n world \<Rightarrow> (gerror + LagReading) \<times> 'n world"

text \<open>A delivery is classified: a parsed envelope is well formed, and one that could not be
  parsed carries an unprocessable error and no envelope.\<close>

definition classified :: "'n Delivery \<Rightarrow> bool" where
  "classified d \<longleftrightarrow>
     (case d_Unprocessable d of
        None \<Rightarrow> well_formed (d_Envelope d) \<and> d_Raw d \<noteq> None
      | Some err \<Rightarrow> d_Envelope d = zero_Envelope \<and> errors_Is err ErrUnprocessable)"

text \<open>
  The contract of a source: every delivery it reads is classified and names the source; a
  read issues one command and writes neither log nor metrics; acknowledging a delivery
  issues exactly the commands \<open>ack_cmds\<close> assigns to it.
\<close>

locale source =
  fixes src :: "'n Source" and ack_cmds :: "'n Delivery \<Rightarrow> cmd list"
  assumes Read_classified: "src_Read src c w = (Inr ds, w') \<Longrightarrow> d \<in> set ds \<Longrightarrow>
      classified d \<and> d_Source d = src_Ref src"
    and Read_quiet: "src_Read src c w = (r, w') \<Longrightarrow>
      quiet w w' \<and> extends w w' \<and> length (issued w w') = 1"
    and Ack_quiet: "src_Read src c w = (Inr ds, w') \<Longrightarrow> d \<in> set ds \<Longrightarrow> Ack d c2 v = (e, v') \<Longrightarrow>
      quiet v v' \<and> extends v v' \<and> issued v v' = ack_cmds d"
    and Lag_quiet: "src_Lag src c w = (l, w') \<Longrightarrow> quiet w w' \<and> extends w w'"

end
