(* ===== verification/RedisSource.thy ===== *)
theory RedisSource
  imports Ingest StdParse
begin

text \<open>
  The Redis implementation of the ingestion boundary (\<open>internal/ingest/redis/client.go\<close>,
  \<open>stream.go\<close>, \<open>list.go\<close>, \<open>pending.go\<close>). The client library and the server behind it are
  the parameter \<open>rdb\<close>: one external call per command, with the reply types of the library.
\<close>

section \<open>Replies of the client library\<close>

datatype field_value = FString string | FBytes bytes | FOther string \<comment> \<open>printed form\<close>

record XMessage =
  m_ID :: string
  m_Values :: "string \<rightharpoonup> field_value"

record XInfoGroup =
  g_Name :: string
  g_LastDeliveredID :: string
  g_EntriesRead :: int
  g_Lag :: int

record XInfoStream =
  i_Length :: int
  i_Groups :: int
  i_FirstEntryID :: string

record XInfoConsumer =
  con_Name :: string
  con_Pending :: int
  con_Idle :: duration

record PendingStats =
  p_Count :: int
  p_Consumers :: "string \<rightharpoonup> int"

record 'n rdb =
  x_XGroupCreateMkStream :: "string \<Rightarrow> string \<Rightarrow> string \<Rightarrow> ('n, gerror option) external"
  x_XReadGroup :: "string \<Rightarrow> string \<Rightarrow> string \<Rightarrow> string \<Rightarrow> int \<Rightarrow> duration \<Rightarrow>
    ('n, gerror + (string \<times> XMessage list) list) external"
  x_XAck :: "string \<Rightarrow> string \<Rightarrow> string \<Rightarrow> ('n, gerror option) external"
  x_XInfoGroups :: "string \<Rightarrow> ('n, gerror + XInfoGroup list) external"
  x_XInfoStream :: "string \<Rightarrow> ('n, gerror + XInfoStream) external"
  x_XInfoConsumers :: "string \<Rightarrow> string \<Rightarrow> ('n, gerror + XInfoConsumer list) external"
  x_XLen :: "string \<Rightarrow> ('n, gerror + int) external"
  x_XPending :: "string \<Rightarrow> string \<Rightarrow> ('n, gerror + PendingStats) external"
  x_XAutoClaim :: "string \<Rightarrow> string \<Rightarrow> string \<Rightarrow> duration \<Rightarrow> string \<Rightarrow> int \<Rightarrow>
    ('n, gerror + XMessage list \<times> string) external"
  x_XGroupDelConsumer :: "string \<Rightarrow> string \<Rightarrow> string \<Rightarrow> ('n, gerror option) external"
  x_BLPop :: "string \<Rightarrow> duration \<Rightarrow> ('n, gerror + string list) external"
  x_LLen :: "string \<Rightarrow> ('n, gerror + int) external"
  x_Ping :: "('n, gerror option) external"

section \<open>client.go\<close>

text \<open>Dialling is a ping under a five-second deadline.\<close>

definition NewClient :: "'n rdb \<Rightarrow> string \<Rightarrow> int \<Rightarrow> logger \<Rightarrow> ctx \<Rightarrow> 'n world \<Rightarrow> gerror option \<times> 'n world" where
  "NewClient R addr db lg c w =
     (case call PING (x_Ping R) (with_timeout c (clock w) (5 * second)) w of
        (Some e, w1) \<Rightarrow>
          (Some (Wrapf (''redis: connect '' @ addr @ '' db '' @ strconv_Itoa db) e), w1)
      | (None, w1) \<Rightarrow>
          (None, log_at lg LInfo ''redis connected''
             [(''component'', AStr ''redis''), (''addr'', AStr addr), (''db'', AInt db)] w1))"

definition Client_Ping :: "'n rdb \<Rightarrow> ctx \<Rightarrow> 'n world \<Rightarrow> gerror option \<times> 'n world" where
  "Client_Ping R c w = call PING (x_Ping R) c w"

section \<open>stream.go\<close>

abbreviation dataField :: string where "dataField \<equiv> ''data''"

record StreamSource =
  ss_ref :: SourceRef
  ss_group :: string
  ss_consumer :: string
  ss_count :: int
  ss_block :: duration

definition NewStreamSource ::
  "'n rdb \<Rightarrow> ctx \<Rightarrow> SourceRef \<Rightarrow> string \<Rightarrow> string \<Rightarrow> int \<Rightarrow> duration \<Rightarrow> logger \<Rightarrow> 'n world \<Rightarrow>
   (gerror + StreamSource) \<times> 'n world" where
  "NewStreamSource R c ref grp consumer count block lg w =
     (case call (XGROUP_CREATE (ref_Name ref) grp ''$'')
             (x_XGroupCreateMkStream R (ref_Name ref) grp ''$'') c w of
        (err, w1) \<Rightarrow>
          (if (case err of None \<Rightarrow> False | Some e \<Rightarrow> \<not> strings_Contains (error_Error e) ''BUSYGROUP'')
           then (Inl (Wrapf (''redis: create group '' @ strconv_Quote grp @ '' on '' @
                        strconv_Quote (ref_Name ref)) (the err)), w1)
           else (Inr \<lparr>ss_ref = ref, ss_group = grp, ss_consumer = consumer,
                      ss_count = count, ss_block = block\<rparr>,
                 log_at lg LInfo ''consumer group ready''
                   [(''component'', AStr ''redis''), (''source'', AStr (ref_Name ref)),
                    (''group'', AStr grp), (''consumer'', AStr consumer)] w1)))"

definition rawData :: "XMessage \<Rightarrow> bytes option" where
  "rawData msg =
     (case m_Values msg dataField of
        None \<Rightarrow> None
      | Some (FString t) \<Rightarrow> Some t
      | Some (FBytes t) \<Rightarrow> Some t
      | Some (FOther t) \<Rightarrow> Some t)"

definition no_data_error :: gerror where
  "no_data_error =
     Suffixf ErrUnprocessable (''entry has no '' @ strconv_Quote dataField @ '' field'')"

definition xack :: "'n rdb \<Rightarrow> string \<Rightarrow> string \<Rightarrow> string \<Rightarrow> 'n acker" where
  "xack R stream grp ident c w = call (XACK stream grp ident) (x_XAck R stream grp ident) c w"

definition toDelivery :: "json_decoder \<Rightarrow> 'n rdb \<Rightarrow> StreamSource \<Rightarrow> XMessage \<Rightarrow> 'n Delivery" where
  "toDelivery u R s msg =
     (let ident = m_ID msg;
          ack = Some (xack R (ref_Name (ss_ref s)) (ss_group s) ident);
          nack = Some (\<lambda>c w. (None, w))
      in case rawData msg of
           None \<Rightarrow> NewDelivery zero_Envelope (ss_ref s) ident None (Some no_data_error) ack nack
         | Some raw \<Rightarrow>
             (case Parse u raw of
                (env, Some err) \<Rightarrow> NewDelivery zero_Envelope (ss_ref s) ident (Some raw) (Some err) ack nack
              | (env, None) \<Rightarrow> NewDelivery env (ss_ref s) ident (Some raw) None ack nack))"

text \<open>\<open>Read\<close> names the id \<open>>\<close>: entries that were never delivered to any consumer of the group.\<close>

definition StreamSource_Read ::
  "json_decoder \<Rightarrow> 'n rdb \<Rightarrow> StreamSource \<Rightarrow> ctx \<Rightarrow> 'n world \<Rightarrow> (gerror + 'n Delivery list) \<times> 'n world" where
  "StreamSource_Read u R s c w =
     (let name = ref_Name (ss_ref s) in
      case call (XREADGROUP name ''>'' (ss_group s) (ss_consumer s) (ss_count s) (ss_block s))
             (x_XReadGroup R name ''>'' (ss_group s) (ss_consumer s) (ss_count s) (ss_block s)) c w of
        (Inl err, w1) \<Rightarrow>
          (if errors_Is err RedisNil then (Inr [], w1)
           else case ctx_Err c w1 of
             Some e \<Rightarrow> (Inl e, w1)
           | None \<Rightarrow> (Inl (Wrapf (''redis: XREADGROUP '' @ strconv_Quote name) err), w1))
      | (Inr res, w1) \<Rightarrow> (Inr (concat (map (\<lambda>(_, msgs). map (toDelivery u R s) msgs) res)), w1))"

definition splitID :: "string \<Rightarrow> int \<times> int" where
  "splitID ident =
     (case strings_Cut CHR ''-'' ident of
        (msPart, seqPart, found) \<Rightarrow>
          (fst (ParseInt msPart), if found then fst (ParseInt seqPart) else 0))"

definition compareIDs :: "string \<Rightarrow> string \<Rightarrow> int" where
  "compareIDs a b =
     (case splitID a of (ams, aseq) \<Rightarrow>
        case splitID b of (bms, bseq) \<Rightarrow>
          if ams \<noteq> bms then (if ams < bms then - 1 else 1)
          else if aseq \<noteq> bseq then (if aseq < bseq then - 1 else 1)
          else 0)"

definition trimmedPastGroup ::
  "'n rdb \<Rightarrow> StreamSource \<Rightarrow> string \<Rightarrow> ctx \<Rightarrow> 'n world \<Rightarrow> (gerror + bool) \<times> 'n world" where
  "trimmedPastGroup R s lastDelivered c w =
     (let name = ref_Name (ss_ref s) in
      case call (XINFO_STREAM name) (x_XInfoStream R name) c w of
        (Inl err, w1) \<Rightarrow> (Inl (Wrapf (''redis: XINFO STREAM '' @ strconv_Quote name) err), w1)
      | (Inr info, w1) \<Rightarrow>
          (if i_Length info = 0 \<or> i_FirstEntryID info = [] then (Inr False, w1)
           else (Inr (compareIDs lastDelivered (i_FirstEntryID info) < 0), w1)))"

text \<open>The body of the loop of \<open>Lag\<close> for the grp that matches.\<close>

definition group_lag ::
  "'n rdb \<Rightarrow> StreamSource \<Rightarrow> XInfoGroup \<Rightarrow> ctx \<Rightarrow> 'n world \<Rightarrow> (gerror + LagReading) \<times> 'n world" where
  "group_lag R s g c w =
     (case trimmedPastGroup R s (g_LastDeliveredID g) c w of
        (Inl e, w1) \<Rightarrow> (Inl e, w1)
      | (Inr trimmedPast, w1) \<Rightarrow>
          (if g_Lag g = 0 \<and> g_EntriesRead g = 0 \<and> g_LastDeliveredID g \<noteq> ''0-0''
           then (let name = ref_Name (ss_ref s) in
                 case call (XLEN name) (x_XLen R name) c w1 of
                   (Inl e, w2) \<Rightarrow> (Inl (Wrapf (''redis: XLEN '' @ strconv_Quote name) e), w2)
                 | (Inr len, w2) \<Rightarrow> (Inr \<lparr>lag_Entries = len, lag_Approximate = True\<rparr>, w2))
           else (Inr \<lparr>lag_Entries = g_Lag g, lag_Approximate = trimmedPast\<rparr>, w1)))"

definition StreamSource_Lag ::
  "'n rdb \<Rightarrow> StreamSource \<Rightarrow> ctx \<Rightarrow> 'n world \<Rightarrow> (gerror + LagReading) \<times> 'n world" where
  "StreamSource_Lag R s c w =
     (let name = ref_Name (ss_ref s) in
      case call (XINFO_GROUPS name) (x_XInfoGroups R name) c w of
        (Inl err, w1) \<Rightarrow> (Inl (Wrapf (''redis: XINFO GROUPS '' @ strconv_Quote name) err), w1)
      | (Inr groups, w1) \<Rightarrow>
          (case find (\<lambda>g. g_Name g = ss_group s) groups of
             Some g \<Rightarrow> group_lag R s g c w1
           | None \<Rightarrow> (Inl (ErrorString (''redis: group '' @ strconv_Quote (ss_group s) @
                        '' not found on '' @ strconv_Quote name)), w1)))"

definition stream_source :: "json_decoder \<Rightarrow> 'n rdb \<Rightarrow> StreamSource \<Rightarrow> 'n Source" where
  "stream_source u R s =
     \<lparr>src_Ref = ss_ref s, src_Read = StreamSource_Read u R s, src_Lag = StreamSource_Lag R s\<rparr>"

definition GroupName :: "string \<Rightarrow> string \<Rightarrow> string" where
  "GroupName base agentID = base @ '':'' @ agentID"

definition ConsumerName :: "string \<Rightarrow> string \<Rightarrow> string \<Rightarrow> string" where
  "ConsumerName base agentID instanceID = base @ '':'' @ agentID @ '':'' @ instanceID"

section \<open>list.go\<close>

record ListSource =
  ls_ref :: SourceRef
  ls_block :: duration
  ls_log :: logger

definition ListSource_Read ::
  "json_decoder \<Rightarrow> 'n rdb \<Rightarrow> ListSource \<Rightarrow> ctx \<Rightarrow> 'n world \<Rightarrow> (gerror + 'n Delivery list) \<times> 'n world" where
  "ListSource_Read u R s c w =
     (let name = ref_Name (ls_ref s) in
      case call (BLPOP name (ls_block s)) (x_BLPop R name (ls_block s)) c w of
        (Inl err, w1) \<Rightarrow>
          (if errors_Is err RedisNil then (Inr [], w1)
           else case ctx_Err c w1 of
             Some e \<Rightarrow> (Inl e, w1)
           | None \<Rightarrow> (Inl (Wrapf (''redis: BLPOP '' @ strconv_Quote name) err), w1))
      | (Inr res, w1) \<Rightarrow>
          (if length res < 2 then (Inr [], w1)
           else let raw = res ! 1;
                    ack = Some (\<lambda>c w. (None, w));
                    nack = Some (\<lambda>c w. (None, log_at (ls_log s) LError ''list entry lost''
                       [(''component'', AStr ''redis''), (''source'', AStr name), (''raw'', AStr raw)] w))
                in case Parse u raw of
                     (env, Some perr) \<Rightarrow>
                       (Inr [NewDelivery zero_Envelope (ls_ref s) [] (Some raw) (Some perr) ack nack], w1)
                   | (env, None) \<Rightarrow>
                       (Inr [NewDelivery env (ls_ref s) [] (Some raw) None ack nack], w1)))"

definition ListSource_Lag ::
  "'n rdb \<Rightarrow> ListSource \<Rightarrow> ctx \<Rightarrow> 'n world \<Rightarrow> (gerror + LagReading) \<times> 'n world" where
  "ListSource_Lag R s c w =
     (let name = ref_Name (ls_ref s) in
      case call (LLEN name) (x_LLen R name) c w of
        (Inl e, w1) \<Rightarrow> (Inl (Wrapf (''redis: LLEN '' @ strconv_Quote name) e), w1)
      | (Inr n, w1) \<Rightarrow> (Inr \<lparr>lag_Entries = n, lag_Approximate = False\<rparr>, w1))"

definition ListSource_Depth :: "'n rdb \<Rightarrow> ListSource \<Rightarrow> ctx \<Rightarrow> 'n world \<Rightarrow> (gerror + int) \<times> 'n world" where
  "ListSource_Depth R s c w = call (LLEN (ref_Name (ls_ref s))) (x_LLen R (ref_Name (ls_ref s))) c w"

definition list_source :: "json_decoder \<Rightarrow> 'n rdb \<Rightarrow> ListSource \<Rightarrow> 'n Source" where
  "list_source u R s =
     \<lparr>src_Ref = ls_ref s, src_Read = ListSource_Read u R s, src_Lag = ListSource_Lag R s\<rparr>"

section \<open>pending.go\<close>

definition Client_Pending ::
  "'n rdb \<Rightarrow> string \<Rightarrow> string \<Rightarrow> ctx \<Rightarrow> 'n world \<Rightarrow> (gerror + PendingStats) \<times> 'n world" where
  "Client_Pending R stream grp c w =
     (case call (XPENDING stream grp) (x_XPending R stream grp) c w of
        (Inl e, w1) \<Rightarrow>
          (Inl (Wrapf (''redis: XPENDING '' @ strconv_Quote stream @ '' '' @ strconv_Quote grp) e), w1)
      | (Inr st, w1) \<Rightarrow> (Inr st, w1))"

definition reclaimed_delivery ::
  "json_decoder \<Rightarrow> 'n rdb \<Rightarrow> SourceRef \<Rightarrow> string \<Rightarrow> XMessage \<Rightarrow> 'n Delivery" where
  "reclaimed_delivery u R ref grp msg =
     (let ident = m_ID msg;
          ack = Some (xack R (ref_Name ref) grp ident);
          nack = Some (\<lambda>c w. (None, w))
      in case rawData msg of
           None \<Rightarrow> NewDelivery zero_Envelope ref ident None (Some no_data_error) ack nack
         | Some raw \<Rightarrow>
             (case Parse u raw of
                (env, perr) \<Rightarrow> NewDelivery env ref ident (Some raw) perr ack nack))"

text \<open>
  The paging loop of \<open>Reclaim\<close> from a cursor on: the deliveries gathered and the error.
  The cursor is the server's, so the loop is bounded by fuel; \<open>None\<close> means it ran out.
\<close>

fun Reclaim_from ::
  "nat \<Rightarrow> json_decoder \<Rightarrow> 'n rdb \<Rightarrow> SourceRef \<Rightarrow> string \<Rightarrow> string \<Rightarrow> duration \<Rightarrow> int \<Rightarrow> ctx \<Rightarrow>
   string \<Rightarrow> 'n Delivery list \<Rightarrow> 'n world \<Rightarrow> (('n Delivery list \<times> gerror option) \<times> 'n world) option" where
  "Reclaim_from 0 u R ref grp consumer minIdle batch c cursor out w = None"
| "Reclaim_from (Suc fuel) u R ref grp consumer minIdle batch c cursor out w =
     (case call (XAUTOCLAIM (ref_Name ref) grp consumer minIdle cursor batch)
             (x_XAutoClaim R (ref_Name ref) grp consumer minIdle cursor batch) c w of
        (Inl e, w1) \<Rightarrow>
          Some ((out, Some (Wrapf (''redis: XAUTOCLAIM '' @ strconv_Quote (ref_Name ref) @ '' '' @
                   strconv_Quote grp) e)), w1)
      | (Inr (msgs, nxt), w1) \<Rightarrow>
          (let out' = out @ map (reclaimed_delivery u R ref grp) msgs in
           if nxt = ''0-0'' \<or> nxt = [] \<or> length msgs = 0 then Some ((out', None), w1)
           else Reclaim_from fuel u R ref grp consumer minIdle batch c nxt out' w1))"

definition Reclaim ::
  "nat \<Rightarrow> json_decoder \<Rightarrow> 'n rdb \<Rightarrow> SourceRef \<Rightarrow> string \<Rightarrow> string \<Rightarrow> duration \<Rightarrow> int \<Rightarrow> ctx \<Rightarrow> 'n world \<Rightarrow>
   (('n Delivery list \<times> gerror option) \<times> 'n world) option" where
  "Reclaim fuel u R ref grp consumer minIdle batch c w =
     Reclaim_from fuel u R ref grp consumer minIdle batch c ''0-0'' [] w"

definition retirable :: "duration \<Rightarrow> XInfoConsumer \<Rightarrow> bool" where
  "retirable idleFor con \<longleftrightarrow> \<not> (con_Pending con > 0 \<or> con_Idle con < idleFor)"

fun retire_loop ::
  "'n rdb \<Rightarrow> string \<Rightarrow> string \<Rightarrow> duration \<Rightarrow> logger \<Rightarrow> ctx \<Rightarrow> int \<Rightarrow> XInfoConsumer list \<Rightarrow> 'n world \<Rightarrow>
   (int \<times> gerror option) \<times> 'n world" where
  "retire_loop R stream grp idleFor lg c retired [] w = ((retired, None), w)"
| "retire_loop R stream grp idleFor lg c retired (con # cons) w =
     (if \<not> retirable idleFor con then retire_loop R stream grp idleFor lg c retired cons w
      else case call (XGROUP_DELCONSUMER stream grp (con_Name con))
                  (x_XGroupDelConsumer R stream grp (con_Name con)) c w of
        (Some e, w1) \<Rightarrow>
          ((retired, Some (Wrapf (''redis: XGROUP DELCONSUMER '' @ strconv_Quote (con_Name con)) e)), w1)
      | (None, w1) \<Rightarrow>
          retire_loop R stream grp idleFor lg c (retired + 1) cons
            (log_at lg LInfo ''retired idle consumer''
               [(''component'', AStr ''redis''), (''stream'', AStr stream), (''group'', AStr grp),
                (''consumer'', AStr (con_Name con)), (''idle'', ADur (con_Idle con))] w1))"

definition RetireConsumers ::
  "'n rdb \<Rightarrow> string \<Rightarrow> string \<Rightarrow> duration \<Rightarrow> logger \<Rightarrow> ctx \<Rightarrow> 'n world \<Rightarrow> (int \<times> gerror option) \<times> 'n world" where
  "RetireConsumers R stream grp idleFor lg c w =
     (case call (XINFO_CONSUMERS stream grp) (x_XInfoConsumers R stream grp) c w of
        (Inl e, w1) \<Rightarrow>
          ((0, Some (Wrapf (''redis: XINFO CONSUMERS '' @ strconv_Quote stream @ '' '' @
                       strconv_Quote grp) e)), w1)
      | (Inr cons, w1) \<Rightarrow> retire_loop R stream grp idleFor lg c 0 cons w1)"

record StreamReport =
  rep_Name :: string
  rep_Length :: int
  rep_Groups :: int
  rep_Pending :: int

definition ReportStream :: "'n rdb \<Rightarrow> string \<Rightarrow> ctx \<Rightarrow> 'n world \<Rightarrow> (gerror + StreamReport) \<times> 'n world" where
  "ReportStream R stream c w =
     (case call (XINFO_STREAM stream) (x_XInfoStream R stream) c w of
        (Inl e, w1) \<Rightarrow> (Inl (Wrapf (''redis: XINFO STREAM '' @ strconv_Quote stream) e), w1)
      | (Inr info, w1) \<Rightarrow>
          (Inr \<lparr>rep_Name = stream, rep_Length = i_Length info, rep_Groups = i_Groups info,
                rep_Pending = 0\<rparr>, w1))"

definition ListDepth :: "'n rdb \<Rightarrow> string \<Rightarrow> ctx \<Rightarrow> 'n world \<Rightarrow> (gerror + int) \<times> 'n world" where
  "ListDepth R key c w = call (LLEN key) (x_LLen R key) c w"

section \<open>Both primitives meet the source contract\<close>

lemma toDelivery_props:
  "classified (toDelivery u R s msg)" "d_Source (toDelivery u R s msg) = ss_ref s"
  "d_Position (toDelivery u R s msg) = m_ID msg"
  "d_ack (toDelivery u R s msg) = Some (xack R (ref_Name (ss_ref s)) (ss_group s) (m_ID msg))"
proof -
  show "classified (toDelivery u R s msg)"
  proof (cases "rawData msg")
    case None
    then show ?thesis
      by (simp add: toDelivery_def Let_def NewDelivery_def classified_def no_data_error_def)
  next
    case (Some raw)
    then show ?thesis
      by (cases rule: Parse_cases [of u raw])
         (simp_all add: toDelivery_def Let_def NewDelivery_def classified_def)
  qed
qed (simp_all add: toDelivery_def Let_def NewDelivery_def split: option.split prod.split)

lemma reclaimed_eq_toDelivery:
  "reclaimed_delivery u R (ss_ref s) (ss_group s) msg = toDelivery u R s msg"
proof (cases "rawData msg")
  case (Some raw)
  then show ?thesis
    by (cases rule: Parse_cases [of u raw])
       (simp_all add: toDelivery_def reclaimed_delivery_def Let_def)
qed (simp add: toDelivery_def reclaimed_delivery_def Let_def)

lemma xack_quiet: "xack R st g i c w = (e, w') \<Longrightarrow> quiet w w' \<and> extends w w' \<and> issued w w' = [XACK st g i]"
  unfolding xack_def by (rule call_quiet)

lemma StreamSource_Read_inv:
  assumes "StreamSource_Read u R s c w = (r, w')"
  shows "quiet w w' \<and> extends w w' \<and>
    issued w w' = [XREADGROUP (ref_Name (ss_ref s)) ''>'' (ss_group s) (ss_consumer s) (ss_count s) (ss_block s)]"
    and "r = Inr ds \<Longrightarrow> d \<in> set ds \<Longrightarrow> \<exists>msg. d = toDelivery u R s msg"
  using assms unfolding StreamSource_Read_def Let_def
  by (auto split: prod.splits sum.splits if_splits option.splits dest!: call_quiet)

lemma trimmedPastGroup_quiet:
  "trimmedPastGroup R s l c w = (r, w') \<Longrightarrow> quiet w w' \<and> extends w w'"
  unfolding trimmedPastGroup_def Let_def
  by (auto split: prod.splits sum.splits if_splits dest!: call_quiet)

lemma group_lag_quiet: "group_lag R s g c w = (r, w') \<Longrightarrow> quiet w w' \<and> extends w w'"
  unfolding group_lag_def Let_def
  by (auto split: prod.splits sum.splits if_splits dest!: call_quiet trimmedPastGroup_quiet
      intro: quiet_trans extends_trans)

lemma StreamSource_Lag_quiet: "StreamSource_Lag R s c w = (r, w') \<Longrightarrow> quiet w w' \<and> extends w w'"
  unfolding StreamSource_Lag_def Let_def
  by (auto split: prod.splits sum.splits option.splits dest!: call_quiet group_lag_quiet
      intro: quiet_trans extends_trans)

interpretation stream_src: source "stream_source u R s"
  "\<lambda>d. [XACK (ref_Name (ss_ref s)) (ss_group s) (d_Position d)]" for u R s
proof unfold_locales
  fix c w ds w' d
  assume "src_Read (stream_source u R s) c w = (Inr ds, w')" and d: "d \<in> set ds"
  then have "StreamSource_Read u R s c w = (Inr ds, w')" by (simp add: stream_source_def)
  from StreamSource_Read_inv(2) [OF this refl d] obtain msg where d: "d = toDelivery u R s msg"
    by blast
  then show "classified d \<and> d_Source d = src_Ref (stream_source u R s)"
    by (simp add: toDelivery_props stream_source_def)
  fix c2 v e v' assume "Ack d c2 v = (e, v')"
  then show "quiet v v' \<and> extends v v' \<and>
      issued v v' = [XACK (ref_Name (ss_ref s)) (ss_group s) (d_Position d)]"
    unfolding d Ack_def toDelivery_props option.case by (simp add: xack_quiet)
next
  fix c w r w' assume "src_Read (stream_source u R s) c w = (r, w')"
  then have "StreamSource_Read u R s c w = (r, w')" by (simp add: stream_source_def)
  from StreamSource_Read_inv(1) [OF this]
  show "quiet w w' \<and> extends w w' \<and> length (issued w w') = 1" by simp
next
  fix c w r w' assume "src_Lag (stream_source u R s) c w = (r, w')"
  then show "quiet w w' \<and> extends w w'"
    by (auto simp: stream_source_def dest: StreamSource_Lag_quiet)
qed

lemma ListSource_Read_inv:
  assumes "ListSource_Read u R s c w = (r, w')"
  shows "quiet w w' \<and> extends w w' \<and> issued w w' = [BLPOP (ref_Name (ls_ref s)) (ls_block s)]"
    and "r = Inr ds \<Longrightarrow> d \<in> set ds \<Longrightarrow>
      classified d \<and> d_Source d = ls_ref s \<and> d_ack d = Some (\<lambda>c w. (None, w)) \<and> length ds = 1"
proof -
  obtain b w1 where b: "call (BLPOP (ref_Name (ls_ref s)) (ls_block s))
      (x_BLPop R (ref_Name (ls_ref s)) (ls_block s)) c w = (b, w1)" by fastforce
  have "w' = w1"
    using assms b by (auto simp: ListSource_Read_def Let_def split: sum.splits if_splits option.splits prod.splits)
  then show "quiet w w' \<and> extends w w' \<and> issued w w' = [BLPOP (ref_Name (ls_ref s)) (ls_block s)]"
    using call_quiet [OF b] by simp
  assume r: "r = Inr ds" and d: "d \<in> set ds"
  then obtain res where res: "b = Inr res" "2 \<le> length res"
    using assms b by (auto simp: ListSource_Read_def Let_def split: sum.splits if_splits option.splits)
  show "classified d \<and> d_Source d = ls_ref s \<and> d_ack d = Some (\<lambda>c w. (None, w)) \<and> length ds = 1"
    using assms b res r d
    by (cases rule: Parse_cases [of u "res ! 1"])
       (auto simp: ListSource_Read_def Let_def NewDelivery_def classified_def)
qed

interpretation list_src: source "list_source u R s" "\<lambda>d. []" for u R s
proof unfold_locales
  fix c w ds w' d
  assume read: "src_Read (list_source u R s) c w = (Inr ds, w')" and d: "d \<in> set ds"
  then have "ListSource_Read u R s c w = (Inr ds, w')" by (simp add: list_source_def)
  note inv = ListSource_Read_inv(2) [OF this refl d]
  then show "classified d \<and> d_Source d = src_Ref (list_source u R s)"
    by (simp add: list_source_def)
  fix c2 v e v' assume "Ack d c2 v = (e, v')"
  with inv show "quiet v v' \<and> extends v v' \<and> issued v v' = []"
    by (auto simp: Ack_def)
next
  fix c w r w' assume "src_Read (list_source u R s) c w = (r, w')"
  then have "ListSource_Read u R s c w = (r, w')" by (simp add: list_source_def)
  from ListSource_Read_inv(1) [OF this]
  show "quiet w w' \<and> extends w w' \<and> length (issued w w') = 1" by simp
next
  fix c w r w' assume "src_Lag (list_source u R s) c w = (r, w')"
  then show "quiet w w' \<and> extends w w'"
    by (auto simp: list_source_def ListSource_Lag_def Let_def split: prod.splits sum.splits
        dest!: call_quiet)
qed

section \<open>Stream ids\<close>

text \<open>The id the server prints for an entry.\<close>

definition entry_id :: "nat \<Rightarrow> nat \<Rightarrow> string" where
  "entry_id ms sq = show_nat ms @ ''-'' @ show_nat sq"

definition id_less :: "nat \<times> nat \<Rightarrow> nat \<times> nat \<Rightarrow> bool" where
  "id_less a b \<longleftrightarrow> fst a < fst b \<or> fst a = fst b \<and> snd a < snd b"

lemma no_dash_in_digits: "CHR ''-'' \<notin> set (show_nat n)"
  using show_nat_digits [of "CHR ''-''" n] by (auto simp: is_digit_def)

lemma splitID_entry_id:
  "ms < 2 ^ 63 \<Longrightarrow> sq < 2 ^ 63 \<Longrightarrow> splitID (entry_id ms sq) = (int ms, int sq)"
  using strings_Cut_found [OF no_dash_in_digits, of ms "show_nat sq"]
  by (simp add: splitID_def entry_id_def ParseInt_show_nat)

text \<open>
  On ids as the server prints them, with both parts below \<open>2 ^ 63\<close>, \<open>compareIDs\<close> is the
  lexicographic order on (milliseconds, sequence): negative, zero and positive exactly for
  smaller, equal and larger; and parsing an id back gives its two parts.
\<close>

theorem compareIDs_lexicographic:
  assumes "a < 2 ^ 63" "b < 2 ^ 63" "m < 2 ^ 63" "n < 2 ^ 63"
  shows "splitID (entry_id a b) = (int a, int b) \<and>
    (compareIDs (entry_id a b) (entry_id m n) < 0 \<longleftrightarrow> id_less (a, b) (m, n)) \<and>
    (compareIDs (entry_id a b) (entry_id m n) = 0 \<longleftrightarrow> (a, b) = (m, n)) \<and>
    (compareIDs (entry_id a b) (entry_id m n) > 0 \<longleftrightarrow> id_less (m, n) (a, b))"
  using assms by (auto simp: compareIDs_def splitID_entry_id id_less_def)

theorem compareIDs_lexicographic_witness:
  "entry_id 9 1 = ''9-1'' \<and> entry_id 10 0 = ''10-0'' \<and> compareIDs ''9-1'' ''10-0'' < 0"
proof -
  have e: "entry_id 9 1 = ''9-1''" "entry_id 10 0 = ''10-0''"
    by code_simp+
  from compareIDs_lexicographic [of 9 1 10 0]
  have "compareIDs (entry_id 9 1) (entry_id 10 0) < 0" by (simp add: id_less_def)
  with e show ?thesis by simp
qed

section \<open>A quiet server, for concrete runs\<close>

definition quiet_rdb :: "unit rdb" where
  "quiet_rdb =
     \<lparr>x_XGroupCreateMkStream = (\<lambda>_ _ _. still None), x_XReadGroup = (\<lambda>_ _ _ _ _ _. still (Inl RedisNil)),
      x_XAck = (\<lambda>_ _ _. still None), x_XInfoGroups = (\<lambda>_. still (Inr [])),
      x_XInfoStream = (\<lambda>_. still (Inr \<lparr>i_Length = 0, i_Groups = 0, i_FirstEntryID = []\<rparr>)),
      x_XInfoConsumers = (\<lambda>_ _. still (Inr [])), x_XLen = (\<lambda>_. still (Inr 0)),
      x_XPending = (\<lambda>_ _. still (Inr \<lparr>p_Count = 0, p_Consumers = Map.empty\<rparr>)),
      x_XAutoClaim = (\<lambda>_ _ _ _ _ _. still (Inr ([], ''0-0''))),
      x_XGroupDelConsumer = (\<lambda>_ _ _. still None), x_BLPop = (\<lambda>_ _. still (Inl RedisNil)),
      x_LLen = (\<lambda>_. still (Inr 0)), x_Ping = still None\<rparr>"

definition example_stream :: StreamSource where
  "example_stream = \<lparr>ss_ref = \<lparr>ref_Name = ''events'', ref_Kind = KindStream\<rparr>, ss_group = ''g:a'',
     ss_consumer = ''c:a:i'', ss_count = 100, ss_block = 5 * second\<rparr>"

section \<open>Lag\<close>

text \<open>
  The lag reading of a group, exactly. When the server reports neither lag nor entries
  read for a group that has a position (its rendering of a NULL lag), the reading is the
  stream's length, marked approximate. Otherwise it is the server's figure, marked
  approximate if and only if the stream is non-empty and the group's last delivered id is
  below the first surviving entry. So an entry trimmed before the group read it is never
  reported as an exact reading while the stream holds anything; and the mark is also set
  when nothing was lost, for a group that has read nothing yet.
\<close>

theorem StreamSource_Lag_exact:
  assumes "replies (x_XInfoGroups R (ref_Name (ss_ref s))) (Inr groups)"
    and "find (\<lambda>g. g_Name g = ss_group s) groups = Some g"
    and "replies (x_XInfoStream R (ref_Name (ss_ref s))) (Inr info)"
    and "replies (x_XLen R (ref_Name (ss_ref s))) (Inr len)"
  shows "fst (StreamSource_Lag R s c w) =
    Inr (if g_Lag g = 0 \<and> g_EntriesRead g = 0 \<and> g_LastDeliveredID g \<noteq> ''0-0''
         then \<lparr>lag_Entries = len, lag_Approximate = True\<rparr>
         else \<lparr>lag_Entries = g_Lag g,
               lag_Approximate = (i_Length info \<noteq> 0 \<and> i_FirstEntryID info \<noteq> [] \<and>
                 compareIDs (g_LastDeliveredID g) (i_FirstEntryID info) < 0)\<rparr>)"
proof -
  obtain w1 where 1: "call (XINFO_GROUPS (ref_Name (ss_ref s))) (x_XInfoGroups R (ref_Name (ss_ref s))) c w
      = (Inr groups, w1)" using call_replies [OF assms(1)] by blast
  obtain w2 where 2: "call (XINFO_STREAM (ref_Name (ss_ref s))) (x_XInfoStream R (ref_Name (ss_ref s))) c w1
      = (Inr info, w2)" using call_replies [OF assms(3)] by blast
  obtain w3 where 3: "call (XLEN (ref_Name (ss_ref s))) (x_XLen R (ref_Name (ss_ref s))) c w2
      = (Inr len, w3)" using call_replies [OF assms(4)] by blast
  show ?thesis
    by (simp add: StreamSource_Lag_def 1 assms(2) group_lag_def trimmedPastGroup_def 2 3)
qed

text \<open>At a group that has read nothing of a stream whose first entry just arrived, the
  reading is marked approximate although nothing was trimmed.\<close>

theorem StreamSource_Lag_exact_witness:
  "fst (StreamSource_Lag
     (quiet_rdb\<lparr>x_XInfoGroups := (\<lambda>_. still (Inr [\<lparr>g_Name = ''g:a'', g_LastDeliveredID = ''0-0'',
                  g_EntriesRead = 0, g_Lag = 1\<rparr>])),
                x_XInfoStream := (\<lambda>_. still (Inr \<lparr>i_Length = 1, i_Groups = 1, i_FirstEntryID = ''1-0''\<rparr>))\<rparr>)
     example_stream background (start_world 0 (\<lambda>_. 0) ())) =
   Inr \<lparr>lag_Entries = 1, lag_Approximate = True\<rparr>"
proof -
  have c: "compareIDs ''0-0'' ''1-0'' < 0"
    by (simp add: compareIDs_def splitID_def strings_Cut_def ParseInt_def ParseUint_def is_digit_def
        digit_val_def)
  show ?thesis
    by (subst StreamSource_Lag_exact
          [where groups = "[\<lparr>g_Name = ''g:a'', g_LastDeliveredID = ''0-0'', g_EntriesRead = 0, g_Lag = 1\<rparr>]"
             and g = "\<lparr>g_Name = ''g:a'', g_LastDeliveredID = ''0-0'', g_EntriesRead = 0, g_Lag = 1\<rparr>"
             and info = "\<lparr>i_Length = 1, i_Groups = 1, i_FirstEntryID = ''1-0''\<rparr>" and len = 0])
       (simp_all add: quiet_rdb_def example_stream_def c)
qed

section \<open>Names\<close>

text \<open>
  For fixed base names, the group name determines the agent, and group name and consumer
  name together determine agent and instance: no two agents share a group, and no two
  instances of one agent share a consumer within it, whatever characters the ids contain.
\<close>

theorem consumer_identity_unique:
  "(GroupName b a = GroupName b a' \<longleftrightarrow> a = a') \<and>
   ((GroupName b a, ConsumerName k a i) = (GroupName b a', ConsumerName k a' i') \<longleftrightarrow> a = a' \<and> i = i')"
  by (auto simp: GroupName_def ConsumerName_def)

section \<open>Retiring consumers\<close>

lemma retire_loop_inv:
  assumes "retire_loop R st g idle lg c k cons w = ((n, e), w')"
  shows "extends w w' \<and> k \<le> n \<and>
    (\<exists>m. issued w w' = map (\<lambda>x. XGROUP_DELCONSUMER st g (con_Name x)) (take m (filter (retirable idle) cons)) \<and>
       (e = None \<longrightarrow> m = length (filter (retirable idle) cons) \<and>
          n = k + int (length (filter (retirable idle) cons))))"
  using assms
proof (induction cons arbitrary: k w)
  case Nil
  then show ?case by auto
next
  case (Cons x cons)
  show ?case
  proof (cases "retirable idle x")
    case False
    with Cons show ?thesis by simp
  next
    case True
    obtain r w1 where call: "call (XGROUP_DELCONSUMER st g (con_Name x))
        (x_XGroupDelConsumer R st g (con_Name x)) c w = (r, w1)" by fastforce
    note q = call_quiet [OF call]
    show ?thesis
    proof (cases r)
      case (Some err)
      with True call Cons.prems q show ?thesis by (auto intro!: exI [of _ "Suc 0"])
    next
      case None
      obtain w2 where w2: "trace w2 = trace w1" "retire_loop R st g idle lg c (k + 1) cons w2 = ((n, e), w')"
        using None True call Cons.prems by simp (metis log_at_frame(7))
      have step: "extends w w2" "issued w w2 = [XGROUP_DELCONSUMER st g (con_Name x)]"
        using extendsI [of w2 w "[XGROUP_DELCONSUMER st g (con_Name x)]"] w2(1) call_frame(7) [OF call]
        by simp_all
      from Cons.IH [OF w2(2)] obtain m where m: "extends w2 w'" "k + 1 \<le> n"
        "issued w2 w' = map (\<lambda>x. XGROUP_DELCONSUMER st g (con_Name x)) (take m (filter (retirable idle) cons))"
        "e = None \<longrightarrow> m = length (filter (retirable idle) cons) \<and>
          n = k + 1 + int (length (filter (retirable idle) cons))" by blast
      with step extends_trans [OF step(1) m(1)] True show ?thesis
        by (auto intro!: exI [of _ "Suc m"])
    qed
  qed
qed

text \<open>
  C34. A retirement pass reads the consumers once and then deletes only consumers of its own
  group which that reading showed idle for at least the configured time and without pending
  entries; a consumer holding work is never deleted. When no command fails it deletes exactly
  those, in order, and returns their number.
\<close>

theorem RetireConsumers_safe:
  assumes "replies (x_XInfoConsumers R st g) (Inr cons)"
    and "RetireConsumers R st g idle lg c w = ((n, e), w')"
  shows "\<exists>m. issued w w' = XINFO_CONSUMERS st g #
      map (\<lambda>x. XGROUP_DELCONSUMER st g (con_Name x)) (take m (filter (retirable idle) cons)) \<and>
    (\<forall>x \<in> set (take m (filter (retirable idle) cons)). con_Pending x \<le> 0 \<and> idle \<le> con_Idle x) \<and>
    (e = None \<longrightarrow> m = length (filter (retirable idle) cons) \<and>
       n = int (length (filter (retirable idle) cons)))"
proof -
  obtain r w1 where call: "call (XINFO_CONSUMERS st g) (x_XInfoConsumers R st g) c w = (r, w1)"
    by fastforce
  have "r = Inr cons" by (rule call_replies_eq [OF assms(1) call])
  with assms(2) call have "retire_loop R st g idle lg c 0 cons w1 = ((n, e), w')"
    by (simp add: RetireConsumers_def)
  from retire_loop_inv [OF this] obtain m where m: "extends w1 w'"
    "issued w1 w' = map (\<lambda>x. XGROUP_DELCONSUMER st g (con_Name x)) (take m (filter (retirable idle) cons))"
    "e = None \<longrightarrow> m = length (filter (retirable idle) cons) \<and> n = int (length (filter (retirable idle) cons))"
    by auto
  have "issued w w' = XINFO_CONSUMERS st g # issued w1 w'"
    using extends_trans(2) [OF _ m(1), of w] call_quiet [OF call] by simp
  moreover have "con_Pending x \<le> 0 \<and> idle \<le> con_Idle x"
    if "x \<in> set (take m (filter (retirable idle) cons))" for x
    using set_take_subset [THEN subsetD, OF that] by (auto simp: retirable_def)
  ultimately show ?thesis using m(2,3) by auto
qed

theorem RetireConsumers_safe_witness:
  "\<exists>n e w'. RetireConsumers
       (quiet_rdb\<lparr>x_XInfoConsumers := (\<lambda>_ _. still (Inr
          [\<lparr>con_Name = ''busy'', con_Pending = 1, con_Idle = 9 * hour\<rparr>,
           \<lparr>con_Name = ''gone'', con_Pending = 0, con_Idle = 9 * hour\<rparr>]))\<rparr>)
       ''events'' ''g:a'' hour (NewLogger ''info'') background (start_world 0 (\<lambda>_. 0) ()) = ((n, e), w') \<and>
     (e = None \<longrightarrow> n = 1) \<and> \<not> XGROUP_DELCONSUMER ''events'' ''g:a'' ''busy'' \<in> set (issued (start_world 0 (\<lambda>_. 0) ()) w')"
proof -
  let ?cons = "[\<lparr>con_Name = ''busy'', con_Pending = 1, con_Idle = 9 * hour\<rparr>,
      \<lparr>con_Name = ''gone'', con_Pending = 0, con_Idle = 9 * hour\<rparr>]"
  let ?R = "quiet_rdb\<lparr>x_XInfoConsumers := (\<lambda>_ _. still (Inr ?cons))\<rparr>"
  let ?w = "start_world 0 (\<lambda>_. 0) ()"
  obtain n e w' where run: "RetireConsumers ?R ''events'' ''g:a'' hour (NewLogger ''info'') background ?w = ((n, e), w')"
    by (metis prod.exhaust)
  have f: "filter (retirable hour) ?cons = [\<lparr>con_Name = ''gone'', con_Pending = 0, con_Idle = 9 * hour\<rparr>]"
    by (simp add: retirable_def)
  have "replies (x_XInfoConsumers ?R ''events'' ''g:a'') (Inr ?cons)" by simp
  from RetireConsumers_safe [OF this run] run f show ?thesis
    by (auto simp: take_Cons' split: if_splits)
qed

section \<open>Reclaiming\<close>

text \<open>The server's cursor makes progress: some rank of it falls on every page that is neither
  empty nor final.\<close>

definition cursor_progress ::
  "'n rdb \<Rightarrow> string \<Rightarrow> string \<Rightarrow> string \<Rightarrow> duration \<Rightarrow> int \<Rightarrow> (string \<Rightarrow> nat) \<Rightarrow> bool" where
  "cursor_progress R st g con idle batch rank \<longleftrightarrow>
     (\<forall>cursor c t n msgs nxt d n'.
        x_XAutoClaim R st g con idle cursor batch c t n = (Inr (msgs, nxt), d, n') \<longrightarrow>
        msgs \<noteq> [] \<longrightarrow> nxt \<noteq> ''0-0'' \<longrightarrow> nxt \<noteq> [] \<longrightarrow> rank nxt < rank cursor)"

lemma Reclaim_from_enough:
  assumes "cursor_progress R (ref_Name ref) g con idle batch rank"
    and "rank cursor < fuel"
  shows "\<exists>res. Reclaim_from fuel u R ref g con idle batch c cursor out w = Some res"
  using assms(2)
proof (induction fuel arbitrary: cursor out w)
  case (Suc fuel)
  obtain r w1 where call: "call (XAUTOCLAIM (ref_Name ref) g con idle cursor batch)
      (x_XAutoClaim R (ref_Name ref) g con idle cursor batch) c w = (r, w1)" by fastforce
  show ?case
  proof (cases r)
    case (Inl e)
    with call show ?thesis by simp
  next
    case (Inr page)
    obtain msgs nxt where page: "page = (msgs, nxt)" by fastforce
    show ?thesis
    proof (cases "nxt = ''0-0'' \<or> nxt = [] \<or> msgs = []")
      case True
      with call Inr page show ?thesis by (simp add: Let_def)
    next
      case False
      obtain d n' where "x_XAutoClaim R (ref_Name ref) g con idle cursor batch c (clock w) (outside w) =
          (Inr (msgs, nxt), d, n')"
        using call Inr page by (auto simp: call_def split: prod.splits)
      with False assms(1) have "rank nxt < rank cursor"
        unfolding cursor_progress_def by blast
      with Suc.prems have "rank nxt < fuel" by simp
      from Suc.IH [OF this] call Inr page False show ?thesis by (simp add: Let_def)
    qed
  qed
qed simp

lemma Reclaim_from_issued:
  assumes "Reclaim_from fuel u R ref g con idle batch c cursor out w = Some ((ds, e), w')"
  shows "extends w w' \<and> logs w' = logs w \<and> counters w' = counters w \<and> gauges w' = gauges w \<and>
    (\<forall>x \<in> set (issued w w'). \<exists>cur. x = XAUTOCLAIM (ref_Name ref) g con idle cur batch) \<and>
    (\<exists>msgs. ds = out @ map (reclaimed_delivery u R ref g) msgs)"
  using assms
proof (induction fuel arbitrary: cursor out w)
  case (Suc fuel)
  obtain r w1 where call: "call (XAUTOCLAIM (ref_Name ref) g con idle cursor batch)
      (x_XAutoClaim R (ref_Name ref) g con idle cursor batch) c w = (r, w1)" by fastforce
  note q = call_quiet [OF call]
  show ?case
  proof (cases r)
    case (Inl e)
    with call Suc.prems q show ?thesis by (auto simp: quiet_def intro!: exI [of _ "[]"])
  next
    case (Inr page)
    obtain msgs nxt where page: "page = (msgs, nxt)" by fastforce
    show ?thesis
    proof (cases "nxt = ''0-0'' \<or> nxt = [] \<or> msgs = []")
      case True
      with call Inr page Suc.prems q show ?thesis by (auto simp: quiet_def Let_def)
    next
      case False
      with call Inr page Suc.prems
      have rec: "Reclaim_from fuel u R ref g con idle batch c nxt
          (out @ map (reclaimed_delivery u R ref g) msgs) w1 = Some ((ds, e), w')"
        by (simp add: Let_def)
      from Suc.IH [OF rec] q extends_trans [of w w1 w'] show ?thesis
        by (auto simp: quiet_def) (metis append.assoc map_append)
    qed
  qed
qed simp

text \<open>
  C35. The reclaim pass ends if the server's cursor makes progress, that is if some rank of the cursor falls on every non-empty,
  non-final page: then as many turns as the rank of the first cursor, plus one, suffice for a result. The pass issues nothing
  but \<open>XAUTOCLAIM\<close> on its own group with the configured minimum idle time, so an entry in flight at a live consumer is left alone;
  its deliveries are classified and acknowledge in that group. Without progress of the cursor the code has no bound of its own.
\<close>

theorem Reclaim_terminates_and_claims_only:
  fixes s :: StreamSource
  assumes "cursor_progress R (ref_Name (ss_ref s)) (ss_group s) con idle batch rank"
  shows "\<exists>ds e w'. Reclaim (Suc (rank ''0-0'')) u R (ss_ref s) (ss_group s) con idle batch c w = Some ((ds, e), w') \<and>
    (\<forall>x \<in> set (issued w w'). \<exists>cur. x = XAUTOCLAIM (ref_Name (ss_ref s)) (ss_group s) con idle cur batch) \<and>
    (\<forall>d \<in> set ds. classified d \<and> d_Source d = ss_ref s)"
proof -
  obtain res where "Reclaim_from (Suc (rank ''0-0'')) u R (ss_ref s) (ss_group s) con idle batch c ''0-0'' [] w = Some res"
    using Reclaim_from_enough [OF assms lessI] by blast
  then obtain ds e w' where run: "Reclaim_from (Suc (rank ''0-0'')) u R (ss_ref s) (ss_group s) con idle batch c
      ''0-0'' [] w = Some ((ds, e), w')"
    by (cases res) auto
  from Reclaim_from_issued [OF run] show ?thesis
    using run unfolding Reclaim_def by (auto simp: reclaimed_eq_toDelivery toDelivery_props simp del: Reclaim_from.simps)
qed

text \<open>A server with three pages, of which the cursors \<open>5-0\<close> and \<open>9-0\<close> start the second and the third.\<close>

definition paged_rdb :: "unit rdb" where
  "paged_rdb = quiet_rdb\<lparr>x_XAutoClaim := (\<lambda>_ _ _ _ cursor _.
     if cursor = ''0-0'' then still (Inr ([\<lparr>m_ID = ''1-0'', m_Values = Map.empty\<rparr>, \<lparr>m_ID = ''2-0'', m_Values = Map.empty\<rparr>], ''5-0''))
     else if cursor = ''5-0'' then still (Inr ([\<lparr>m_ID = ''5-0'', m_Values = Map.empty\<rparr>], ''9-0''))
     else still (Inr ([\<lparr>m_ID = ''9-0'', m_Values = Map.empty\<rparr>], ''0-0'')))\<rparr>"

definition page_rank :: "string \<Rightarrow> nat" where
  "page_rank cursor = (if cursor = ''0-0'' then 2 else if cursor = ''5-0'' then 1 else 0)"

theorem Reclaim_terminates_witness:
  "\<exists>ds e w'. Reclaim 3 (\<lambda>_. Inl []) paged_rdb (ss_ref example_stream) (ss_group example_stream)
     ''c:r:i'' minute 100 background (start_world 0 (\<lambda>_. 0) ()) = Some ((ds, e), w') \<and>
     map d_Position ds = [''1-0'', ''2-0'', ''5-0'', ''9-0''] \<and> length (issued (start_world 0 (\<lambda>_. 0) ()) w') = 3 \<and>
     (\<forall>x \<in> set (issued (start_world 0 (\<lambda>_. 0) ()) w'). \<exists>cur. x = XAUTOCLAIM ''events'' ''g:a'' ''c:r:i'' minute cur 100)"
proof -
  let ?w = "start_world 0 (\<lambda>_. 0) () :: unit world"
  have "cursor_progress paged_rdb (ref_Name (ss_ref example_stream)) (ss_group example_stream) ''c:r:i'' minute 100 page_rank"
    by (auto simp: cursor_progress_def paged_rdb_def still_def page_rank_def)
  note ends = Reclaim_terminates_and_claims_only [OF this, of "\<lambda>_. Inl []" background ?w]
  from ends obtain ds e w' where
    r: "Reclaim (Suc (page_rank ''0-0'')) (\<lambda>_. Inl []) paged_rdb (ss_ref example_stream) (ss_group example_stream) ''c:r:i'' minute 100
       background ?w = Some ((ds, e), w')" and
    o: "\<forall>x \<in> set (issued ?w w'). \<exists>cur. x = XAUTOCLAIM (ref_Name (ss_ref example_stream)) (ss_group example_stream) ''c:r:i'' minute cur 100"
    by (elim exE conjE) (rule that)
  have "Suc (page_rank ''0-0'') = 3" by (simp add: page_rank_def)
  note run = r [unfolded this]
  have "ref_Name (ss_ref example_stream) = ''events''" "ss_group example_stream = ''g:a''" by (simp_all add: example_stream_def)
  note own = o [unfolded this]
  have "map d_Position ds = [''1-0'', ''2-0'', ''5-0'', ''9-0'']" "length (issued ?w w') = 3"
    using run unfolding Reclaim_def numeral_3_eq_3
    by (auto simp: paged_rdb_def call_def still_def start_world_def issued_def reclaimed_delivery_def rawData_def NewDelivery_def Let_def)
  with run own show ?thesis by (intro exI conjI)
qed

text \<open>
  A page that claims nothing ends the pass without an error even when the server's
  cursor says that the scan is not complete, so entries behind a full scan window of
  entries that are not yet idle are not reached.
\<close>

theorem Reclaim_stops_at_empty_page:
  assumes "replies (x_XAutoClaim R (ref_Name ref) g con idle ''0-0'' batch) (Inr ([], nxt))"
  shows "\<exists>w'. Reclaim (Suc fuel) u R ref g con idle batch c w = Some (([], None), w') \<and>
    issued w w' = [XAUTOCLAIM (ref_Name ref) g con idle ''0-0'' batch]"
proof -
  obtain r w1 where call: "call (XAUTOCLAIM (ref_Name ref) g con idle ''0-0'' batch)
      (x_XAutoClaim R (ref_Name ref) g con idle ''0-0'' batch) c w = (r, w1)" by fastforce
  have "r = Inr ([], nxt)" by (rule call_replies_eq [OF assms call])
  with call call_quiet [OF call] show ?thesis by (simp add: Reclaim_def)
qed

theorem Reclaim_stops_at_empty_page_witness:
  "\<exists>w'. Reclaim (Suc 7) (\<lambda>_. Inl []) (quiet_rdb\<lparr>x_XAutoClaim := (\<lambda>_ _ _ _ _ _. still (Inr ([], ''5-0'')))\<rparr>)
     (ss_ref example_stream) ''g:a'' ''c:r:i'' minute 100 background (start_world 0 (\<lambda>_. 0) ()) =
     Some (([], None), w')"
proof -
  let ?R = "quiet_rdb\<lparr>x_XAutoClaim := (\<lambda>_ _ _ _ _ _. still (Inr ([], ''5-0'')))\<rparr>"
  have "replies (x_XAutoClaim ?R (ref_Name (ss_ref example_stream)) ''g:a'' ''c:r:i'' minute ''0-0'' 100)
      (Inr ([], ''5-0''))" by simp
  from Reclaim_stops_at_empty_page [OF this] show ?thesis by blast
qed

end
