(* ===== verification/Summarize.thy ===== *)
theory Summarize
  imports Envelope
begin

text \<open>
  The log summariser (\<open>internal/housekeeping/summarize.go\<close>): an in-memory aggregator over
  clock-aligned periods. \<open>run_agg\<close> runs an arbitrary interleaving of \<open>Observe\<close> and \<open>Tick\<close>
  (each holds the mutex for its whole body), which is what the conservation and identity
  lemmas are about. The JSON encoder of a summary is an argument of \<open>Emit\<close>.
\<close>

section \<open>The aggregator\<close>

record LogSummary =
  PeriodStart :: time
  PeriodEnd :: time
  EntryCount :: int
  Breakdown :: "string \<rightharpoonup> int"
  GeneratedAt :: time
  Partial :: bool

record Aggregator =
  agg_period :: duration
  agg_current :: time
  agg_count :: int
  agg_byKey :: "string \<rightharpoonup> int"
  agg_partial :: bool

definition NewAggregator :: "duration \<Rightarrow> Aggregator" where
  "NewAggregator period =
     \<lparr>agg_period = period, agg_current = zero_time, agg_count = 0, agg_byKey = Map.empty,
      agg_partial = True\<rparr>"

definition bucketStart :: "Aggregator \<Rightarrow> time \<Rightarrow> time" where
  "bucketStart a t = time_Truncate t (agg_period a)"

definition closeLocked :: "Aggregator \<Rightarrow> time \<Rightarrow> LogSummary \<times> Aggregator" where
  "closeLocked a now =
     (\<lparr>PeriodStart = agg_current a, PeriodEnd = agg_current a + agg_period a,
       EntryCount = agg_count a, Breakdown = agg_byKey a, GeneratedAt = now,
       Partial = agg_partial a\<rparr>,
      a\<lparr>agg_count := 0, agg_byKey := Map.empty, agg_partial := False\<rparr>)"

text \<open>\<open>m[k]++\<close> on a Go map: a missing key reads as zero.\<close>

definition map_Inc :: "string \<Rightarrow> (string \<rightharpoonup> int) \<Rightarrow> (string \<rightharpoonup> int)" where
  "map_Inc k m = m(k \<mapsto> wrap64 ((case m k of None \<Rightarrow> 0 | Some v \<Rightarrow> v) + 1))"

definition stamp_of :: "Envelope \<Rightarrow> time \<Rightarrow> time" where
  "stamp_of env now = (if ReceivedAt env = zero_time then now else ReceivedAt env)"

text \<open>\<open>Observe\<close> first opens or rolls the bucket, then counts the entry.\<close>

definition roll :: "Aggregator \<Rightarrow> time \<Rightarrow> time \<Rightarrow> LogSummary option \<times> Aggregator" where
  "roll a bucket now =
     (let a1 = (if agg_current a = zero_time then a\<lparr>agg_current := bucket\<rparr> else a)
      in if bucket > agg_current a1
         then (let (s, b) = closeLocked a1 now in (Some s, b\<lparr>agg_current := bucket\<rparr>))
         else (None, a1))"

definition gateway_key :: "Envelope \<Rightarrow> string" where
  "gateway_key env = ''gateway:'' @ GatewayID env"

definition count_entry :: "Envelope \<Rightarrow> Aggregator \<Rightarrow> Aggregator" where
  "count_entry env a =
     (let a1 = a\<lparr>agg_count := wrap64 (agg_count a + 1)\<rparr>
      in if GatewayID env \<noteq> [] then a1\<lparr>agg_byKey := map_Inc (gateway_key env) (agg_byKey a1)\<rparr> else a1)"

definition Observe :: "Aggregator \<Rightarrow> Envelope \<Rightarrow> time \<Rightarrow> LogSummary option \<times> Aggregator" where
  "Observe a env now =
     (let (closed, a1) = roll a (bucketStart a (stamp_of env now)) now in (closed, count_entry env a1))"

definition Tick :: "Aggregator \<Rightarrow> time \<Rightarrow> LogSummary option \<times> Aggregator" where
  "Tick a now =
     (if agg_current a = zero_time \<or> \<not> (bucketStart a now > agg_current a) then (None, a)
      else (let (s, b) = closeLocked a now in (Some s, b\<lparr>agg_current := bucketStart a now\<rparr>)))"

definition Emit :: "(LogSummary \<Rightarrow> gerror + bytes) \<Rightarrow> logger \<Rightarrow> LogSummary \<Rightarrow> 'n world \<Rightarrow> 'n world" where
  "Emit marshal lg s w =
     (let body = (case marshal s of Inl _ \<Rightarrow> [] | Inr b \<Rightarrow> b) in
      log_at lg (if Partial s then LWarn else LInfo) ''log summary''
        [(''component'', AStr ''summary''), (''period_start'', ATime (PeriodStart s)),
         (''period_end'', ATime (PeriodEnd s)), (''entry_count'', AInt (EntryCount s)),
         (''partial'', ABool (Partial s)), (''summary'', AStr body)] w)"

section \<open>Runs of the aggregator\<close>

datatype agg_op = OpObserve Envelope time | OpTick time

fun agg_step :: "Aggregator \<Rightarrow> agg_op \<Rightarrow> LogSummary option \<times> Aggregator" where
  "agg_step a (OpObserve env now) = Observe a env now"
| "agg_step a (OpTick now) = Tick a now"

fun run_agg :: "Aggregator \<Rightarrow> agg_op list \<Rightarrow> LogSummary list \<times> Aggregator" where
  "run_agg a [] = ([], a)"
| "run_agg a (x # xs) =
     (let (s, a1) = agg_step a x; (ss, a2) = run_agg a1 xs
      in ((case s of None \<Rightarrow> ss | Some c \<Rightarrow> c # ss), a2))"

fun observed :: "agg_op list \<Rightarrow> Envelope list" where
  "observed [] = []"
| "observed (OpObserve env now # xs) = env # observed xs"
| "observed (OpTick now # xs) = observed xs"

text \<open>The stamp an operation files an entry under is not before Go's zero time.\<close>

fun op_after_zero :: "agg_op \<Rightarrow> bool" where
  "op_after_zero (OpObserve env now) = (zero_time \<le> stamp_of env now)"
| "op_after_zero (OpTick now) = True"

section \<open>One step\<close>

text \<open>The period and the effect of a step on bucket, counts and flag.\<close>

lemma agg_step_period [simp]: "agg_period (snd (agg_step a x)) = agg_period a"
  by (cases x) (simp_all add: Observe_def roll_def count_entry_def Tick_def closeLocked_def Let_def)

lemma run_agg_period [simp]: "agg_period (snd (run_agg a xs)) = agg_period a"
  by (induction xs arbitrary: a) (simp_all add: case_prod_unfold Let_def)

definition at_key :: "(string \<rightharpoonup> int) \<Rightarrow> string \<Rightarrow> int" where
  "at_key m k = (case m k of None \<Rightarrow> 0 | Some v \<Rightarrow> v)"

lemma at_key_simps [simp]: "at_key Map.empty k = 0"
  "at_key (map_Inc k m) j = (if j = k then wrap64 (at_key m k + 1) else at_key m j)"
  by (simp_all add: at_key_def map_Inc_def)

lemma wrap64_Suc: "0 \<le> x \<Longrightarrow> x < 2 ^ 63 - 1 \<Longrightarrow> wrap64 (x + 1) = x + 1"
  by (rule wrap64_id) (simp add: in64_def minInt64_def maxInt64_def)

text \<open>The shape of a step: what it closes, and the state it leaves before it counts.\<close>

definition summary_count :: "LogSummary option \<Rightarrow> int" where
  "summary_count s = (case s of None \<Rightarrow> 0 | Some c \<Rightarrow> EntryCount c)"

definition summary_at :: "string \<Rightarrow> LogSummary option \<Rightarrow> int" where
  "summary_at k s = (case s of None \<Rightarrow> 0 | Some c \<Rightarrow> at_key (Breakdown c) k)"

definition counted :: "agg_op \<Rightarrow> int" where
  "counted x = int (length (observed [x]))"

definition counts_key :: "string \<Rightarrow> Envelope \<Rightarrow> bool" where
  "counts_key k env \<longleftrightarrow> GatewayID env \<noteq> [] \<and> k = gateway_key env"

definition counted_at :: "string \<Rightarrow> agg_op \<Rightarrow> int" where
  "counted_at k x = int (length (filter (counts_key k) (observed [x])))"

definition agg_inv :: "Aggregator \<Rightarrow> bool" where
  "agg_inv a \<longleftrightarrow> 0 \<le> agg_count a \<and> (\<forall>k. 0 \<le> at_key (agg_byKey a) k \<and> at_key (agg_byKey a) k \<le> agg_count a)"

lemma agg_inv_New [simp]: "agg_inv (NewAggregator p)"
  by (simp add: agg_inv_def NewAggregator_def)

text \<open>Closing moves what was counted into the summary; counting adds one.\<close>

definition keeps_counts :: "Aggregator \<Rightarrow> LogSummary option \<times> Aggregator \<Rightarrow> bool" where
  "keeps_counts a r \<longleftrightarrow>
     (case r of (s, b) \<Rightarrow>
        (agg_inv a \<longrightarrow> agg_inv b) \<and> agg_count b \<le> max 0 (agg_count a) \<and>
        summary_count s + agg_count b = agg_count a \<and>
        (\<forall>k. summary_at k s + at_key (agg_byKey b) k = at_key (agg_byKey a) k))"

lemma keeps_counts_roll: "keeps_counts a (roll a t now)"
  by (simp add: keeps_counts_def roll_def Let_def closeLocked_def agg_inv_def summary_count_def summary_at_def)

lemma keeps_counts_Tick: "keeps_counts a (Tick a now)"
  by (simp add: keeps_counts_def Tick_def Let_def closeLocked_def agg_inv_def summary_count_def summary_at_def)

lemma count_entry_counts:
  assumes "agg_inv a" and "agg_count a < 2 ^ 63 - 1"
  shows "agg_inv (count_entry env a) \<and> agg_count (count_entry env a) = agg_count a + 1 \<and>
    at_key (agg_byKey (count_entry env a)) k = at_key (agg_byKey a) k + (if counts_key k env then 1 else 0)"
proof -
  have rng: "0 \<le> agg_count a" "0 \<le> at_key (agg_byKey a) j" "at_key (agg_byKey a) j < 2 ^ 63 - 1"
    "at_key (agg_byKey a) j \<le> agg_count a" for j
    using assms unfolding agg_inv_def by (blast, blast, metis order.strict_trans1, blast)
  note small = wrap64_Suc [OF rng(2,3)] wrap64_Suc [OF rng(1) assms(2)]
  have key: "at_key (agg_byKey (count_entry env a)) j =
      at_key (agg_byKey a) j + (if counts_key j env then 1 else 0)" for j
    by (simp add: count_entry_def Let_def counts_key_def small)
  have cnt: "agg_count (count_entry env a) = agg_count a + 1"
    by (simp add: count_entry_def Let_def small)
  have "at_key (agg_byKey a) j + (if b then 1 else 0) \<le> agg_count a + 1" for j b
    using rng(4) [of j] by simp
  with rng(1,2) show ?thesis unfolding agg_inv_def key cnt by (auto intro: add_nonneg_nonneg)
qed

lemma agg_step_counts:
  assumes "agg_inv a" and "agg_count a + counted x < 2 ^ 63" and "agg_step a x = (s, a1)"
  shows "agg_inv a1 \<and> agg_count a1 \<le> agg_count a + counted x \<and>
    summary_count s + agg_count a1 = agg_count a + counted x \<and>
    summary_at k s + at_key (agg_byKey a1) k = at_key (agg_byKey a) k + counted_at k x"
proof -
  have nn: "0 \<le> agg_count a" using assms(1) by (simp add: agg_inv_def)
  show ?thesis
  proof (cases x)
    case (OpTick now)
    with assms keeps_counts_Tick [of a now] nn show ?thesis
      by (simp add: keeps_counts_def counted_def counted_at_def)
  next
    case (OpObserve env now)
    obtain b where b: "roll a (bucketStart a (stamp_of env now)) now = (s, b)" and a1: "a1 = count_entry env b"
      using assms(3) OpObserve by (auto simp: Observe_def split: prod.splits)
    from keeps_counts_roll [of a "bucketStart a (stamp_of env now)" now] b assms(1) nn
    have k: "agg_inv b" "agg_count b \<le> agg_count a" "summary_count s + agg_count b = agg_count a"
      "summary_at k s + at_key (agg_byKey b) k = at_key (agg_byKey a) k"
      by (simp_all add: keeps_counts_def)
    from k(2) assms(2) have "agg_count b < 2 ^ 63 - 1" by (simp add: OpObserve counted_def)
    from count_entry_counts [OF k(1) this, of env k] k(2-4) show ?thesis
      by (simp add: OpObserve a1 counted_def counted_at_def)
  qed
qed

lemma run_agg_counts:
  assumes "agg_inv a" and "agg_count a + int (length (observed xs)) < 2 ^ 63" and "run_agg a xs = (ss, a')"
  shows "sum_list (map EntryCount ss) + agg_count a' = agg_count a + int (length (observed xs)) \<and>
    sum_list (map (\<lambda>s. at_key (Breakdown s) k) ss) + at_key (agg_byKey a') k =
      at_key (agg_byKey a) k + int (length (filter (counts_key k) (observed xs)))"
  using assms
proof (induction xs arbitrary: a ss)
  case (Cons x xs)
  obtain s a1 where one: "agg_step a x = (s, a1)" by fastforce
  obtain ss' where rest: "run_agg a1 xs = (ss', a')" and ss: "ss = (case s of None \<Rightarrow> ss' | Some c \<Rightarrow> c # ss')"
    using Cons.prems(3) one by (auto simp: Let_def split: prod.splits)
  have obs: "observed (x # xs) = observed [x] @ observed xs" by (cases x) simp_all
  then have len: "int (length (observed (x # xs))) = counted x + int (length (observed xs))" by (simp add: counted_def)
  have "agg_count a + counted x < 2 ^ 63" using Cons.prems(2) len by linarith
  note st = agg_step_counts [OF Cons.prems(1) this one, of k]
  have "agg_count a1 + int (length (observed xs)) < 2 ^ 63" using st Cons.prems(2) len by linarith
  with st Cons.IH [OF _ _ rest] len obs show ?case
    by (cases s) (simp_all add: ss summary_count_def summary_at_def counted_at_def)
qed simp

section \<open>Periods\<close>

definition aligned :: "duration \<Rightarrow> time \<Rightarrow> bool" where
  "aligned p t \<longleftrightarrow> p dvd t"

lemma bucketStart_aligned: "0 < agg_period a \<Longrightarrow> aligned (agg_period a) (bucketStart a t)"
  by (simp add: aligned_def bucketStart_def time_Truncate_def)

lemma bucketStart_le: "bucketStart a t \<le> t"
  by (simp add: bucketStart_def time_Truncate_def pos_mod_sign)

lemma bucketStart_nonneg: "zero_time \<le> t \<Longrightarrow> zero_time \<le> bucketStart a t"
  by (auto simp: bucketStart_def time_Truncate_def zero_time_def zmod_le_nonneg_dividend)

text \<open>A step only moves the open bucket forward; what it closes is the open bucket.\<close>

lemma agg_step_period_moves:
  assumes "0 < agg_period a" and "aligned (agg_period a) (agg_current a)" and "zero_time \<le> agg_current a"
    and "op_after_zero x" and "agg_step a x = (s, a1)"
  shows "aligned (agg_period a) (agg_current a1) \<and> agg_current a \<le> agg_current a1 \<and>
    (case s of
       None \<Rightarrow> agg_partial a1 = agg_partial a
     | Some c \<Rightarrow> agg_current a \<le> PeriodStart c \<and> aligned (agg_period a) (PeriodStart c) \<and>
         PeriodEnd c = PeriodStart c + agg_period a \<and> PeriodEnd c \<le> agg_current a1 \<and>
         Partial c = agg_partial a \<and> \<not> agg_partial a1)"
proof -
  have next_bucket: "t + agg_period a \<le> u" if "aligned (agg_period a) t" "aligned (agg_period a) u" "t < u" for t u
    using that assms(1) zdvd_imp_le [of "agg_period a" "u - t"] by (simp add: aligned_def)
  show ?thesis
  proof (cases x)
    case (OpTick now)
    with assms next_bucket [OF assms(2) bucketStart_aligned [OF assms(1)], of now] show ?thesis
      by (auto simp: Tick_def closeLocked_def bucketStart_aligned split: if_splits)
  next
    case (OpObserve env now)
    let ?b = "bucketStart a (stamp_of env now)"
    have "zero_time \<le> ?b" using assms(4) OpObserve by (simp add: bucketStart_nonneg)
    moreover have "agg_current a < ?b \<Longrightarrow> agg_current a + agg_period a \<le> ?b"
      by (rule next_bucket [OF assms(2) bucketStart_aligned [OF assms(1)]])
    ultimately show ?thesis
      using assms OpObserve bucketStart_aligned [OF assms(1), of "stamp_of env now"]
      by (auto simp: Observe_def roll_def count_entry_def Let_def closeLocked_def split: if_splits)
  qed
qed

text \<open>Summaries in the order they are closed: disjoint periods, all after \<open>t\<close>.\<close>

fun chained :: "duration \<Rightarrow> time \<Rightarrow> LogSummary list \<Rightarrow> bool" where
  "chained p t [] = True"
| "chained p t (s # ss) =
     (t \<le> PeriodStart s \<and> aligned p (PeriodStart s) \<and> PeriodEnd s = PeriodStart s + p \<and>
      chained p (PeriodEnd s) ss)"

lemma chained_mono: "chained p t ss \<Longrightarrow> u \<le> t \<Longrightarrow> chained p u ss"
  by (cases ss) auto

lemma chained_bound: "0 < p \<Longrightarrow> chained p t ss \<Longrightarrow> s \<in> set ss \<Longrightarrow> t \<le> PeriodStart s"
proof (induction ss arbitrary: t)
  case (Cons x xs)
  then have "s = x \<or> s \<in> set xs \<and> PeriodEnd x \<le> PeriodStart s" by auto
  with Cons.prems(1,2) show ?case by auto
qed simp

lemma chained_sorted: "0 < p \<Longrightarrow> chained p t ss \<Longrightarrow> sorted_wrt (\<lambda>s u. PeriodEnd s \<le> PeriodStart u) ss"
  by (induction ss arbitrary: t) (auto dest: chained_bound)

lemma run_agg_chained:
  assumes "0 < agg_period a" and "aligned (agg_period a) (agg_current a)" and "zero_time \<le> agg_current a"
    and "list_all op_after_zero xs" and "run_agg a xs = (ss, a')"
  shows "chained (agg_period a) (agg_current a) ss \<and>
    (case ss of [] \<Rightarrow> True | c # cs \<Rightarrow> Partial c = agg_partial a \<and> list_all (Not \<circ> Partial) cs)"
  using assms
proof (induction xs arbitrary: a ss)
  case (Cons x xs)
  obtain s a1 where one: "agg_step a x = (s, a1)" by fastforce
  obtain ss' where rest: "run_agg a1 xs = (ss', a')" and ss: "ss = (case s of None \<Rightarrow> ss' | Some c \<Rightarrow> c # ss')"
    using Cons.prems(5) one by (auto simp: Let_def split: prod.splits)
  have p: "agg_period a1 = agg_period a" using agg_step_period [of a x] one by simp
  have "op_after_zero x" using Cons.prems(4) by simp
  note st = agg_step_period_moves [OF Cons.prems(1-3) this one]
  have IH: "chained (agg_period a) (agg_current a1) ss' \<and>
      (case ss' of [] \<Rightarrow> True | c # cs \<Rightarrow> Partial c = agg_partial a1 \<and> list_all (Not \<circ> Partial) cs)"
    using Cons.IH [OF _ _ _ _ rest] Cons.prems(1,3,4) st p by auto
  show ?case
  proof (cases s)
    case None
    with st IH ss show ?thesis by (auto simp: comp_def intro: chained_mono split: list.splits)
  next
    case (Some c)
    with st IH have "chained (agg_period a) (PeriodEnd c) ss'" "list_all (Not \<circ> Partial) ss'"
      by (auto intro: chained_mono split: list.splits)
    with st Some ss show ?thesis by simp
  qed
qed simp

section \<open>Properties of the summariser\<close>

text \<open>
  C7. No entry is lost or counted twice: whatever the interleaving of entries and ticks since
  the start, the counts of the summaries and of the open bucket add up to the entries observed,
  in total and for every gateway. (Below \<open>2 ^ 63\<close> entries, so that no counter wraps.)
\<close>

theorem summaries_conserve_entries:
  assumes "run_agg (NewAggregator p) ops = (ss, a)" and "int (length (observed ops)) < 2 ^ 63"
  shows "sum_list (map EntryCount ss) + agg_count a = int (length (observed ops)) \<and>
    sum_list (map (\<lambda>s. at_key (Breakdown s) k) ss) + at_key (agg_byKey a) k =
      int (length (filter (\<lambda>e. GatewayID e \<noteq> [] \<and> k = ''gateway:'' @ GatewayID e) (observed ops)))"
proof -
  have z: "agg_count (NewAggregator p) = 0" "at_key (agg_byKey (NewAggregator p)) k = 0"
    by (simp_all add: NewAggregator_def)
  then have "agg_count (NewAggregator p) + int (length (observed ops)) < 2 ^ 63" using assms(2) by simp
  from run_agg_counts [OF agg_inv_New this assms(1), of k] show ?thesis
    by (simp add: z counts_key_def [abs_def] gateway_key_def)
qed

definition example_entry :: "time \<Rightarrow> Envelope" where
  "example_entry t = zero_Envelope\<lparr>EventID := ''e'', GatewayID := ''gw'', ReceivedAt := t, Payload := ''{}''\<rparr>"

definition example_ops :: "agg_op list" where
  "example_ops = [OpObserve (example_entry (9 * hour + 1)) 0, OpTick (9 * hour + 2),
     OpObserve (example_entry (9 * hour + 7)) 0, OpTick (10 * hour + 5)]"

lemma example_ops_run:
  "\<exists>s a. run_agg (NewAggregator hour) example_ops = ([s], a) \<and>
     PeriodStart s = 9 * hour \<and> EntryCount s = 2 \<and> Partial s \<and> agg_count a = 0"
  by (simp add: example_ops_def NewAggregator_def Observe_def Tick_def roll_def count_entry_def bucketStart_def
      time_Truncate_def stamp_of_def example_entry_def zero_Envelope_def zero_time_def closeLocked_def Let_def
      wrap64_def)

theorem summaries_conserve_entries_witness:
  "\<exists>ss a. run_agg (NewAggregator hour) example_ops = (ss, a) \<and>
     sum_list (map EntryCount ss) + agg_count a = 2"
proof -
  obtain s a where run: "run_agg (NewAggregator hour) example_ops = ([s], a)"
    using example_ops_run by blast
  have "int (length (observed example_ops)) < 2 ^ 63" by (simp add: example_ops_def)
  from summaries_conserve_entries [OF run this] run show ?thesis
    by (intro exI [of _ "[s]"] exI [of _ a]) (simp add: example_ops_def)
qed

text \<open>
  C14. A period is summarised at most once: the summaries of a run cover clock-aligned periods
  of the configured length that are pairwise disjoint and in order, so the period identifies
  its summary, and of all of them exactly the first is marked partial.
\<close>

theorem summary_periods_are_identities:
  assumes "0 < p" and "list_all op_after_zero ops" and "run_agg (NewAggregator p) ops = (ss, a)"
  shows "sorted_wrt (\<lambda>s u. PeriodEnd s \<le> PeriodStart u) ss \<and> distinct (map PeriodStart ss) \<and>
    list_all (\<lambda>s. p dvd PeriodStart s \<and> PeriodEnd s = PeriodStart s + p) ss \<and>
    map Partial ss = replicate (min 1 (length ss)) True @ replicate (length ss - 1) False"
proof -
  let ?a = "NewAggregator p"
  have a: "agg_period ?a = p" "agg_current ?a = 0" "agg_partial ?a"
    by (simp_all add: NewAggregator_def zero_time_def)
  have c: "chained p 0 ss"
    and part: "case ss of [] \<Rightarrow> True | c # cs \<Rightarrow> Partial c \<and> list_all (Not \<circ> Partial) cs"
    using run_agg_chained [of ?a ops ss a] assms by (auto simp: a aligned_def zero_time_def split: list.splits)
  have all: "chained p t xs \<Longrightarrow> list_all (\<lambda>s. p dvd PeriodStart s \<and> PeriodEnd s = PeriodStart s + p) xs" for t xs
    by (induction xs arbitrary: t) (auto simp: aligned_def)
  have sorted: "sorted_wrt (\<lambda>s u. PeriodEnd s \<le> PeriodStart u) ss" by (rule chained_sorted [OF assms(1) c])
  then have "sorted_wrt (<) (map PeriodStart ss)"
    using all [OF c] assms(1) by (induction ss) (fastforce simp: sorted_wrt_map list_all_iff)+
  moreover have "map Partial ss = replicate (min 1 (length ss)) True @ replicate (length ss - 1) False"
    using part by (cases ss) (auto simp: list_all_iff map_replicate_const [symmetric])
  ultimately show ?thesis using sorted all [OF c] strict_sorted_iff by blast
qed

theorem summary_periods_are_identities_witness:
  "\<exists>ss a. run_agg (NewAggregator hour) example_ops = (ss, a) \<and> map Partial ss = [True]"
proof -
  obtain s a where run: "run_agg (NewAggregator hour) example_ops = ([s], a)"
    using example_ops_run by blast
  have "(0::int) < hour" "list_all op_after_zero example_ops"
    by (simp_all add: example_ops_def stamp_of_def example_entry_def zero_time_def)
  from summary_periods_are_identities [OF this run] run show ?thesis by fastforce
qed

text \<open>
  A quiet period is still summarised: once the clock has passed the end of an open,
  clock-aligned bucket, the next tick closes it with everything counted in it.
\<close>

theorem Tick_closes_elapsed_period:
  assumes "0 < agg_period a" and "agg_period a dvd agg_current a" and "agg_current a \<noteq> zero_time"
    and "agg_current a + agg_period a \<le> now"
  shows "\<exists>s b. Tick a now = (Some s, b) \<and> PeriodStart s = agg_current a \<and> EntryCount s = agg_count a \<and>
    Breakdown s = agg_byKey a \<and> agg_count b = 0 \<and> agg_current b \<le> now \<and> now < agg_current b + agg_period a"
proof -
  have "bucketStart a now = now - now mod agg_period a" using assms(1) by (simp add: bucketStart_def time_Truncate_def)
  moreover have "0 \<le> now mod agg_period a" "now mod agg_period a < agg_period a" using assms(1) by simp_all
  ultimately have "agg_current a < bucketStart a now" "bucketStart a now \<le> now"
    "now < bucketStart a now + agg_period a" using assms(1,4) by linarith+
  with assms(3) show ?thesis by (simp add: Tick_def closeLocked_def)
qed

theorem Tick_closes_elapsed_period_witness:
  "\<exists>s b. Tick ((NewAggregator hour)\<lparr>agg_current := 9 * hour, agg_count := 5\<rparr>) (10 * hour) = (Some s, b) \<and>
     EntryCount s = 5"
  using Tick_closes_elapsed_period [of "(NewAggregator hour)\<lparr>agg_current := 9 * hour, agg_count := 5\<rparr>" "10 * hour"]
  by (auto simp: NewAggregator_def zero_time_def)

text \<open>
  The bucket follows the stamps the entries carry, not the clock: after an entry stamped in
  a later period, no tick and no entry produces a summary until the clock or a stamp passes the
  end of that period, however far in the future it lies.
\<close>

theorem future_stamp_stalls_summaries:
  assumes "0 < agg_period a" and "bucketStart a (ReceivedAt env) > agg_current a" and "zero_time < agg_current a"
    and "Observe a env now = (s, a1)"
    and "list_all (\<lambda>x. case x of OpTick t \<Rightarrow> t < bucketStart a (ReceivedAt env) + agg_period a
           | OpObserve e t \<Rightarrow> stamp_of e t < bucketStart a (ReceivedAt env) + agg_period a) ops"
  shows "fst (run_agg a1 ops) = []"
proof -
  let ?b = "bucketStart a (ReceivedAt env)"
  have "ReceivedAt env \<noteq> zero_time"
  proof
    assume "ReceivedAt env = zero_time"
    with bucketStart_le [of a zero_time] assms(2,3) show False by simp
  qed
  then have stamp: "stamp_of env now = ReceivedAt env" by (simp add: stamp_of_def)
  have a1: "agg_period a1 = agg_period a" "agg_current a1 = ?b"
    using assms(2-4) by (auto simp: Observe_def roll_def count_entry_def stamp closeLocked_def Let_def split: if_splits)
  have "aligned (agg_period a) ?b" by (rule bucketStart_aligned [OF assms(1)])
  then have same: "bucketStart a2 t \<le> ?b" if "agg_period a2 = agg_period a" "t < ?b + agg_period a" for a2 t
    using that assms(1) bucketStart_aligned [of a2 t] bucketStart_le [of a2 t]
      zdvd_imp_le [of "agg_period a" "bucketStart a2 t - ?b"]
    by (auto simp: aligned_def not_le [symmetric] dest: dvd_diff)
  have "0 < ?b" using assms(2,3) by (simp add: zero_time_def)
  from a1 assms(5) show ?thesis
  proof (induction ops arbitrary: a1)
    case (Cons x xs)
    have one: "agg_step a1 x = (None, snd (agg_step a1 x)) \<and> agg_current (snd (agg_step a1 x)) = ?b"
    proof (cases x)
      case (OpObserve e t)
      with Cons.prems have "bucketStart a1 (stamp_of e t) \<le> ?b" by (intro same) simp_all
      with OpObserve Cons.prems(2) \<open>0 < ?b\<close> show ?thesis
        by (auto simp: Observe_def roll_def count_entry_def zero_time_def Let_def)
    next
      case (OpTick t)
      with Cons.prems have "bucketStart a1 t \<le> ?b" by (intro same) simp_all
      with OpTick Cons.prems(2) show ?thesis by (simp add: Tick_def)
    qed
    then have "fst (run_agg (snd (agg_step a1 x)) xs) = []" using Cons by simp
    with one show ?case by (cases "agg_step a1 x") (simp add: case_prod_unfold Let_def)
  qed simp
qed

theorem future_stamp_stalls_summaries_witness:
  "let a = (NewAggregator hour)\<lparr>agg_current := 9 * hour, agg_count := 5\<rparr>;
       a1 = snd (Observe a (example_entry (900000 * hour)) (9 * hour))
   in fst (run_agg a1 [OpTick (10 * hour), OpObserve (example_entry (11 * hour)) (11 * hour), OpTick (12 * hour)]) = []"
proof -
  define a where "a = (NewAggregator hour)\<lparr>agg_current := 9 * hour, agg_count := 5\<rparr>"
  have p: "agg_period a = hour" "agg_current a = 9 * hour" by (simp_all add: a_def NewAggregator_def)
  have b: "bucketStart a (ReceivedAt (example_entry (900000 * hour))) = 900000 * hour"
    by (simp add: bucketStart_def p time_Truncate_def example_entry_def)
  obtain s a1 where o: "Observe a (example_entry (900000 * hour)) (9 * hour) = (s, a1)" by fastforce
  show ?thesis
    unfolding a_def [symmetric] Let_def o snd_conv
    by (rule future_stamp_stalls_summaries [OF _ _ _ o])
       (simp_all only: b p, simp_all add: zero_time_def stamp_of_def example_entry_def)
qed

end
