(* ===== verification/GoTime.thy ===== *)
theory GoTime
  imports Prelude
begin

text \<open>
  The text forms of Go's \<open>time\<close> package that leave the process: \<open>Duration.Round\<close> and
  \<open>Duration.String\<close> (in notification bodies) and \<open>Time.Format(time.RFC3339)\<close> for UTC (in the
  id of a log summary), with the proof that the latter tells apart instants in different
  seconds.
\<close>

section \<open>Durations\<close>

definition duration_Round :: "duration \<Rightarrow> duration \<Rightarrow> duration" where
  "duration_Round d m =
     (if m \<le> 0 then d
      else let r = \<bar>d\<bar> mod m in
        if d < 0
        then (if 2 * r < m then d + r
              else let d1 = wrap64 (d - m + r) in if d1 < d then d1 else minInt64)
        else (if 2 * r < m then d - r
              else let d1 = wrap64 (d + m - r) in if d1 > d then d1 else maxInt64))"

text \<open>\<open>fmtFrac\<close>: the last \<open>prec\<close> digits of \<open>v\<close> as a fraction without trailing zeros.\<close>

fun fmt_frac :: "nat \<Rightarrow> nat \<Rightarrow> bool \<Rightarrow> string \<Rightarrow> string" where
  "fmt_frac 0 v printed acc = (if printed then CHR ''.'' # acc else acc)"
| "fmt_frac (Suc prec) v printed acc =
     (let dgt = v mod 10; p = (printed \<or> dgt \<noteq> 0)
      in fmt_frac prec (v div 10) p (if p then digit_char dgt # acc else acc))"

definition duration_String :: "duration \<Rightarrow> string" where
  "duration_String d =
     (let u = nat \<bar>d\<bar>;
          sign = (if d < 0 then ''-'' else []);
          body =
            (if u = 0 then ''0s''
             else if u < 1000 then show_nat u @ ''ns''
             else if u < 1000000 then show_nat (u div 1000) @ fmt_frac 3 u False [] @ [CHR 0xC2, CHR 0xB5, CHR ''s'']
             else if u < 1000000000 then show_nat (u div 1000000) @ fmt_frac 6 u False [] @ ''ms''
             else let s = u div 1000000000; m = s div 60; h = m div 60
               in (if h > 0 then show_nat h @ ''h'' else []) @
                  (if m > 0 then show_nat (m mod 60) @ ''m'' else []) @
                  show_nat (s mod 60) @ fmt_frac 9 u False [] @ ''s'')
      in sign @ body)"

section \<open>Calendar dates\<close>

definition is_leap :: "int \<Rightarrow> bool" where
  "is_leap y \<longleftrightarrow> y mod 4 = 0 \<and> (y mod 100 \<noteq> 0 \<or> y mod 400 = 0)"

definition month_lengths :: "bool \<Rightarrow> int list" where
  "month_lengths leap = [31, if leap then 29 else 28, 31, 30, 31, 30, 31, 31, 30, 31, 30, 31]"

text \<open>Year and day of the year (from 0) of a day number counted from 1 January of year 1.\<close>

definition year_yday :: "int \<Rightarrow> int \<times> int" where
  "year_yday d =
     (let n400 = d div 146097; r = d mod 146097;
          n100 = min 3 (r div 36524); r1 = r - 36524 * n100;
          n4 = r1 div 1461; r2 = r1 mod 1461;
          n1 = min 3 (r2 div 365)
      in (1 + 400 * n400 + 100 * n100 + 4 * n4 + n1, r2 - 365 * n1))"

fun month_day :: "nat \<Rightarrow> int list \<Rightarrow> int \<Rightarrow> nat \<times> int" where
  "month_day m [] d = (m, d + 1)"
| "month_day m (l # ls) d = (if d < l then (m, d + 1) else month_day (Suc m) ls (d - l))"

definition date_of :: "int \<Rightarrow> int \<times> nat \<times> int" where
  "date_of d = (let (y, yd) = year_yday d in (y, month_day 1 (month_lengths (is_leap y)) yd))"

definition days_before_year :: "int \<Rightarrow> int" where
  "days_before_year y = (let z = y - 1 in 365 * z + z div 4 - z div 100 + z div 400)"

definition day_number :: "int \<times> nat \<times> int \<Rightarrow> int" where
  "day_number x =
     (case x of (y, m, d) \<Rightarrow>
        days_before_year y + sum_list (take (m - 1) (month_lengths (is_leap y))) + d - 1)"

lemma year_yday_inverse: "case year_yday d of (y, yd) \<Rightarrow> days_before_year y + yd = d \<and> 0 \<le> yd"
proof -
  define a r where "a = d div 146097" and "r = d mod 146097"
  define b r1 where "b = min 3 (r div 36524)" and "r1 = r - 36524 * b"
  define c r2 where "c = r1 div 1461" and "r2 = r1 mod 1461"
  define e where "e = min 3 (r2 div 365)"
  have r: "d = 146097 * a + r" "0 \<le> r" "r < 146097" by (simp_all add: a_def r_def)
  have b: "0 \<le> b" "b \<le> 3" "0 \<le> r1" "r1 \<le> 36524" using r(2,3) unfolding b_def r1_def by (auto simp: min_def)
  have c: "r1 = 1461 * c + r2" "0 \<le> r2" "r2 < 1461" "0 \<le> c" "c \<le> 24"
    using b(3,4) unfolding c_def r2_def by auto
  have e: "0 \<le> e" "e \<le> 3" "0 \<le> r2 - 365 * e" using c(2,3) unfolding e_def by (auto simp: min_def)
  let ?z = "400 * a + 100 * b + 4 * c + e"
  have "?z div 4 = 100 * a + 25 * b + c" "?z div 100 = 4 * a + b" "?z div 400 = a"
    using b(1,2) c(4,5) e(1,2) by linarith+
  then have "days_before_year (1 + ?z) + (r2 - 365 * e) = d"
    using r(1) c(1) unfolding days_before_year_def Let_def r1_def by simp
  moreover have "year_yday d = (1 + ?z, r2 - 365 * e)"
    unfolding year_yday_def Let_def a_def [symmetric] r_def [symmetric] b_def [symmetric] r1_def [symmetric]
      c_def [symmetric] r2_def [symmetric] e_def [symmetric] by simp
  ultimately show ?thesis using e(3) by simp
qed

lemma month_day_inverse:
  "case month_day m ls d of (m', d') \<Rightarrow>
     m \<le> m' \<and> m' \<le> m + length ls \<and> sum_list (take (m' - m) ls) + d' - 1 = d \<and> (0 \<le> d \<longrightarrow> 1 \<le> d') \<and>
     (list_all (\<lambda>l. l \<le> 31) ls \<and> d \<le> sum_list ls + 30 \<longrightarrow> d' \<le> 31)"
proof (induction m ls d rule: month_day.induct)
  case (2 m l ls d)
  show ?case
  proof (cases "d < l")
    case False
    obtain m' d' where md: "month_day (Suc m) ls (d - l) = (m', d')" by fastforce
    with 2 [OF False] have "Suc m \<le> m'" by simp
    then have "take (m' - m) (l # ls) = l # take (m' - Suc m) ls" by (simp add: take_Cons' Suc_diff_Suc [symmetric])
    with False md 2 [OF False] show ?thesis by auto
  qed auto
qed simp

lemma day_number_date_of: "day_number (date_of d) = d"
proof -
  obtain y yd where y: "year_yday d = (y, yd)" by fastforce
  obtain m k where m: "month_day 1 (month_lengths (is_leap y)) yd = (m, k)" by fastforce
  from month_day_inverse [of 1 "month_lengths (is_leap y)" yd] m
  have "sum_list (take (m - 1) (month_lengths (is_leap y))) + k - 1 = yd" by simp
  with year_yday_inverse [of d] y m show ?thesis by (simp add: date_of_def day_number_def)
qed

section \<open>RFC 3339\<close>

definition pad2 :: "nat \<Rightarrow> string" where
  "pad2 n = [digit_char (n div 10), digit_char (n mod 10)]"

definition pad_year :: "int \<Rightarrow> string" where
  "pad_year y =
     (let s = show_nat (nat \<bar>y\<bar>) in (if y < 0 then ''-'' else []) @ replicate (4 - length s) CHR ''0'' @ s)"

definition format_RFC3339 :: "time \<Rightarrow> string" where
  "format_RFC3339 t =
     (let s = t div second; sod = nat (s mod 86400) in
      case date_of (s div 86400) of
        (y, m, d) \<Rightarrow>
          pad_year y @ ''-'' @ pad2 m @ ''-'' @ pad2 (nat d) @ ''T'' @ pad2 (sod div 3600) @ '':'' @
          pad2 (sod div 60 mod 60) @ '':'' @ pad2 (sod mod 60) @ ''Z'')"

lemma digit_char_inj: "m < 10 \<Longrightarrow> n < 10 \<Longrightarrow> digit_char m = digit_char n \<Longrightarrow> m = n"
  by (metis digit_char_props(2))

lemma pad2_inj: "m < 100 \<Longrightarrow> n < 100 \<Longrightarrow> pad2 m = pad2 n \<Longrightarrow> m = n"
proof -
  assume "m < 100" "n < 100" "pad2 m = pad2 n"
  then have "m div 10 = n div 10" "m mod 10 = n mod 10" by (auto simp: pad2_def intro: digit_char_inj)
  then show "m = n" by (metis div_mult_mod_eq)
qed

lemma length_pad2 [simp]: "length (pad2 n) = 2"
  by (simp add: pad2_def)

lemma digits_val_zeros: "digits_val 0 (replicate k CHR ''0'' @ s) = digits_val 0 s"
  by (induction k) (simp_all add: digit_val_def)

lemma pad_year_inj: "0 \<le> y \<Longrightarrow> 0 \<le> z \<Longrightarrow> pad_year y = pad_year z \<Longrightarrow> y = z"
proof -
  assume y: "0 \<le> y" "0 \<le> z" and eq: "pad_year y = pad_year z"
  have "digits_val 0 (pad_year x) = nat x" if "0 \<le> x" for x
    using that by (simp add: pad_year_def Let_def digits_val_zeros)
  then show ?thesis using y eq by (metis eq_nat_nat_iff)
qed

lemma year_yday_bounds: "0 \<le> d \<Longrightarrow> 1 \<le> fst (year_yday d)" "0 \<le> snd (year_yday d)" "snd (year_yday d) \<le> 365"
proof -
  define r where "r = d mod 146097"
  define b r1 where "b = min 3 (r div 36524)" and "r1 = r - 36524 * b"
  define r2 where "r2 = r1 mod 1461"
  define e where "e = min 3 (r2 div 365)"
  have r: "0 \<le> r" "r < 146097" by (simp_all add: r_def)
  then have b: "0 \<le> b" "0 \<le> r1" unfolding b_def r1_def by (auto simp: min_def)
  have r2: "0 \<le> r2" "r2 < 1461" by (simp_all add: r2_def)
  have e: "0 \<le> e" "0 \<le> r2 - 365 * e" "r2 - 365 * e \<le> 365" using r2 unfolding e_def by (auto simp: min_def)
  have y: "year_yday d = (1 + 400 * (d div 146097) + 100 * b + 4 * (r1 div 1461) + e, r2 - 365 * e)"
    unfolding year_yday_def Let_def r_def [symmetric] b_def [symmetric] r1_def [symmetric]
      r2_def [symmetric] e_def [symmetric] by simp
  show "0 \<le> snd (year_yday d)" "snd (year_yday d) \<le> 365" using e by (simp_all add: y)
  show "1 \<le> fst (year_yday d)" if "0 \<le> d"
    using that b e(1) pos_imp_zdiv_nonneg_iff [of 146097 d] pos_imp_zdiv_nonneg_iff [of 1461 r1] by (simp add: y)
qed

lemma date_of_bounds:
  assumes "0 \<le> d" and "date_of d = (y, m, k)"
  shows "1 \<le> y" "m < 100" "1 \<le> k" "k < 100"
proof -
  obtain yd where y: "year_yday d = (y, yd)" and m: "month_day 1 (month_lengths (is_leap y)) yd = (m, k)"
    using assms(2) by (auto simp: date_of_def split: prod.splits)
  have yd: "1 \<le> y" "0 \<le> yd" "yd \<le> 365" using year_yday_bounds [of d] assms(1) y by simp_all
  have "list_all (\<lambda>l. l \<le> 31) (month_lengths (is_leap y))" "yd \<le> sum_list (month_lengths (is_leap y)) + 30"
    using yd(3) by (simp_all add: month_lengths_def)
  with month_day_inverse [of 1 "month_lengths (is_leap y)" yd] m yd
  have "m \<le> 1 + length (month_lengths (is_leap y))" "1 \<le> k" "k \<le> 31" by simp_all
  with yd(1) show "1 \<le> y" "m < 100" "1 \<le> k" "k < 100" by (simp_all add: month_lengths_def)
qed

text \<open>The parts of a text are read off by position.\<close>

lemma format_parts:
  assumes "ys @ ''-'' @ pad2 a @ ''-'' @ pad2 b @ ''T'' @ pad2 c @ '':'' @ pad2 d @ '':'' @ pad2 e @ ''Z'' =
    ys' @ ''-'' @ pad2 a' @ ''-'' @ pad2 b' @ ''T'' @ pad2 c' @ '':'' @ pad2 d' @ '':'' @ pad2 e' @ ''Z''"
  shows "ys = ys' \<and> pad2 a = pad2 a' \<and> pad2 b = pad2 b' \<and> pad2 c = pad2 c' \<and> pad2 d = pad2 d' \<and> pad2 e = pad2 e'"
  using assms by (simp add: append_eq_append_conv)

lemma clock_parts: "(m::nat) div 3600 = n div 3600 \<Longrightarrow> m div 60 mod 60 = n div 60 mod 60 \<Longrightarrow> m mod 60 = n mod 60 \<Longrightarrow> m = n"
proof -
  assume h: "m div 3600 = n div 3600" "m div 60 mod 60 = n div 60 mod 60" "m mod 60 = n mod 60"
  have "m div 60 div 60 = n div 60 div 60" using h(1) by (simp add: div_mult2_eq [symmetric])
  with h(2) have "m div 60 = n div 60" by (metis div_mult_mod_eq)
  with h(3) show "m = n" by (metis div_mult_mod_eq)
qed

text \<open>The text of an instant determines the second it lies in.\<close>

lemma format_RFC3339_inj:
  assumes "0 \<le> t" and "0 \<le> u" and "format_RFC3339 t = format_RFC3339 u"
  shows "t div second = u div second"
proof -
  define a b where "a = t div second" and "b = u div second"
  obtain y m d where da: "date_of (a div 86400) = (y, m, d)" by (metis prod_cases3)
  obtain y' m' d' where db: "date_of (b div 86400) = (y', m', d')" by (metis prod_cases3)
  have nn: "0 \<le> a div 86400" "0 \<le> b div 86400"
    using assms(1,2) by (simp_all add: a_def b_def pos_imp_zdiv_nonneg_iff)
  note ba = date_of_bounds [OF nn(1) da] and bb = date_of_bounds [OF nn(2) db]
  let ?s = "nat (a mod 86400)" and ?s' = "nat (b mod 86400)"
  have s: "?s < 86400" "?s' < 86400" by simp_all
  from assms(3) have eq: "pad_year y @ ''-'' @ pad2 m @ ''-'' @ pad2 (nat d) @ ''T'' @ pad2 (?s div 3600) @ '':'' @
        pad2 (?s div 60 mod 60) @ '':'' @ pad2 (?s mod 60) @ ''Z'' =
      pad_year y' @ ''-'' @ pad2 m' @ ''-'' @ pad2 (nat d') @ ''T'' @ pad2 (?s' div 3600) @ '':'' @
        pad2 (?s' div 60 mod 60) @ '':'' @ pad2 (?s' mod 60) @ ''Z''"
    unfolding format_RFC3339_def Let_def a_def [symmetric] b_def [symmetric] da db prod.case .
  from format_parts [OF eq] have yy: "pad_year y = pad_year y'" and
    eqs: "pad2 m = pad2 m'" "pad2 (nat d) = pad2 (nat d')" "pad2 (?s div 3600) = pad2 (?s' div 3600)"
    "pad2 (?s div 60 mod 60) = pad2 (?s' div 60 mod 60)" "pad2 (?s mod 60) = pad2 (?s' mod 60)"
    by blast+
  have "y = y'" using pad_year_inj [OF _ _ yy] ba(1) bb(1) by simp
  moreover have "m = m'" by (rule pad2_inj [OF ba(2) bb(2) eqs(1)])
  moreover have "d = d'" using pad2_inj [OF _ _ eqs(2)] ba(3,4) bb(3,4) by (simp add: nat_less_iff)
  ultimately have day: "a div 86400 = b div 86400" using da db by (metis day_number_date_of)
  have lt: "x mod 60 < 100" for x :: nat by (rule less_trans [of _ 60]) simp_all
  have "?s div 3600 = ?s' div 3600" using s by (intro pad2_inj [OF _ _ eqs(3)]) (simp_all add: div_less_iff_less_mult)
  moreover have "?s div 60 mod 60 = ?s' div 60 mod 60" by (rule pad2_inj [OF lt lt eqs(4)])
  moreover have "?s mod 60 = ?s' mod 60" by (rule pad2_inj [OF lt lt eqs(5)])
  ultimately have "?s = ?s'" by (rule clock_parts)
  then have "a mod 86400 = b mod 86400" by (simp add: eq_nat_nat_iff)
  with day show ?thesis unfolding a_def b_def by (metis div_mult_mod_eq)
qed

end
