(* ===== verification/Anomaly.thy ===== *)
theory Anomaly
  imports Stub GoTime "HOL-Library.AList"
begin

text \<open>
  The anomaly detector (\<open>internal/observability/anomaly.go\<close>): one state per pair of anomaly
  type and scope, a sustain window before a condition counts, and a cooldown and an hourly
  ceiling on what support is told. Every call of \<open>Observe\<close> holds the detector's mutex, so a
  run of the detector is a sequence of calls; the lemmas on runs hold for arbitrary
  interleavings of conditions. The notifier is the interface of \<open>Stub\<close>.
\<close>

section \<open>The detector\<close>

datatype AnomalyType =
  LagThreshold | DispatchDropRate | SourceUnavailable | EntriesTrimmed | LogListDepth

fun AnomalyType_string :: "AnomalyType \<Rightarrow> string" where
  "AnomalyType_string LagThreshold = ''lag_threshold''"
| "AnomalyType_string DispatchDropRate = ''dispatch_drop_rate''"
| "AnomalyType_string SourceUnavailable = ''source_unavailable''"
| "AnomalyType_string EntriesTrimmed = ''entries_trimmed''"
| "AnomalyType_string LogListDepth = ''log_list_depth''"

record anomalyState =
  st_active :: bool
  startedAt :: time
  breachedAt :: time
  lastNotified :: time
  sentThisHour :: int
  hourStart :: time
  st_detail :: string

definition new_state :: "time \<Rightarrow> anomalyState" where
  "new_state now =
     \<lparr>st_active = False, startedAt = zero_time, breachedAt = zero_time, lastNotified = zero_time,
      sentThisHour = 0, hourStart = now, st_detail = []\<rparr>"

text \<open>\<open>None\<close> is the nil notifier; \<open>states\<close> is the map, iterated by \<open>Active\<close>.\<close>

record 'n Detector =
  cooldown :: duration
  maxPerHour :: int
  sustainFor :: duration
  det_notifier :: "'n Notifier option"
  det_log :: logger
  states :: "(string \<times> anomalyState) list"

definition NewDetector ::
  "duration \<Rightarrow> int \<Rightarrow> duration \<Rightarrow> 'n Notifier option \<Rightarrow> logger \<Rightarrow> 'n Detector" where
  "NewDetector cool mx sustain n lg =
     \<lparr>cooldown = cool, maxPerHour = mx, sustainFor = sustain, det_notifier = n, det_log = lg, states = []\<rparr>"

definition notified :: "AnomalyType \<Rightarrow> string \<Rightarrow> 'n world \<Rightarrow> 'n world" where
  "notified t result = counter_Inc ''conflux_notifications_sent_total'' [AnomalyType_string t, result]"

text \<open>\<open>send\<close>, first part: the hourly window moves on.\<close>

definition roll_hour :: "anomalyState \<Rightarrow> time \<Rightarrow> anomalyState" where
  "roll_hour st now =
     (if time_Sub now (hourStart st) \<ge> hour then st\<lparr>hourStart := now, sentThisHour := 0\<rparr> else st)"

text \<open>The gates, when the notification is not forced: the label of the one that suppresses it.\<close>

definition gate :: "'n Detector \<Rightarrow> anomalyState \<Rightarrow> time \<Rightarrow> bool \<Rightarrow> string option" where
  "gate d st now force =
     (if force then None
      else if lastNotified st \<noteq> zero_time \<and> time_Sub now (lastNotified st) < cooldown d
        then Some ''suppressed_cooldown''
      else if sentThisHour st \<ge> maxPerHour d then Some ''suppressed_ceiling''
      else None)"

definition send ::
  "'n Detector \<Rightarrow> AnomalyType \<Rightarrow> string \<Rightarrow> string \<Rightarrow> string \<Rightarrow> anomalyState \<Rightarrow> time \<Rightarrow> bool \<Rightarrow> 'n world \<Rightarrow>
   anomalyState \<times> 'n world" where
  "send d t scope subject body st now force w =
     (let st1 = roll_hour st now in
      case gate d st1 now force of
        Some label \<Rightarrow> (st1, notified t label w)
      | None \<Rightarrow>
          (case det_notifier d of
             None \<Rightarrow> (st1, notified t ''no_notifier'' w)
           | Some notify \<Rightarrow>
               (case notify subject body w of
                  (Some err, w1) \<Rightarrow>
                    (st1, log_at (det_log d) LError ''notification failed''
                       [(''component'', AStr ''anomaly''), (''type'', AStr (AnomalyType_string t)),
                        (''error'', AStr (error_Error err))] (notified t ''failed'' w1))
                | (None, w1) \<Rightarrow>
                    (st1\<lparr>lastNotified := now, sentThisHour := wrap64 (sentThisHour st1 + 1)\<rparr>,
                     notified t ''sent'' w1))))"

definition state_key :: "AnomalyType \<Rightarrow> string \<Rightarrow> string" where
  "state_key t scope = AnomalyType_string t @ ''|'' @ scope"

definition lookup_state :: "'n Detector \<Rightarrow> AnomalyType \<Rightarrow> string \<Rightarrow> time \<Rightarrow> anomalyState" where
  "lookup_state d t scope now =
     (case map_of (states d) (state_key t scope) of Some st \<Rightarrow> st | None \<Rightarrow> new_state now)"

definition resolved_subject :: "AnomalyType \<Rightarrow> string \<Rightarrow> string" where
  "resolved_subject t scope = ''RESOLVED: '' @ AnomalyType_string t @ '' on '' @ scope"

definition resolved_body :: "anomalyState \<Rightarrow> time \<Rightarrow> string" where
  "resolved_body st now =
     ''Cleared after '' @ duration_String (duration_Round (time_Sub now (startedAt st)) second) @
     ''. Last detail: '' @ st_detail st"

text \<open>\<open>Observe\<close> on the state of its key: the branch of a condition that does not hold, and the
  branch of one that does.\<close>

definition observe_clear ::
  "'n Detector \<Rightarrow> AnomalyType \<Rightarrow> string \<Rightarrow> anomalyState \<Rightarrow> time \<Rightarrow> 'n world \<Rightarrow> anomalyState \<times> 'n world" where
  "observe_clear d t scope st now w =
     (let st1 = st\<lparr>breachedAt := zero_time\<rparr> in
      if st_active st1 then
        (let st2 = st1\<lparr>st_active := False\<rparr>;
             w1 = gauge_Set ''conflux_anomalies_active'' [AnomalyType_string t] 0 w;
             w2 = log_at (det_log d) LInfo ''anomaly cleared''
                    [(''component'', AStr ''anomaly''), (''type'', AStr (AnomalyType_string t)),
                     (''scope'', AStr scope), (''duration'', ADur (time_Sub now (startedAt st2)))] w1
         in send d t scope (resolved_subject t scope) (resolved_body st2 now) st2 now True w2)
      else (st1, w))"

definition observe_breach ::
  "'n Detector \<Rightarrow> AnomalyType \<Rightarrow> string \<Rightarrow> bool \<Rightarrow> string \<Rightarrow> anomalyState \<Rightarrow> time \<Rightarrow> 'n world \<Rightarrow>
   anomalyState \<times> 'n world" where
  "observe_breach d t scope sustain detail st now w =
     (let st1 = st\<lparr>st_detail := detail\<rparr>;
          st2 = (if breachedAt st1 = zero_time then st1\<lparr>breachedAt := now\<rparr> else st1)
      in if sustain \<and> time_Sub now (breachedAt st2) < sustainFor d then (st2, w)
         else
           (let (st3, w1) =
              (if \<not> st_active st2
               then (st2\<lparr>st_active := True, startedAt := breachedAt st2\<rparr>,
                     log_at (det_log d) LWarn ''anomaly detected''
                       [(''component'', AStr ''anomaly''), (''type'', AStr (AnomalyType_string t)),
                        (''scope'', AStr scope), (''detail'', AStr detail)]
                       (gauge_Set ''conflux_anomalies_active'' [AnomalyType_string t] 1 w))
               else (st2, w))
            in send d t scope (AnomalyType_string t @ '' on '' @ scope) detail st3 now False w1))"

definition Detector_Observe ::
  "'n Detector \<Rightarrow> AnomalyType \<Rightarrow> string \<Rightarrow> bool \<Rightarrow> bool \<Rightarrow> string \<Rightarrow> time \<Rightarrow> 'n world \<Rightarrow> 'n Detector \<times> 'n world" where
  "Detector_Observe d t scope breached sustain detail now w =
     (let st = lookup_state d t scope now;
          (st', w') = (if \<not> breached then observe_clear d t scope st now w
                       else observe_breach d t scope sustain detail st now w)
      in (d\<lparr>states := AList.update (state_key t scope) st' (states d)\<rparr>, w'))"

definition Active :: "'n Detector \<Rightarrow> nat" where
  "Active d = length (filter (\<lambda>(k, st). st_active st) (states d))"

section \<open>Runs of the detector\<close>

record observation =
  ob_type :: AnomalyType
  ob_scope :: string
  ob_breached :: bool
  ob_sustain :: bool
  ob_detail :: string
  ob_now :: time

definition observe_one :: "'n Detector \<times> 'n world \<Rightarrow> observation \<Rightarrow> 'n Detector \<times> 'n world" where
  "observe_one dw x =
     Detector_Observe (fst dw) (ob_type x) (ob_scope x) (ob_breached x) (ob_sustain x) (ob_detail x) (ob_now x) (snd dw)"

definition run_detector :: "'n Detector \<Rightarrow> observation list \<Rightarrow> 'n world \<Rightarrow> 'n Detector \<times> 'n world" where
  "run_detector d xs w = foldl observe_one (d, w) xs"

definition about :: "AnomalyType \<Rightarrow> string \<Rightarrow> observation \<Rightarrow> bool" where
  "about t s x \<longleftrightarrow> ob_type x = t \<and> ob_scope x = s"

definition state_of :: "'n Detector \<Rightarrow> AnomalyType \<Rightarrow> string \<Rightarrow> anomalyState option" where
  "state_of d t s = map_of (states d) (state_key t s)"

definition is_active :: "'n Detector \<Rightarrow> AnomalyType \<Rightarrow> string \<Rightarrow> bool" where
  "is_active d t s = (case state_of d t s of None \<Rightarrow> False | Some st \<Rightarrow> st_active st)"

text \<open>Distinct conditions have distinct keys, so they do not share state.\<close>

lemma state_key_inj: "state_key t s = state_key u r \<longleftrightarrow> t = u \<and> s = r"
  by (cases t; cases u) (simp_all add: state_key_def)

definition observe_state ::
  "'n Detector \<Rightarrow> observation \<Rightarrow> anomalyState \<Rightarrow> 'n world \<Rightarrow> anomalyState \<times> 'n world" where
  "observe_state d x st w =
     (if \<not> ob_breached x then observe_clear d (ob_type x) (ob_scope x) st (ob_now x) w
      else observe_breach d (ob_type x) (ob_scope x) (ob_sustain x) (ob_detail x) st (ob_now x) w)"

definition state_or_new :: "'n Detector \<Rightarrow> observation \<Rightarrow> anomalyState" where
  "state_or_new d x = lookup_state d (ob_type x) (ob_scope x) (ob_now x)"

text \<open>One call works on the state of its own key and nothing else.\<close>

lemma observe_one_eq:
  "observe_one (d, w) x =
     (d\<lparr>states := AList.update (state_key (ob_type x) (ob_scope x))
          (fst (observe_state d x (state_or_new d x) w)) (states d)\<rparr>,
      snd (observe_state d x (state_or_new d x) w))"
  by (simp add: observe_one_def Detector_Observe_def observe_state_def state_or_new_def case_prod_unfold Let_def)

lemma state_of_observe_one:
  "state_of (fst (observe_one (d, w) x)) t s =
     (if about t s x then Some (fst (observe_state d x (state_or_new d x) w)) else state_of d t s)"
  by (simp add: observe_one_eq state_of_def about_def update_conv' state_key_inj)

lemma state_or_new_eq:
  "about t s x \<Longrightarrow> state_or_new d x = (case state_of d t s of Some st \<Rightarrow> st | None \<Rightarrow> new_state (ob_now x))"
  by (auto simp: state_or_new_def lookup_state_def state_of_def about_def)

lemma observe_one_config [simp]:
  "cooldown (fst (observe_one dw x)) = cooldown (fst dw)"
  "maxPerHour (fst (observe_one dw x)) = maxPerHour (fst dw)"
  "sustainFor (fst (observe_one dw x)) = sustainFor (fst dw)"
  "det_notifier (fst (observe_one dw x)) = det_notifier (fst dw)"
  "det_log (fst (observe_one dw x)) = det_log (fst dw)"
  by (cases dw, simp add: observe_one_eq)+

lemma run_detector_config [simp]:
  "cooldown (fst (run_detector d xs w)) = cooldown d"
  "maxPerHour (fst (run_detector d xs w)) = maxPerHour d"
  "sustainFor (fst (run_detector d xs w)) = sustainFor d"
  "det_notifier (fst (run_detector d xs w)) = det_notifier d"
  by (induction xs rule: rev_induct) (simp_all add: run_detector_def)

lemma run_detector_snoc: "run_detector d (xs @ [x]) w = observe_one (run_detector d xs w) x"
  by (simp add: run_detector_def)

text \<open>What a call of \<open>send\<close> leaves of a state.\<close>

lemma send_keeps:
  "st_active (fst (send d t sc sub b st now f w)) = st_active st"
  "breachedAt (fst (send d t sc sub b st now f w)) = breachedAt st"
  "startedAt (fst (send d t sc sub b st now f w)) = startedAt st"
  "st_detail (fst (send d t sc sub b st now f w)) = st_detail st"
  by (simp_all add: send_def roll_hour_def Let_def split: option.split prod.split)

section \<open>The sustain window\<close>

text \<open>The specification: the start of the current unbroken breach in a history.\<close>

definition extend_breach :: "time option \<Rightarrow> observation \<Rightarrow> time option" where
  "extend_breach b x =
     (if ob_breached x then (case b of None \<Rightarrow> Some (ob_now x) | Some t \<Rightarrow> Some t) else None)"

definition breach_start :: "observation list \<Rightarrow> time option" where
  "breach_start xs = foldl extend_breach None xs"

definition sustained :: "duration \<Rightarrow> observation list \<Rightarrow> bool" where
  "sustained d xs \<longleftrightarrow>
     (case breach_start xs of None \<Rightarrow> False | Some b \<Rightarrow> d \<le> time_Sub (ob_now (last xs)) b)"

lemma time_Sub_mono: "t \<le> t' \<Longrightarrow> time_Sub t u \<le> time_Sub t' u"
  by (auto simp: time_Sub_def)

lemma breach_start_nonempty: "breach_start xs = Some b \<Longrightarrow> xs \<noteq> []"
  by (auto simp: breach_start_def)

lemma breach_start_mem: "breach_start xs = Some b \<Longrightarrow> b \<in> ob_now ` set xs"
  by (induction xs arbitrary: b rule: rev_induct)
     (auto simp: breach_start_def extend_breach_def split: if_splits option.splits)

text \<open>The state of a key follows its history.\<close>

definition follows :: "duration \<Rightarrow> observation list \<Rightarrow> anomalyState option \<Rightarrow> bool" where
  "follows d xs st \<longleftrightarrow>
     (case st of
        None \<Rightarrow> xs = []
      | Some st \<Rightarrow> breachedAt st = (case breach_start xs of None \<Rightarrow> zero_time | Some b \<Rightarrow> b) \<and>
          st_active st = sustained d xs)"

lemma observe_state_follows:
  assumes "follows (sustainFor d) xs so" and "st = (case so of Some st \<Rightarrow> st | None \<Rightarrow> new_state (ob_now x))"
    and "ob_sustain x" and "list_all (\<lambda>y. zero_time < ob_now y \<and> ob_now y \<le> ob_now x) (xs @ [x])"
  shows "follows (sustainFor d) (xs @ [x]) (Some (fst (observe_state d x st w)))"
proof -
  have st: "breachedAt st = (case breach_start xs of None \<Rightarrow> zero_time | Some b \<Rightarrow> b)"
    "st_active st = sustained (sustainFor d) xs"
    using assms(1,2) by (auto simp: follows_def new_state_def breach_start_def sustained_def split: option.splits)
  have bs: "breach_start (xs @ [x]) = extend_breach (breach_start xs) x" by (simp add: breach_start_def)
  show ?thesis
  proof (cases "ob_breached x")
    case False
    then show ?thesis
      by (simp add: follows_def bs sustained_def extend_breach_def observe_state_def observe_clear_def Let_def
          send_keeps)
  next
    case True
    let ?b = "case breach_start xs of None \<Rightarrow> ob_now x | Some b \<Rightarrow> b"
    have b: "breach_start (xs @ [x]) = Some ?b" using True by (auto simp: bs extend_breach_def split: option.split)
    have nz: "b \<noteq> zero_time" if "breach_start xs = Some b" for b
      using breach_start_mem [OF that] assms(4) by (auto simp: list_all_iff)
    have now: "ob_now x \<noteq> zero_time" using assms(4) by simp
    have keep: "sustained (sustainFor d) (xs @ [x])" if "sustained (sustainFor d) xs"
    proof -
      from that obtain b' where b': "breach_start xs = Some b'" "sustainFor d \<le> time_Sub (ob_now (last xs)) b'"
        by (auto simp: sustained_def split: option.splits)
      have "ob_now (last xs) \<le> ob_now x"
        using assms(4) breach_start_nonempty [OF b'(1)] by (auto simp: list_all_iff)
      from time_Sub_mono [OF this, of b'] b'(2) show ?thesis by (simp add: sustained_def b b'(1))
    qed
    have sus: "sustained (sustainFor d) (xs @ [x]) \<longleftrightarrow> sustainFor d \<le> time_Sub (ob_now x) ?b"
      by (simp add: sustained_def b)
    have eff: "breachedAt (st\<lparr>st_detail := dt, breachedAt := if breachedAt st = zero_time then ob_now x else breachedAt st\<rparr>) = ?b" for dt
      using st(1) nz by (auto split: option.splits)
    show ?thesis
      using True assms(3) st(2) keep sus eff now
      by (auto simp: follows_def b observe_state_def observe_breach_def Let_def send_keeps not_less split: if_splits)
  qed
qed

text \<open>Observations in the order of the clock.\<close>

definition in_time :: "observation list \<Rightarrow> bool" where
  "in_time xs \<longleftrightarrow> sorted (map ob_now xs) \<and> list_all (\<lambda>x. zero_time < ob_now x) xs"

lemma in_time_snoc: "in_time (xs @ [x]) \<Longrightarrow> in_time xs \<and> list_all (\<lambda>y. zero_time < ob_now y \<and> ob_now y \<le> ob_now x) (xs @ [x])"
  by (auto simp: in_time_def sorted_append list_all_iff)

lemma run_follows:
  assumes "states d = []" and "in_time xs" and "list_all (\<lambda>x. about t s x \<longrightarrow> ob_sustain x) xs"
  shows "follows (sustainFor d) (filter (about t s) xs) (state_of (fst (run_detector d xs w)) t s)"
  using assms(2,3)
proof (induction xs rule: rev_induct)
  case Nil
  with assms(1) show ?case by (simp add: follows_def run_detector_def state_of_def)
next
  case (snoc x xs)
  obtain d1 w1 where r: "run_detector d xs w = (d1, w1)" by fastforce
  have d1: "sustainFor d1 = sustainFor d" using run_detector_config(3) [of d xs w] r by simp
  have IH: "follows (sustainFor d1) (filter (about t s) xs) (state_of d1 t s)"
    using snoc in_time_snoc r d1 by fastforce
  show ?case
  proof (cases "about t s x")
    case False
    with IH r d1 show ?thesis by (simp add: run_detector_snoc state_of_observe_one)
  next
    case True
    have "list_all (\<lambda>y. zero_time < ob_now y \<and> ob_now y \<le> ob_now x) (filter (about t s) xs @ [x])"
      using in_time_snoc [OF snoc.prems(1)] by (auto simp: list_all_iff)
    from observe_state_follows [OF IH state_or_new_eq [OF True] _ this] snoc.prems(2) True r d1
    show ?thesis by (simp add: run_detector_snoc state_of_observe_one)
  qed
qed

section \<open>The cooldown and the ceiling\<close>

definition sent_total :: "AnomalyType \<Rightarrow> 'n world \<Rightarrow> nat" where
  "sent_total t w = counters w (''conflux_notifications_sent_total'', [AnomalyType_string t, ''sent''])"

text \<open>The instants at which support was successfully told that the condition holds.\<close>

definition alerted :: "AnomalyType \<Rightarrow> string \<Rightarrow> observation \<Rightarrow> 'n world \<Rightarrow> 'n world \<Rightarrow> bool" where
  "alerted t s x w w' \<longleftrightarrow> about t s x \<and> ob_breached x \<and> sent_total t w < sent_total t w'"

fun alerts :: "AnomalyType \<Rightarrow> string \<Rightarrow> 'n Detector \<times> 'n world \<Rightarrow> observation list \<Rightarrow> time list" where
  "alerts t s dw [] = []"
| "alerts t s dw (x # xs) =
     (if alerted t s x (snd dw) (snd (observe_one dw x)) then [ob_now x] else []) @
     alerts t s (observe_one dw x) xs"

lemma alerts_append: "alerts t s dw (xs @ ys) = alerts t s dw xs @ alerts t s (foldl observe_one dw xs) ys"
  by (induction xs arbitrary: dw) simp_all

text \<open>A window starts at \<open>h\<close>, in which \<open>c\<close> notifications were sent so far; the alerts \<open>A\<close> keep
  within the budget \<open>m\<close> of every window.\<close>

definition cnt :: "(time \<Rightarrow> bool) \<Rightarrow> time list \<Rightarrow> int" where
  "cnt P A = int (length (filter P A))"

lemma cnt_simps [simp]: "cnt P [] = 0" "cnt P (A @ [x]) = cnt P A + (if P x then 1 else 0)" "0 \<le> cnt P A"
  by (simp_all add: cnt_def)

lemma cnt_mono: "(\<And>x. x \<in> set A \<Longrightarrow> P x \<Longrightarrow> Q x) \<Longrightarrow> cnt P A \<le> cnt Q A"
proof -
  assume "\<And>x. x \<in> set A \<Longrightarrow> P x \<Longrightarrow> Q x"
  then have "length (filter P A) \<le> length (filter Q A)" by (induction A) (auto intro: le_SucI)
  then show ?thesis by (simp add: cnt_def)
qed

lemma cnt_split: "(\<And>x. R x \<longleftrightarrow> P x \<or> Q x) \<Longrightarrow> cnt R A \<le> cnt P A + cnt Q A"
  by (induction A) (auto simp: cnt_def)

lemma cnt_none: "(\<And>x. x \<in> set A \<Longrightarrow> \<not> P x) \<Longrightarrow> cnt P A = 0"
  by (simp add: cnt_def)

definition windowed :: "int \<Rightarrow> time \<Rightarrow> int \<Rightarrow> time list \<Rightarrow> bool" where
  "windowed m h c A \<longleftrightarrow>
     0 \<le> m \<and> (\<forall>a \<in> set A. a < h + hour) \<and> cnt (\<lambda>a. h \<le> a) A \<le> c \<and> cnt (\<lambda>a. h \<le> a) A \<le> m \<and>
     (\<forall>t. h < t + hour \<longrightarrow> cnt (\<lambda>a. t \<le> a \<and> a < h) A \<le> m) \<and>
     (\<forall>t. cnt (\<lambda>a. t \<le> a \<and> a < t + hour) A \<le> 2 * m)"

lemma windowed_start: "0 \<le> m \<Longrightarrow> windowed m h 0 []"
  by (simp add: windowed_def)

lemma windowed_sent: "windowed m h c A \<Longrightarrow> windowed m h (c + 1) A"
  by (auto simp: windowed_def)

lemma windowed_roll:
  assumes "windowed m h c A" and "h + hour \<le> now"
  shows "windowed m now 0 A"
proof -
  from assms have old: "\<forall>a \<in> set A. a < now" unfolding windowed_def by auto
  have "cnt (\<lambda>a. t \<le> a \<and> a < now) A \<le> m" if "now < t + hour" for t
  proof -
    have "cnt (\<lambda>a. t \<le> a \<and> a < now) A \<le> cnt (\<lambda>a. h \<le> a) A" using that assms(2) by (intro cnt_mono) auto
    with assms(1) show ?thesis by (auto simp: windowed_def)
  qed
  moreover have "cnt (\<lambda>a. now \<le> a) A = 0" using old by (intro cnt_none) auto
  ultimately show ?thesis using assms(1) old by (auto simp: windowed_def)
qed

lemma windowed_alert:
  assumes w: "windowed m h c A" and "c < m" and "h \<le> now" and "now < h + hour"
  shows "windowed m h (c + 1) (A @ [now])"
proof -
  have fits: "cnt (\<lambda>a. h \<le> a) A + 1 \<le> m" using assms(1,2) by (auto simp: windowed_def)
  have "cnt (\<lambda>a. t \<le> a \<and> a < t + hour) A + 1 \<le> 2 * m" if t: "t \<le> now" "now < t + hour" for t
  proof -
    have late: "cnt (\<lambda>a. h \<le> a \<and> t \<le> a \<and> a < t + hour) A \<le> cnt (\<lambda>a. h \<le> a) A" by (rule cnt_mono) simp
    have "h < t + hour" using t(2) assms(3) by simp
    then have early: "cnt (\<lambda>a. t \<le> a \<and> a < h) A \<le> m" using w by (simp add: windowed_def)
    have "cnt (\<lambda>a. a < h \<and> t \<le> a \<and> a < t + hour) A \<le> cnt (\<lambda>a. t \<le> a \<and> a < h) A" by (rule cnt_mono) simp
    moreover have "cnt (\<lambda>a. t \<le> a \<and> a < t + hour) A \<le>
        cnt (\<lambda>a. a < h \<and> t \<le> a \<and> a < t + hour) A + cnt (\<lambda>a. h \<le> a \<and> t \<le> a \<and> a < t + hour) A"
      by (rule cnt_split) auto
    ultimately show ?thesis using late early fits by linarith
  qed
  with assms fits show ?thesis by (auto simp: windowed_def)
qed

text \<open>The part of a state the two gates look at.\<close>

definition pace :: "anomalyState \<Rightarrow> time \<times> time \<times> int" where
  "pace st = (hourStart st, lastNotified st, sentThisHour st)"

lemma pace_updates [simp]:
  "pace (st\<lparr>st_active := a\<rparr>) = pace st" "pace (st\<lparr>breachedAt := t\<rparr>) = pace st"
  "pace (st\<lparr>startedAt := t\<rparr>) = pace st" "pace (st\<lparr>st_detail := s\<rparr>) = pace st"
  by (simp_all add: pace_def)

lemma roll_hour_pace: "pace st = pace st' \<Longrightarrow> pace (roll_hour st now) = pace (roll_hour st' now)"
  by (auto simp: pace_def roll_hour_def)

lemma gate_pace: "pace st = pace st' \<Longrightarrow> gate d st now f = gate d st' now f"
  by (auto simp: pace_def gate_def)

definition sent_pace :: "anomalyState \<Rightarrow> time \<Rightarrow> time \<times> time \<times> int" where
  "sent_pace st now =
     (hourStart (roll_hour st now), now, wrap64 (sentThisHour (roll_hour st now) + 1))"

lemma sent_pace_cong: "pace st = pace st' \<Longrightarrow> sent_pace st now = sent_pace st' now"
  by (auto simp: sent_pace_def pace_def roll_hour_def)

definition paces :: "'n Detector \<Rightarrow> AnomalyType \<Rightarrow> bool \<Rightarrow> time \<Rightarrow> anomalyState \<Rightarrow> 'n world \<Rightarrow> anomalyState \<times> 'n world \<Rightarrow> bool" where
  "paces d t force now st w r \<longleftrightarrow>
     (case r of (st', w') \<Rightarrow>
        sent_total t w' = sent_total t w \<and> (pace st' = pace st \<or> pace st' = pace (roll_hour st now)) \<or>
        sent_total t w' = Suc (sent_total t w) \<and> pace st' = sent_pace st now \<and>
          gate d (roll_hour st now) now force = None)"

lemma paces_cong:
  "paces d t f now st w r \<Longrightarrow> pace st = pace st0 \<Longrightarrow> counters w = counters w0 \<Longrightarrow> paces d t f now st0 w0 r"
  unfolding paces_def sent_total_def
  using roll_hour_pace [of st st0 now] gate_pace [of "roll_hour st now" "roll_hour st0 now" d now f]
    sent_pace_cong [of st st0 now]
  by (auto split: prod.splits)

context notifier
begin

lemma send_paces:
  assumes "det_notifier d = Some notify"
  shows "paces d t f now st w (send d t sc sub b st now f w)"
proof (cases "gate d (roll_hour st now) now f")
  case (Some label)
  then have "label = ''suppressed_cooldown'' \<or> label = ''suppressed_ceiling''"
    by (auto simp: gate_def split: if_splits)
  then have "sent_total t (notified t label w) = sent_total t w"
    by (auto simp: sent_total_def notified_def)
  with Some show ?thesis by (simp add: paces_def send_def Let_def)
next
  case None
  obtain e w1 where n: "notify sub b w = (e, w1)" by fastforce
  have "counters w1 = counters w" using notify_frame [OF n] by simp
  with None assms n show ?thesis
    by (cases e) (simp_all add: paces_def send_def Let_def sent_total_def notified_def sent_pace_def pace_def)
qed

lemma observe_state_paces:
  assumes "det_notifier d = Some notify"
  shows "paces d (ob_type x) (\<not> ob_breached x) (ob_now x) st w (observe_state d x st w)"
proof (cases "ob_breached x")
  case False
  then show ?thesis
    by (auto simp: observe_state_def observe_clear_def Let_def paces_def [of _ _ _ _ _ _ "(_, _)"]
        intro!: paces_cong [OF send_paces [OF assms]])
next
  case True
  then show ?thesis
    by (auto simp: observe_state_def observe_breach_def Let_def paces_def [of _ _ _ _ _ _ "(_, _)"]
        intro!: paces_cong [OF send_paces [OF assms]])
qed

end

text \<open>The alerts so far of one condition, against its state.\<close>

definition paced :: "'n Detector \<Rightarrow> int \<Rightarrow> time \<Rightarrow> time list \<Rightarrow> anomalyState option \<Rightarrow> bool" where
  "paced d n now A so \<longleftrightarrow>
     (case so of
        None \<Rightarrow> A = []
      | Some st \<Rightarrow>
          0 \<le> sentThisHour st \<and> sentThisHour st \<le> n \<and> hourStart st \<le> now \<and>
          windowed (max 0 (maxPerHour d)) (hourStart st) (sentThisHour st) A \<and>
          sorted_wrt (\<lambda>a b. cooldown d \<le> b - a) A \<and>
          (\<forall>a \<in> set A. zero_time < a \<and> a \<le> lastNotified st))"

definition paced_at :: "'n Detector \<Rightarrow> int \<Rightarrow> time \<Rightarrow> time list \<Rightarrow> time \<times> time \<times> int \<Rightarrow> bool" where
  "paced_at d n now A p \<longleftrightarrow>
     (case p of (h, l, c) \<Rightarrow>
        0 \<le> c \<and> c \<le> n \<and> h \<le> now \<and> windowed (max 0 (maxPerHour d)) h c A \<and>
        sorted_wrt (\<lambda>a b. cooldown d \<le> b - a) A \<and> (\<forall>a \<in> set A. zero_time < a \<and> a \<le> l))"

lemma paced_Some: "paced d n now A (Some st) \<longleftrightarrow> paced_at d n now A (pace st)"
  by (simp add: paced_def paced_at_def pace_def)

lemma paced_new: "paced d n now0 A so \<Longrightarrow> 0 \<le> n \<Longrightarrow> now0 \<le> now \<Longrightarrow>
    paced_at d n now A (pace (case so of Some st \<Rightarrow> st | None \<Rightarrow> new_state now))"
  by (cases so) (auto simp: paced_def paced_at_def pace_def new_state_def windowed_start)

lemma paced_at_mono: "paced_at d n now A p \<Longrightarrow> n \<le> n' \<Longrightarrow> now \<le> now' \<Longrightarrow> paced_at d n' now' A p"
  by (auto simp: paced_at_def)

lemma roll_hour_paced: "paced_at d n now A (pace st) \<Longrightarrow> 0 \<le> n \<Longrightarrow> paced_at d n now A (pace (roll_hour st now))"
  by (auto simp: roll_hour_def paced_at_def pace_def time_Sub_le minInt64_def maxInt64_def intro: windowed_roll)

lemma roll_hour_window: "time_Sub now (hourStart (roll_hour st now)) < hour"
  by (simp add: roll_hour_def)

lemma resolved_paced:
  assumes "paced_at d n now A (pace st)" and "0 \<le> n" and "n < 2 ^ 63 - 1"
    and "\<forall>a \<in> set A. a \<le> now"
  shows "paced_at d (n + 1) now A (sent_pace st now)"
proof -
  note r = roll_hour_paced [OF assms(1,2)]
  then have "0 \<le> sentThisHour (roll_hour st now)" "sentThisHour (roll_hour st now) \<le> n"
    by (simp_all add: paced_at_def pace_def)
  then have "wrap64 (sentThisHour (roll_hour st now) + 1) = sentThisHour (roll_hour st now) + 1"
    using assms(3) by (intro wrap64_id) (simp add: in64_def minInt64_def maxInt64_def)
  with r assms(4) show ?thesis by (auto simp: sent_pace_def paced_at_def pace_def intro: windowed_sent)
qed

lemma alert_paced:
  assumes "paced_at d n now A (pace st)" and "0 \<le> n" and "n < 2 ^ 63 - 1" and "\<forall>a \<in> set A. a \<le> now"
    and "gate d (roll_hour st now) now False = None" and "zero_time < now"
    and "0 \<le> cooldown d" and "cooldown d \<le> maxInt64"
  shows "paced_at d (n + 1) now (A @ [now]) (sent_pace st now)"
proof -
  let ?st = "roll_hour st now"
  note r = roll_hour_paced [OF assms(1,2)]
  from r have c: "0 \<le> sentThisHour ?st" "sentThisHour ?st \<le> n" "hourStart ?st \<le> now"
    and win: "windowed (max 0 (maxPerHour d)) (hourStart ?st) (sentThisHour ?st) A"
    and sorted: "sorted_wrt (\<lambda>a b. cooldown d \<le> b - a) A"
    and old: "\<forall>a \<in> set A. zero_time < a \<and> a \<le> lastNotified ?st"
    by (simp_all add: paced_at_def pace_def)
  have wrap: "wrap64 (sentThisHour ?st + 1) = sentThisHour ?st + 1"
    using c assms(3) by (intro wrap64_id) (simp add: in64_def minInt64_def maxInt64_def)
  from assms(5) have below: "sentThisHour ?st < max 0 (maxPerHour d)"
    and cool: "lastNotified ?st = zero_time \<or> cooldown d \<le> time_Sub now (lastNotified ?st)"
    by (auto simp: gate_def split: if_splits)
  have "now < hourStart ?st + hour"
    using roll_hour_window [of now st] by (simp add: time_Sub_less minInt64_def maxInt64_def)
  with windowed_alert [OF win below c(3)]
  have "windowed (max 0 (maxPerHour d)) (hourStart ?st) (sentThisHour ?st + 1) (A @ [now])" by simp
  moreover have "cooldown d \<le> now - a" if "a \<in> set A" for a
  proof -
    have "cooldown d \<le> time_Sub now (lastNotified ?st)" using cool old that by auto
    then have "cooldown d \<le> now - lastNotified ?st"
      using assms(7,8) by (simp add: time_Sub_le minInt64_def)
    with old that show ?thesis by fastforce
  qed
  ultimately show ?thesis
    using c sorted old assms(4,6) by (auto simp: sent_pace_def paced_at_def wrap sorted_wrt_append)
qed

lemma alerts_mem: "a \<in> set (alerts t s dw xs) \<Longrightarrow> a \<in> ob_now ` set xs"
proof (induction xs arbitrary: dw)
  case (Cons x xs)
  from Cons.prems have "a = ob_now x \<or> a \<in> set (alerts t s (observe_one dw x) xs)" by (auto split: if_splits)
  moreover note Cons.IH [of "observe_one dw x"]
  ultimately show ?case unfolding list.set(2) by blast
qed simp

lemma paced_config:
  "cooldown d = cooldown d' \<Longrightarrow> maxPerHour d = maxPerHour d' \<Longrightarrow> paced d n now A so = paced d' n now A so"
  by (cases so) (simp_all add: paced_def)

definition now_of :: "observation list \<Rightarrow> time" where
  "now_of xs = (if xs = [] then zero_time else ob_now (last xs))"

context notifier
begin

lemma run_paced:
  assumes "det_notifier d = Some notify" and "states d = []" and "0 \<le> cooldown d" and "cooldown d \<le> maxInt64"
    and "in_time xs" and "int (length xs) < 2 ^ 63"
  shows "paced d (int (length xs)) (now_of xs) (alerts t s (d, w) xs) (state_of (fst (run_detector d xs w)) t s)"
  using assms(5,6)
proof (induction xs rule: rev_induct)
  case Nil
  with assms(2) show ?case by (simp add: paced_def run_detector_def state_of_def)
next
  case (snoc x xs)
  obtain d1 w1 where r: "run_detector d xs w = (d1, w1)" by fastforce
  have cfg: "cooldown d1 = cooldown d" "maxPerHour d1 = maxPerHour d" "det_notifier d1 = Some notify"
    using run_detector_config [of d xs w] r assms(1) by simp_all
  let ?A = "alerts t s (d, w) xs" and ?n = "int (length xs)" and ?now = "ob_now x"
  note time = in_time_snoc [OF snoc.prems(1)]
  have IH: "paced d1 ?n (now_of xs) ?A (state_of d1 t s)"
    using snoc time r paced_config [OF cfg(1,2)] by simp
  have later: "now_of xs \<le> ?now" "zero_time < ?now" using time by (auto simp: now_of_def list_all_iff)
  have old: "\<forall>a \<in> set ?A. a \<le> ?now" using time by (auto simp: list_all_iff dest!: alerts_mem)
  have A: "alerts t s (d, w) (xs @ [x]) =
      ?A @ (if alerted t s x w1 (snd (observe_one (d1, w1) x)) then [?now] else [])"
    using r by (simp add: alerts_append run_detector_def)
  show ?case
  proof (cases "about t s x")
    case False
    have "paced d1 (?n + 1) ?now ?A (state_of d1 t s)"
      using IH later(1) by (cases "state_of d1 t s") (auto simp: paced_Some paced_def [of _ _ _ _ None] intro: paced_at_mono)
    with False r show ?thesis
      by (simp add: A run_detector_snoc state_of_observe_one alerted_def now_of_def paced_config [OF cfg(1,2)] add.commute)
  next
    case True
    let ?st = "state_or_new d1 x"
    obtain st' w' where o: "observe_state d1 x ?st w1 = (st', w')" by fastforce
    have p: "paced_at d1 ?n ?now ?A (pace ?st)"
      using paced_new [OF IH _ later(1)] by (simp add: state_or_new_eq [OF True])
    have small: "?n < 2 ^ 63 - 1" "0 \<le> ?n" using snoc.prems(2) by simp_all
    have t: "ob_type x = t" using True by (simp add: about_def)
    from observe_state_paces [OF cfg(3), of x ?st w1] o
    consider (same) "sent_total t w' = sent_total t w1" "pace st' = pace ?st \<or> pace st' = pace (roll_hour ?st ?now)"
      | (sent) "sent_total t w' = Suc (sent_total t w1)" "pace st' = sent_pace ?st ?now"
          "gate d1 (roll_hour ?st ?now) ?now (\<not> ob_breached x) = None"
      by (auto simp: paces_def t)
    then have "paced_at d1 (?n + 1) ?now (?A @ (if alerted t s x w1 w' then [?now] else [])) (pace st')"
    proof cases
      case same
      with p roll_hour_paced [OF p small(2)] show ?thesis by (auto simp: alerted_def intro: paced_at_mono)
    next
      case sent
      show ?thesis
      proof (cases "ob_breached x")
        case breached: True
        with sent True alert_paced [OF p small(2,1) old _ later(2)] cfg assms(3,4) show ?thesis
          by (simp add: alerted_def)
      next
        case False
        with sent resolved_paced [OF p small(2,1) old] show ?thesis by (simp add: alerted_def)
      qed
    qed
    moreover have "state_of (fst (observe_one (d1, w1) x)) t s = Some st'" "snd (observe_one (d1, w1) x) = w'"
      using True o by (simp_all only: state_of_observe_one) (simp_all add: observe_one_eq)
    ultimately show ?thesis
      using r by (simp add: A run_detector_snoc now_of_def paced_Some [symmetric] paced_config [OF cfg(1,2)] add.commute
          split: if_splits)
  qed
qed

end

section \<open>Clearing\<close>

text \<open>A forced notification passes both gates, whatever was sent before.\<close>

lemma gate_forced [simp]: "gate d st now True = None"
  by (simp add: gate_def)

definition resolved_mail :: "AnomalyCfg \<Rightarrow> AnomalyType \<Rightarrow> string \<Rightarrow> anomalyState \<Rightarrow> time \<Rightarrow> cmd" where
  "resolved_mail cfg t s st now =
     SMTP_SEND (SMTPAddr cfg) (SupportFrom cfg) (SupportTo cfg)
       (mail_message cfg (resolved_subject t s) (resolved_body st now))"

lemma resolved_body_inactive [simp]:
  "resolved_body (st\<lparr>breachedAt := b, st_active := a\<rparr>) now = resolved_body st now"
  by (simp add: resolved_body_def)

lemma notified_frame [simp]:
  "trace (notified t r w) = trace w" "gauges (notified t r w) = gauges w" "clock (notified t r w) = clock w"
  by (simp_all add: notified_def)

context notifier
begin

lemma send_frame:
  assumes "det_notifier d = Some notify" and "send d t sc sub b st now f w = (st', w')"
  shows "extends w w' \<and> gauges w' = gauges w"
proof (cases "gate d (roll_hour st now) now f")
  case (Some l)
  with assms(2) same_trace [of w' w] show ?thesis by (auto simp: send_def Let_def)
next
  case None
  obtain e w1 where n: "notify sub b w = (e, w1)" by fastforce
  have "trace w' = trace w1" "gauges w' = gauges w1"
    using assms None n by (auto simp: send_def Let_def split: option.splits)
  moreover have "extends w w1" "extends w1 w'"
    using notify_once [OF n] same_trace [OF calculation(1)] by blast+
  ultimately show ?thesis using notify_frame [OF n] extends_trans(1) by metis
qed

lemma observe_state_extends:
  assumes "det_notifier d = Some notify"
  shows "extends w (snd (observe_state d x st w))"
proof -
  have s: "extends v (snd (send d t sc sub b st' now f v'))" if "trace v' = trace v" for t sc sub b st' now f v v'
    using send_frame [OF assms, of t sc sub b st' now f v'] extends_trans(1) [of v v'] same_trace [OF that]
    by (cases "send d t sc sub b st' now f v'") auto
  show ?thesis
    by (auto simp: observe_state_def observe_clear_def observe_breach_def Let_def intro!: s)
qed

end

lemma clear_sends_mail:
  assumes "EmailEnabled cfg" and "det_notifier d = Some (Notify N cfg lg)" and "st_active st"
    and "observe_clear d t s st now w = (st', w')"
  shows "trace w' = trace w @ [resolved_mail cfg t s st now] \<and> \<not> st_active st' \<and>
    gauges w' = (gauges w)((''conflux_anomalies_active'', [AnomalyType_string t]) := 0)"
proof -
  let ?st = "st\<lparr>breachedAt := zero_time, st_active := False\<rparr>"
  define w2 where "w2 = log_at (det_log d) LInfo ''anomaly cleared''
    [(''component'', AStr ''anomaly''), (''type'', AStr (AnomalyType_string t)), (''scope'', AStr s),
     (''duration'', ADur (time_Sub now (startedAt st)))]
    (gauge_Set ''conflux_anomalies_active'' [AnomalyType_string t] 0 w)"
  have run: "send d t s (resolved_subject t s) (resolved_body st now) ?st now True w2 = (st', w')"
    using assms(3,4) by (simp add: observe_clear_def Let_def w2_def)
  obtain e w3 where n: "Notify N cfg lg (resolved_subject t s) (resolved_body st now) w2 = (e, w3)" by fastforce
  have "trace w' = trace w3 \<and> gauges w' = gauges w3"
    using run n assms(2) by (auto simp: send_def Let_def split: option.splits)
  with Notify_enabled [OF assms(1) n] send_keeps(1) [of d t s "resolved_subject t s" "resolved_body st now" ?st now True w2] run
  show ?thesis by (simp add: w2_def resolved_mail_def)
qed

lemma clear_inactive: "\<not> st_active st \<Longrightarrow> observe_clear d t s st now w = (st\<lparr>breachedAt := zero_time\<rparr>, w)"
  by (simp add: observe_clear_def Let_def)

lemma breach_activates: "st_active (fst (observe_breach d t s False dt st now w))"
  by (simp add: observe_breach_def Let_def send_keeps)

text \<open>A condition that holds and clears again, as two observations.\<close>

definition flap :: "AnomalyType \<Rightarrow> string \<Rightarrow> time \<Rightarrow> observation list" where
  "flap t s now =
     [\<lparr>ob_type = t, ob_scope = s, ob_breached = True, ob_sustain = False, ob_detail = [], ob_now = now\<rparr>,
      \<lparr>ob_type = t, ob_scope = s, ob_breached = False, ob_sustain = False, ob_detail = [], ob_now = now\<rparr>]"

lemma flap_sends:
  assumes "EmailEnabled cfg" and "det_notifier d = Some (Notify N cfg lg)"
    and "run_detector d (flap t s now) w = (d', w')"
  shows "extends w w' \<and> 1 \<le> length (issued w w') \<and> det_notifier d' = Some (Notify N cfg lg)"
proof -
  let ?b = "hd (flap t s now)" and ?c = "last (flap t s now)"
  obtain d1 w1 where 1: "observe_one (d, w) ?b = (d1, w1)" by fastforce
  have 2: "observe_one (d1, w1) ?c = (d', w')"
    using assms(3) 1 by (simp add: run_detector_def flap_def)
  have d1: "det_notifier d1 = Some (Notify N cfg lg)" using observe_one_config(4) [of "(d, w)" ?b] 1 assms(2) by simp
  have ext: "extends w w1"
    using email.observe_state_extends [OF assms(2), of w ?b] 1 by (auto simp: observe_one_eq)
  have st: "state_of d1 t s = Some (fst (observe_breach d t s False [] (state_or_new d ?b) now w))"
    using state_of_observe_one [of d w ?b t s] 1 by (simp add: flap_def about_def observe_state_def)
  define st1 where "st1 = fst (observe_breach d t s False [] (state_or_new d ?b) now w)"
  have act: "st_active st1" unfolding st1_def by (rule breach_activates)
  have "state_or_new d1 ?c = st1"
    using st by (subst state_or_new_eq [of t s]) (simp_all add: st1_def flap_def about_def)
  then have w': "w' = snd (observe_clear d1 t s st1 now w1)"
    using 2 by (auto simp: observe_one_eq flap_def observe_state_def)
  have "trace w' = trace w1 @ [resolved_mail cfg t s st1 now]"
    using clear_sends_mail [OF assms(1) d1 act] w' by (metis prod.collapse)
  with extendsI have two: "extends w1 w' \<and> issued w1 w' = [resolved_mail cfg t s st1 now]" by blast
  have "det_notifier d' = Some (Notify N cfg lg)" using observe_one_config(4) [of "(d1, w1)" ?c] 2 d1 by simp
  with two extends_trans [OF ext, of w'] show ?thesis by simp
qed

section \<open>Properties of the detector\<close>

text \<open>
  C15. The sustain window: after any interleaving of observations in the order of the clock, a
  condition that requires it is active exactly when its current unbroken breach has lasted at
  least the sustain window. A burst that clears earlier never becomes an anomaly, and one that
  lasts always does, whatever the other conditions do.
\<close>

theorem anomaly_active_iff_sustained:
  assumes "in_time xs" and "list_all (\<lambda>x. about t s x \<longrightarrow> ob_sustain x) xs"
  shows "is_active (fst (run_detector (NewDetector cool mx sus n lg) xs w)) t s \<longleftrightarrow>
    sustained sus (filter (about t s) xs)"
proof -
  let ?d = "NewDetector cool mx sus n lg"
  have "states ?d = []" "sustainFor ?d = sus" by (simp_all add: NewDetector_def)
  with run_follows [OF _ assms, of ?d w] show ?thesis
    by (auto simp: follows_def is_active_def sustained_def breach_start_def split: option.splits)
qed

definition lag_at :: "time \<Rightarrow> bool \<Rightarrow> observation" where
  "lag_at t b = \<lparr>ob_type = LagThreshold, ob_scope = ''a'', ob_breached = b, ob_sustain = True,
     ob_detail = ''lag'', ob_now = t\<rparr>"

theorem anomaly_active_iff_sustained_witness:
  "is_active (fst (run_detector (NewDetector minute 4 (3 * minute) None (NewLogger [])) [lag_at 1 True, lag_at (1 + 4 * minute) True]
     (start_world 0 (\<lambda>_. 0) ()))) LagThreshold ''a''"
  by (subst anomaly_active_iff_sustained)
     (simp_all add: in_time_def lag_at_def zero_time_def about_def sustained_def breach_start_def extend_breach_def
       time_Sub_def minInt64_def maxInt64_def)

text \<open>
  C11. What support is told is bounded: for the configured mail notifier, two successful alerts
  of one condition are at least the cooldown apart, and no hour, wherever it starts, sees more
  than twice the hourly ceiling of them (the ceiling counts in consecutive windows).
\<close>

theorem alerts_are_bounded:
  assumes "0 \<le> cool" and "cool \<le> maxInt64" and "in_time xs" and "int (length xs) < 2 ^ 63"
  shows "let A = alerts t s (NewDetector cool mx sus (Some (Notify N cfg lg)) lg', w) xs in
    sorted_wrt (\<lambda>a b. cool \<le> b - a) A \<and>
    (\<forall>t0. int (length (filter (\<lambda>a. t0 \<le> a \<and> a < t0 + hour) A)) \<le> 2 * max 0 mx)"
proof -
  let ?d = "NewDetector cool mx sus (Some (Notify N cfg lg)) lg'"
  have d: "det_notifier ?d = Some (Notify N cfg lg)" "states ?d = []" "cooldown ?d = cool" "maxPerHour ?d = mx"
    by (simp_all add: NewDetector_def)
  from email.run_paced [OF d(1,2) _ _ assms(3,4), of t s w] assms(1,2)
  show ?thesis
    by (cases "state_of (fst (run_detector ?d xs w)) t s") (auto simp: paced_def windowed_def cnt_def d Let_def)
qed

theorem alerts_are_bounded_witness:
  "sorted_wrt (\<lambda>a b. minute \<le> b - a)
     (alerts LagThreshold ''a'' (NewDetector minute 4 0 (Some (Notify example_net (c_Anomaly (base_config (\<lambda>_. None) [] (\<lambda>_. [])))
        (NewLogger []))) (NewLogger []), example_world) [lag_at 1 True, lag_at 2 True, lag_at (minute + 1) True])"
proof -
  have "(0::int) \<le> minute" "minute \<le> maxInt64"
    "in_time [lag_at 1 True, lag_at 2 True, lag_at (minute + 1) True]"
    "int (length [lag_at 1 True, lag_at 2 True, lag_at (minute + 1) True]) < 2 ^ 63"
    by (simp_all add: in_time_def lag_at_def zero_time_def maxInt64_def)
  from alerts_are_bounded [OF this] show ?thesis unfolding Let_def by blast
qed

text \<open>
  Clearing is reported exactly once: when a condition no longer holds, an active anomaly
  becomes inactive and one mail goes out, with its type, scope, duration and last detail, even
  inside the cooldown and above the ceiling; if it was not active, nothing is sent.
\<close>

theorem clearing_is_reported_once:
  assumes "EmailEnabled cfg" and "det_notifier d = Some (Notify N cfg lg)"
    and "Detector_Observe d t s False sustain detail now w = (d', w')"
  shows "\<not> is_active d' t s \<and>
    issued w w' = (case state_of d t s of
        None \<Rightarrow> []
      | Some st \<Rightarrow> if st_active st then [resolved_mail cfg t s st now] else [])"
proof -
  define st where "st = lookup_state d t s now"
  obtain st' where o: "observe_clear d t s st now w = (st', w')"
    and d': "d' = d\<lparr>states := AList.update (state_key t s) st' (states d)\<rparr>"
    using assms(3) by (auto simp: Detector_Observe_def Let_def st_def split: prod.splits)
  have so: "st = (case state_of d t s of None \<Rightarrow> new_state now | Some st \<Rightarrow> st)"
    by (simp add: st_def lookup_state_def state_of_def)
  have "is_active d' t s = st_active st'" by (simp add: d' is_active_def state_of_def update_conv')
  moreover have "\<not> st_active st' \<and> issued w w' = (if st_active st then [resolved_mail cfg t s st now] else [])"
  proof (cases "st_active st")
    case True
    with clear_sends_mail [OF assms(1,2) True o] show ?thesis using extendsI by auto
  next
    case False
    with clear_inactive [OF False, of d t s now w] o show ?thesis by auto
  qed
  ultimately show ?thesis using so by (auto simp: new_state_def split: option.splits)
qed

definition mail_cfg :: AnomalyCfg where
  "mail_cfg = (c_Anomaly (base_config (\<lambda>_. None) [] (\<lambda>_. [])))\<lparr>EmailEnabled := True\<rparr>"

definition mail_detector :: "unit Detector" where
  "mail_detector = NewDetector minute 4 0 (Some (Notify example_net mail_cfg (NewLogger []))) (NewLogger [])"

lemma mail_detector_ok:
  "EmailEnabled mail_cfg" "det_notifier mail_detector = Some (Notify example_net mail_cfg (NewLogger []))"
  by (simp_all add: mail_cfg_def mail_detector_def NewDetector_def)

theorem clearing_is_reported_once_witness:
  "let d = mail_detector\<lparr>states := [(''lag_threshold|a'', (new_state 1)\<lparr>st_active := True\<rparr>)]\<rparr>
   in length (issued example_world (snd (Detector_Observe d LagThreshold ''a'' False True [] 9 example_world))) = 1"
proof -
  define d where "d = mail_detector\<lparr>states := [(''lag_threshold|a'', (new_state 1)\<lparr>st_active := True\<rparr>)]\<rparr>"
  obtain d' w' where o: "Detector_Observe d LagThreshold ''a'' False True [] 9 example_world = (d', w')" by fastforce
  have n: "det_notifier d = Some (Notify example_net mail_cfg (NewLogger []))"
    using mail_detector_ok(2) by (simp add: d_def)
  have "state_of d LagThreshold ''a'' = Some ((new_state 1)\<lparr>st_active := True\<rparr>)"
    by (simp add: d_def state_of_def state_key_def)
  with clearing_is_reported_once [OF mail_detector_ok(1) n o] show ?thesis
    unfolding d_def [symmetric] Let_def o by simp
qed

text \<open>
  The ceiling does not cover those reports: a condition that holds and clears \<open>n\<close> times,
  even at one instant, sends at least \<open>n\<close> mails whatever the cooldown and the ceiling are.
\<close>

theorem flapping_is_not_bounded:
  assumes "EmailEnabled cfg" and "det_notifier d = Some (Notify N cfg lg)"
  shows "n \<le> length (issued w (snd (run_detector d (concat (replicate n (flap t s now))) w)))"
proof -
  have "extends w (snd (run_detector d (concat (replicate n (flap t s now))) w)) \<and>
      n \<le> length (issued w (snd (run_detector d (concat (replicate n (flap t s now))) w)))"
    using assms(2)
  proof (induction n arbitrary: d w)
    case (Suc n)
    obtain d1 w1 where one: "run_detector d (flap t s now) w = (d1, w1)" by fastforce
    note f = flap_sends [OF assms(1) Suc.prems one]
    then have ext: "extends w w1" by blast
    let ?w = "snd (run_detector d1 (concat (replicate n (flap t s now))) w1)"
    have "snd (run_detector d (concat (replicate (Suc n) (flap t s now))) w) = ?w"
      using one by (simp add: run_detector_def)
    moreover have "extends w1 ?w \<and> n \<le> length (issued w1 ?w)" by (rule Suc.IH) (use f in blast)
    ultimately show ?case using f extends_trans [OF ext, of ?w] by auto
  qed (simp add: run_detector_def)
  then show ?thesis by blast
qed

theorem flapping_is_not_bounded_witness:
  "100 \<le> length (issued example_world
     (snd (run_detector mail_detector (concat (replicate 100 (flap SourceUnavailable ''s'' 5))) example_world)))"
  by (rule flapping_is_not_bounded [OF mail_detector_ok])

text \<open>
  The gauge of active anomalies is per type, not per scope: clearing one scope sets it to 0
  while the anomaly is still active in another, and the detector still counts it as active.
\<close>

theorem gauge_hides_active_scope:
  assumes "EmailEnabled cfg" and "det_notifier d = Some (Notify N cfg lg)"
    and "is_active d t s" and "is_active d t r" and "r \<noteq> s"
    and "Detector_Observe d t s False sustain detail now w = (d', w')"
  shows "gauges w' (''conflux_anomalies_active'', [AnomalyType_string t]) = 0 \<and> is_active d' t r \<and> 0 < Active d'"
proof -
  obtain st where st: "state_of d t s = Some st" "st_active st"
    using assms(3) by (auto simp: is_active_def split: option.splits)
  then have look: "lookup_state d t s now = st" by (simp add: lookup_state_def state_of_def)
  obtain st' where o: "observe_clear d t s st now w = (st', w')"
    and d': "d' = d\<lparr>states := AList.update (state_key t s) st' (states d)\<rparr>"
    using assms(6) look by (auto simp: Detector_Observe_def Let_def split: prod.splits)
  have r: "is_active d' t r" using assms(4,5) by (simp add: d' is_active_def state_of_def update_conv' state_key_inj)
  then obtain st2 where "map_of (states d') (state_key t r) = Some st2" "st_active st2"
    by (auto simp: is_active_def state_of_def split: option.splits)
  then have "(state_key t r, st2) \<in> set (filter (\<lambda>(k, st). st_active st) (states d'))"
    by (auto dest: map_of_SomeD)
  then have "0 < Active d'" unfolding Active_def by (metis length_pos_if_in_set)
  with r clear_sends_mail [OF assms(1,2) st(2) o] show ?thesis by simp
qed

theorem gauge_hides_active_scope_witness:
  "let d = mail_detector\<lparr>states := [(''lag_threshold|a'', (new_state 1)\<lparr>st_active := True\<rparr>),
       (''lag_threshold|b'', (new_state 1)\<lparr>st_active := True\<rparr>)]\<rparr>
   in gauges (snd (Detector_Observe d LagThreshold ''a'' False True [] 9 example_world))
        (''conflux_anomalies_active'', [''lag_threshold'']) = 0"
proof -
  define d where "d = mail_detector\<lparr>states := [(''lag_threshold|a'', (new_state 1)\<lparr>st_active := True\<rparr>),
       (''lag_threshold|b'', (new_state 1)\<lparr>st_active := True\<rparr>)]\<rparr>"
  obtain d' w' where o: "Detector_Observe d LagThreshold ''a'' False True [] 9 example_world = (d', w')" by fastforce
  have n: "det_notifier d = Some (Notify example_net mail_cfg (NewLogger []))"
    using mail_detector_ok(2) by (simp add: d_def)
  have act: "is_active d LagThreshold ''a''" "is_active d LagThreshold ''b''"
    by (simp_all add: d_def is_active_def state_of_def state_key_def)
  from gauge_hides_active_scope [OF mail_detector_ok(1) n act _ o] show ?thesis
    unfolding d_def [symmetric] Let_def o by simp
qed

end
