(* ===== verification/StreamAgent.thy ===== *)
theory StreamAgent
  imports Stub RedisSource
begin

text \<open>
  The continuous agent (\<open>internal/agent/stream.go\<close>): read, dispatch, acknowledge, repeat. The
  loop of \<open>Run\<close> takes fuel, one unit per read; \<open>None\<close> means that it is still running. Its
  lemmas are proved in the locale \<open>source\<close> once and hold for both Redis primitives.
\<close>

section \<open>The agent\<close>

record 'n StreamAgent =
  sa_id :: string
  sa_source :: "'n Source"
  sa_dispatcher :: "'n Dispatcher"
  sa_log :: logger

definition NewStreamAgent :: "string \<Rightarrow> 'n Source \<Rightarrow> 'n Dispatcher \<Rightarrow> logger \<Rightarrow> 'n StreamAgent" where
  "NewStreamAgent ident src d lg =
     \<lparr>sa_id = ident, sa_source = src, sa_dispatcher = d,
      sa_log = ForAgent lg ident (ref_Name (src_Ref src))\<rparr>"

definition raw_text :: "'n Delivery \<Rightarrow> string" where
  "raw_text d = (case d_Raw d of None \<Rightarrow> [] | Some b \<Rightarrow> b)"

text \<open>The branch of \<open>handle\<close> for an entry that could not be parsed.\<close>

definition handle_unprocessable ::
  "'n StreamAgent \<Rightarrow> ctx \<Rightarrow> 'n Delivery \<Rightarrow> gerror \<Rightarrow> 'n world \<Rightarrow> 'n world" where
  "handle_unprocessable a c d reason w =
     (let src = ref_Name (d_Source d);
          w1 = log_at (sa_log a) LError ''unprocessable entry''
                 [(''source'', AStr src), (''position'', AStr (d_Position d)),
                  (''reason'', AStr (error_Error reason)), (''raw'', AStr (raw_text d))] w;
          w2 = counter_Inc ''conflux_events_unprocessable_total'' [sa_id a, src, ''parse''] w1
      in case Ack d c w2 of
           (None, w3) \<Rightarrow> w3
         | (Some err, w3) \<Rightarrow>
             log_at (sa_log a) LError ''ack failed for unprocessable entry''
               [(''error'', AStr (error_Error err))] w3)"

definition handle :: "'n StreamAgent \<Rightarrow> ctx \<Rightarrow> 'n Delivery \<Rightarrow> 'n world \<Rightarrow> unit gores \<times> 'n world" where
  "handle a c d w =
     (case d_Unprocessable d of
        Some reason \<Rightarrow> (Ret (), handle_unprocessable a c d reason w)
      | None \<Rightarrow>
          (case Send (sa_dispatcher a) c (d_Envelope d) w of
             (Panic m, w1) \<Rightarrow> (Panic m, w1)
           | (Ret outcomes, w1) \<Rightarrow>
               (case Ack d c w1 of
                  (Some err, w2) \<Rightarrow>
                    (Ret (), log_at (ForEnvelope (sa_log a) (d_Envelope d)) LError ''ack failed''
                       [(''position'', AStr (d_Position d)), (''error'', AStr (error_Error err))] w2)
                | (None, w2) \<Rightarrow>
                    (Ret (), if \<exists>out \<in> set outcomes. out_Result out = Delivered
                             then counter_Inc ''conflux_events_processed_total''
                                    [sa_id a, ref_Name (d_Source d)] w2
                             else w2))))"

text \<open>The inner loop of \<open>Run\<close>: \<open>True\<close> when it stopped because the context is done.\<close>

fun handle_batch :: "'n StreamAgent \<Rightarrow> ctx \<Rightarrow> 'n Delivery list \<Rightarrow> 'n world \<Rightarrow> bool gores \<times> 'n world" where
  "handle_batch a c [] w = (Ret False, w)"
| "handle_batch a c (d # ds) w =
     (if ctx_Err c w \<noteq> None then (Ret True, w)
      else case handle a c d w of
        (Panic m, w1) \<Rightarrow> (Panic m, w1)
      | (Ret _, w1) \<Rightarrow> handle_batch a c ds w1)"

fun stream_loop ::
  "nat \<Rightarrow> 'n StreamAgent \<Rightarrow> ctx \<Rightarrow> 'n world \<Rightarrow> (gerror option gores \<times> 'n world) option" where
  "stream_loop 0 a c w = None"
| "stream_loop (Suc fuel) a c w =
     (if ctx_Err c w \<noteq> None then Some (Ret None, w)
      else case src_Read (sa_source a) c w of
        (Inl err, w1) \<Rightarrow>
          Some (Ret (if ctx_Err c w1 \<noteq> None \<or> errors_Is err ContextCanceled then None else Some err), w1)
      | (Inr ds, w1) \<Rightarrow>
          (case handle_batch a c ds w1 of
             (Panic m, w2) \<Rightarrow> Some (Panic m, w2)
           | (Ret True, w2) \<Rightarrow> Some (Ret None, w2)
           | (Ret False, w2) \<Rightarrow> stream_loop fuel a c w2))"

definition StreamAgent_Run ::
  "nat \<Rightarrow> 'n StreamAgent \<Rightarrow> ctx \<Rightarrow> 'n world \<Rightarrow> (gerror option gores \<times> 'n world) option" where
  "StreamAgent_Run fuel a c w = stream_loop fuel a c (log_at (sa_log a) LInfo ''stream agent started'' [] w)"

section \<open>One delivery\<close>

definition read_from :: "'n Source \<Rightarrow> 'n Delivery \<Rightarrow> bool" where
  "read_from src d \<longleftrightarrow> (\<exists>c w ds w'. src_Read src c w = (Inr ds, w') \<and> d \<in> set ds)"

definition posting :: "'n Dispatcher \<Rightarrow> bool" where
  "posting d \<longleftrightarrow> list_all posting_destination (dests d) \<and> 1 \<le> MaxAttempts (policy d)"

text \<open>Every read that returns takes some time.\<close>

definition timely_reads :: "'n Source \<Rightarrow> ctx \<Rightarrow> bool" where
  "timely_reads src c \<longleftrightarrow> (\<forall>w ds w'. src_Read src c w = (Inr ds, w') \<longrightarrow> clock w < clock w')"

lemma handle_cases [consumes 1, case_names Unprocessable Panicked AckFailed Acked]:
  assumes "handle a c d w = (r, w')"
  obtains reason where "d_Unprocessable d = Some reason" "r = Ret ()" "w' = handle_unprocessable a c d reason w"
  | m where "d_Unprocessable d = None" "Send (sa_dispatcher a) c (d_Envelope d) w = (Panic m, w')" "r = Panic m"
  | outs w1 w2 err where "d_Unprocessable d = None" "Send (sa_dispatcher a) c (d_Envelope d) w = (Ret outs, w1)"
      "Ack d c w1 = (Some err, w2)" "r = Ret ()"
      "w' = log_at (ForEnvelope (sa_log a) (d_Envelope d)) LError ''ack failed''
         [(''position'', AStr (d_Position d)), (''error'', AStr (error_Error err))] w2"
  | outs w1 w2 where "d_Unprocessable d = None" "Send (sa_dispatcher a) c (d_Envelope d) w = (Ret outs, w1)"
      "Ack d c w1 = (None, w2)" "r = Ret ()"
      "w' = (if \<exists>out \<in> set outs. out_Result out = Delivered
             then counter_Inc ''conflux_events_processed_total'' [sa_id a, ref_Name (d_Source d)] w2 else w2)"
  using assms unfolding handle_def
  by (auto split: option.splits prod.splits gores.splits)

text \<open>The world when deliveries have been handled one after the other, with nothing in between.\<close>

fun after_handling :: "'n StreamAgent \<Rightarrow> ctx \<Rightarrow> 'n Delivery list \<Rightarrow> 'n world \<Rightarrow> 'n world" where
  "after_handling a c [] w = w"
| "after_handling a c (d # ds) w = after_handling a c ds (snd (handle a c d w))"

context source
begin

lemma Ack_read:
  assumes "read_from src d" and "Ack d c v = (e, v')"
  shows "quiet v v' \<and> extends v v' \<and> issued v v' = ack_cmds d"
proof -
  from assms(1) obtain c0 w0 ds w1 where "src_Read src c0 w0 = (Inr ds, w1)" "d \<in> set ds"
    by (auto simp: read_from_def)
  from Ack_quiet [OF this assms(2)] show ?thesis .
qed

text \<open>The commands of one delivery: the posts of its dispatch, then its acknowledgement.\<close>

lemma handle_issued:
  assumes "read_from src d" and "posting (sa_dispatcher a)" and "handle a c d w = (r, w')"
  shows "extends w w' \<and> (\<exists>ps. list_all is_post ps \<and>
    issued w w' = ps @ (case r of Ret _ \<Rightarrow> ack_cmds d | Panic _ \<Rightarrow> []) \<and>
    (d_Unprocessable d \<noteq> None \<longrightarrow> ps = []))"
proof -
  have one: "extends w v' \<and> issued w v' = issued w w1 @ ack_cmds d"
    if "extends w w1" "Ack d c w1 = (e, w2)" "trace v' = trace w2" for w1 e w2 v'
  proof -
    note k = Ack_read [OF assms(1) that(2)]
    have "trace w2 = trace w @ issued w w1 @ ack_cmds d"
      using that(1) k unfolding extends_def by (metis append.assoc)
    then show ?thesis using that(3) extendsI [of v' w "issued w w1 @ ack_cmds d"] by simp
  qed
  have snd: "extends w w1 \<and> list_all is_post (issued w w1)"
    if "Send (sa_dispatcher a) c (d_Envelope d) w = (x, w1)" for x w1
    using send_all_posts [OF that [unfolded Send_def]] assms(2) by (simp add: posting_def)
  from assms(3) show ?thesis
  proof (cases rule: handle_cases)
    case (Unprocessable reason)
    define w2 where "w2 = counter_Inc ''conflux_events_unprocessable_total''
      [sa_id a, ref_Name (d_Source d), ''parse'']
      (log_at (sa_log a) LError ''unprocessable entry''
        [(''source'', AStr (ref_Name (d_Source d))), (''position'', AStr (d_Position d)),
         (''reason'', AStr (error_Error reason)), (''raw'', AStr (raw_text d))] w)"
    obtain e w3 where ack: "Ack d c w2 = (e, w3)" by fastforce
    have t: "trace w2 = trace w" by (simp add: w2_def)
    have "trace w' = trace w3"
      using Unprocessable(3) ack
      by (cases e) (simp_all add: handle_unprocessable_def Let_def w2_def)
    with one [OF _ ack] same_trace [OF t] Unprocessable show ?thesis by auto
  next
    case (Panicked m)
    then show ?thesis using snd [OF Panicked(2)] by auto
  next
    case (AckFailed outs w1 w2 err)
    then show ?thesis using snd [OF AckFailed(2)] one [OF _ AckFailed(3), of w'] by auto
  next
    case (Acked outs w1 w2)
    then have "trace w' = trace w2" by simp
    then show ?thesis using snd [OF Acked(2)] one [OF _ Acked(3), of w'] Acked(1,4) by auto
  qed
qed

text \<open>The commands of a batch, delivery by delivery.\<close>

lemma handle_batch_issued:
  assumes "list_all (read_from src) ds" and "posting (sa_dispatcher a)"
    and "handle_batch a c ds w = (Ret stopped, w')"
  shows "\<exists>k pss. k \<le> length ds \<and> length pss = k \<and> list_all (list_all is_post) pss \<and>
    extends w w' \<and> issued w w' = concat (map2 (\<lambda>ps d. ps @ ack_cmds d) pss (take k ds)) \<and>
    w' = after_handling a c (take k ds) w \<and> (\<forall>j < k. ctx_Err c (after_handling a c (take j ds) w) = None) \<and>
    (if stopped then k < length ds \<and> ctx_Err c w' \<noteq> None else k = length ds)"
  using assms
proof (induction ds arbitrary: w)
  case (Cons d ds)
  show ?case
  proof (cases "ctx_Err c w = None")
    case False
    with Cons.prems(3) show ?thesis by (intro exI [of _ 0] exI [of _ "[]"]) auto
  next
    case True
    then obtain w1 where one: "handle a c d w = (Ret (), w1)" and rest: "handle_batch a c ds w1 = (Ret stopped, w')"
      using Cons.prems(3) by (auto split: prod.splits gores.splits)
    have "read_from src d" using Cons.prems(1) by simp
    from handle_issued [OF this Cons.prems(2) one] obtain ps where
      ps: "extends w w1" "list_all is_post ps" "issued w w1 = ps @ ack_cmds d" by auto
    from Cons.IH [OF _ Cons.prems(2) rest] Cons.prems(1) obtain k pss where
      k: "k \<le> length ds" "length pss = k" "list_all (list_all is_post) pss" "extends w1 w'"
        "issued w1 w' = concat (map2 (\<lambda>ps d. ps @ ack_cmds d) pss (take k ds))"
        "w' = after_handling a c (take k ds) w1" "\<forall>j < k. ctx_Err c (after_handling a c (take j ds) w1) = None"
        "if stopped then k < length ds \<and> ctx_Err c w' \<noteq> None else k = length ds" by auto
    have "\<forall>j < Suc k. ctx_Err c (after_handling a c (take j (d # ds)) w) = None"
      using k(7) True one by (auto simp: less_Suc_eq_0_disj)
    with k one ps extends_trans [OF ps(1) k(4)] show ?thesis
      by (intro exI [of _ "Suc k"] exI [of _ "ps # pss"]) (cases stopped; simp)
  qed
qed auto

text \<open>Time moves forward, and a sane policy does not panic.\<close>

lemma handle_clock:
  assumes "read_from src d" and "posting (sa_dispatcher a)" and "handle a c d w = (r, w')"
  shows "clock w \<le> clock w' \<and> (sane_backoff (policy (sa_dispatcher a)) \<longrightarrow> r = Ret ())"
proof -
  have snd: "clock w \<le> clock w1 \<and> (sane_backoff (policy (sa_dispatcher a)) \<longrightarrow> (\<exists>outs. x = Ret outs))"
    if "Send (sa_dispatcher a) c (d_Envelope d) w = (x, w1)" for x w1
    using send_all_clock [OF that [unfolded Send_def]] assms(2)
    by (auto simp: posting_def list_all_iff posting_destination_def)
  have ack: "clock v \<le> clock v'" if "Ack d c v = (e, v')" for v e v'
    using Ack_read [OF assms(1) that] by (simp add: quiet_def)
  from assms(3) show ?thesis
  proof (cases rule: handle_cases)
    case (Unprocessable reason)
    define w2 where "w2 = counter_Inc ''conflux_events_unprocessable_total''
      [sa_id a, ref_Name (d_Source d), ''parse'']
      (log_at (sa_log a) LError ''unprocessable entry''
        [(''source'', AStr (ref_Name (d_Source d))), (''position'', AStr (d_Position d)),
         (''reason'', AStr (error_Error reason)), (''raw'', AStr (raw_text d))] w)"
    obtain e w3 where k: "Ack d c w2 = (e, w3)" by fastforce
    then have "clock w' = clock w3" using Unprocessable(3)
      by (cases e) (simp_all add: handle_unprocessable_def Let_def w2_def)
    moreover have "clock w2 = clock w" by (simp add: w2_def)
    ultimately show ?thesis using ack [OF k] Unprocessable(2) by simp
  next
    case (Panicked m)
    then show ?thesis using snd [OF Panicked(2)] by auto
  next
    case (AckFailed outs w1 w2 err)
    then show ?thesis using snd [OF AckFailed(2)] ack [OF AckFailed(3)] by simp
  next
    case (Acked outs w1 w2)
    then show ?thesis using snd [OF Acked(2)] ack [OF Acked(3)] by simp
  qed
qed

lemma handle_batch_clock:
  assumes "list_all (read_from src) ds" and "posting (sa_dispatcher a)" and "handle_batch a c ds w = (r, w')"
  shows "clock w \<le> clock w' \<and> (sane_backoff (policy (sa_dispatcher a)) \<longrightarrow> (\<exists>b. r = Ret b))"
  using assms
proof (induction ds arbitrary: w)
  case (Cons d ds)
  obtain r1 w1 where one: "handle a c d w = (r1, w1)" by fastforce
  have "read_from src d" using Cons.prems(1) by simp
  note h = handle_clock [OF this Cons.prems(2) one]
  show ?case
  proof (cases "ctx_Err c w = None \<and> r1 = Ret ()")
    case True
    with one Cons.prems(3) have "handle_batch a c ds w1 = (r, w')" by simp
    from Cons.IH [OF _ Cons.prems(2) this] Cons.prems(1) h show ?thesis by auto
  next
    case False
    with one Cons.prems(3) h show ?thesis by (cases r1) (auto split: if_splits)
  qed
qed auto

lemma stream_loop_ends:
  assumes "sa_source a = src" and "posting (sa_dispatcher a)" and "cancel_at c = Some t" and "deadline c = None"
    and "timely_reads src c"
    and "nat (t - clock w) < fuel"
  shows "\<exists>r w'. stream_loop fuel a c w = Some (r, w') \<and>
    (sane_backoff (policy (sa_dispatcher a)) \<longrightarrow>
       (\<exists>e. r = Ret e \<and> (e \<noteq> None \<longrightarrow> ctx_Err c w' = None)))"
  using assms(6)
proof (induction fuel arbitrary: w)
  case (Suc fuel)
  have err: "ctx_Err c v = (if t \<le> clock v then Some ContextCanceled else None)" for v :: "'a world"
    by (simp add: ctx_Err_def ctx_Err_at_def opt_min_def assms(3,4))
  show ?case
  proof (cases "t \<le> clock w")
    case True
    then show ?thesis by (simp add: err)
  next
    case False
    obtain res w1 where read: "src_Read src c w = (res, w1)" by fastforce
    show ?thesis
    proof (cases res)
      case (Inl e)
      with False read assms(1) show ?thesis by (simp add: err)
    next
      case (Inr ds)
      have ds: "list_all (read_from src) ds" using read Inr by (auto simp: list_all_iff read_from_def)
      obtain r2 w2 where batch: "handle_batch a c ds w1 = (r2, w2)" by fastforce
      note b = handle_batch_clock [OF ds assms(2) batch]
      show ?thesis
      proof (cases r2)
        case (Panic m)
        with b False read Inr batch assms(1) show ?thesis by (auto simp: err)
      next
        case (Ret stopped)
        show ?thesis
        proof (cases stopped)
          case True
          with Ret False read Inr batch assms(1) show ?thesis by (simp add: err)
        next
          case go: False
          have "clock w < clock w1" using assms(5) read Inr by (auto simp: timely_reads_def)
          with b have "clock w < clock w2" by simp
          with Suc.prems False have "nat (t - clock w2) < fuel" by simp
          from Suc.IH [OF this] show ?thesis using go Ret False read Inr batch assms(1) by (simp add: err)
        qed
      qed
    qed
  qed
qed simp

end

section \<open>Properties of the stream agent\<close>

lemma handle_resolved:
  assumes "read_from (stream_source u R s) d" and "posting (sa_dispatcher a)" and "d_Unprocessable d = None"
    and "handle a c d w = (r, w')"
  shows "\<exists>res w1. Send (sa_dispatcher a) c (d_Envelope d) w = (res, w1) \<and> list_all is_post (issued w w1) \<and>
    (case res of
       Panic m \<Rightarrow> r = Panic m \<and> w' = w1
     | Ret outs \<Rightarrow> map out_Destination outs = map dest_Name (dests (sa_dispatcher a)) \<and>
         issued w w' = issued w w1 @ [XACK (ref_Name (ss_ref s)) (ss_group s) (d_Position d)])"
proof -
  obtain res w1 where sent: "Send (sa_dispatcher a) c (d_Envelope d) w = (res, w1)" by fastforce
  have x: "list_all posting_destination (dests (sa_dispatcher a))" "1 \<le> MaxAttempts (policy (sa_dispatcher a))"
    using assms(2) by (simp_all add: posting_def)
  have p: "extends w w1" "list_all is_post (issued w w1)"
    using send_all_posts [OF sent [unfolded Send_def] x(2,1)] by simp_all
  show ?thesis
  proof (cases res)
    case (Panic m)
    with sent p assms(3,4) show ?thesis by (simp add: handle_def)
  next
    case (Ret outs)
    have dst: "destination y" if "y \<in> set (dests (sa_dispatcher a))" for y
      using x(1) that by (auto simp: list_all_iff posting_destination_def)
    have names: "map out_Destination outs = map dest_Name (dests (sa_dispatcher a))"
      using send_all_accounts [OF sent [unfolded Send_def Ret] x(2) dst] by simp
    obtain e w2 where ack: "Ack d c w1 = (e, w2)" by fastforce
    note k = stream_src.Ack_read [OF assms(1) ack]
    have "trace w' = trace w2" using assms(3,4) sent Ret ack by (cases e) (auto simp: handle_def split: if_splits)
    then have "extends w2 w' \<and> issued w2 w' = []" by (rule same_trace)
    with k p(1) have "issued w w' = issued w w1 @ [XACK (ref_Name (ss_ref s)) (ss_group s) (d_Position d)]"
      using extends_trans [of w w1 w2] extends_trans [of w w2 w'] by simp
    with names sent p Ret show ?thesis by simp
  qed
qed

text \<open>
  A delivery of a stream is acknowledged only after its dispatch has been resolved at every
  destination: the commands of handling it are the posts of that dispatch, whose outcomes
  account for all configured destinations, followed by exactly one \<open>XACK\<close> of the entry in the
  agent's group. If the dispatch panics, nothing is acknowledged.
\<close>

theorem acknowledged_only_when_resolved:
  assumes "read_from (stream_source u R s) d" and "posting (sa_dispatcher a)" and "d_Unprocessable d = None"
    and "handle a c d w = (r, w')"
  shows "\<exists>res w1. Send (sa_dispatcher a) c (d_Envelope d) w = (res, w1) \<and> list_all is_post (issued w w1) \<and>
    (case res of
       Panic m \<Rightarrow> r = Panic m \<and> w' = w1
     | Ret outs \<Rightarrow> map out_Destination outs = map dest_Name (dests (sa_dispatcher a)) \<and>
         issued w w' = issued w w1 @ [XACK (ref_Name (ss_ref s)) (ss_group s) (d_Position d)])"
  by (rule handle_resolved [OF assms])

text \<open>A server with one good and one bad entry, and a healthy destination.\<close>

definition one_entry_rdb :: "unit rdb" where
  "one_entry_rdb = quiet_rdb\<lparr>x_XReadGroup := (\<lambda>_ _ _ _ _ _ c t n. (Inr [(''events'',
     [\<lparr>m_ID = ''1-0'', m_Values = [''data'' \<mapsto> FString ''{}'']\<rparr>, \<lparr>m_ID = ''2-0'', m_Values = Map.empty\<rparr>])], 5, n))\<rparr>"

definition example_decoder :: json_decoder where
  "example_decoder raw =
     Inr (zero_Envelope\<lparr>EventID := ''e1'', GatewayID := ''gw'', Payload := raw\<rparr>)"

definition good_delivery :: "unit Delivery" where
  "good_delivery = toDelivery example_decoder one_entry_rdb example_stream
     \<lparr>m_ID = ''1-0'', m_Values = [''data'' \<mapsto> FString ''{}'']\<rparr>"

definition bad_delivery :: "unit Delivery" where
  "bad_delivery = toDelivery example_decoder one_entry_rdb example_stream \<lparr>m_ID = ''2-0'', m_Values = Map.empty\<rparr>"

definition example_agent :: "unit StreamAgent" where
  "example_agent = NewStreamAgent ''a'' (stream_source example_decoder one_entry_rdb example_stream)
     (NewDispatcher ''a'' [http_destination example_net (NewLTR ''http://ltr'' ''a'')] example_policy (NewLogger []))
     (NewLogger [])"

lemma example_read:
  "src_Read (stream_source example_decoder one_entry_rdb example_stream) c w =
     (Inr [good_delivery, bad_delivery],
      w\<lparr>clock := clock w + 5, trace := trace w @ [XREADGROUP ''events'' ''>'' ''g:a'' ''c:a:i'' 100 (5 * second)]\<rparr>)"
  by (simp add: stream_source_def StreamSource_Read_def one_entry_rdb_def example_stream_def call_def Let_def
      good_delivery_def bad_delivery_def)

lemma example_reads:
  "read_from (stream_source example_decoder one_entry_rdb example_stream) good_delivery"
  "read_from (stream_source example_decoder one_entry_rdb example_stream) bad_delivery"
  unfolding read_from_def using example_read [of background "example_world"] by fastforce+

lemma example_deliveries:
  "d_Unprocessable good_delivery = None" "d_Position good_delivery = ''1-0''"
  "d_Unprocessable bad_delivery = Some no_data_error" "d_Position bad_delivery = ''2-0''"
  by (simp_all add: good_delivery_def bad_delivery_def toDelivery_def rawData_def Let_def NewDelivery_def Parse_def
      example_decoder_def Envelope_Validate_def)

lemma example_agent_ok:
  "posting (sa_dispatcher example_agent)" "sane_backoff (policy (sa_dispatcher example_agent))"
  "sa_source example_agent = stream_source example_decoder one_entry_rdb example_stream"
  using example_policy_ok
  by (simp_all add: posting_def example_agent_def NewStreamAgent_def NewDispatcher_def http_dest.posting_destination_axioms)

theorem acknowledged_only_when_resolved_witness:
  "\<exists>res w1. Send (sa_dispatcher example_agent) background (d_Envelope good_delivery) example_world = (res, w1) \<and>
     list_all is_post (issued example_world w1)"
proof -
  obtain r w' where h: "handle example_agent background good_delivery example_world = (r, w')" by fastforce
  from acknowledged_only_when_resolved [OF example_reads(1) example_agent_ok(1) example_deliveries(1) h]
  show ?thesis by blast
qed

text \<open>
  C5. A batch of a stream is handled and acknowledged entry by entry, in order, up to the first entry before which the context is
  done: before each handled entry the context was not done, and the commands of the batch are, for each of them, the posts of its
  dispatch followed by its one \<open>XACK\<close>. If that is not the whole batch, the context is done then; none of the other
  entries has been dispatched or acknowledged, and they stay pending.
\<close>

theorem batch_acknowledges_in_order:
  assumes "src_Read (stream_source u R s) c w0 = (Inr ds, w)" and "posting (sa_dispatcher a)"
    and "handle_batch a c ds w = (Ret stopped, w')"
  shows "\<exists>k pss. k \<le> length ds \<and> length pss = k \<and> list_all (list_all is_post) pss \<and>
    issued w w' = concat (map2 (\<lambda>ps d. ps @ [XACK (ref_Name (ss_ref s)) (ss_group s) (d_Position d)]) pss (take k ds)) \<and>
    w' = after_handling a c (take k ds) w \<and> (\<forall>j < k. ctx_Err c (after_handling a c (take j ds) w) = None) \<and>
    (if stopped then k < length ds \<and> ctx_Err c w' \<noteq> None else k = length ds)"
proof -
  have "list_all (read_from (stream_source u R s)) ds" using assms(1) by (auto simp: list_all_iff read_from_def)
  from stream_src.handle_batch_issued [OF this assms(2,3)] show ?thesis
    by (elim exE conjE) (intro exI conjI; assumption)
qed

theorem batch_acknowledges_in_order_witness:
  "\<exists>w w' ps qs. src_Read (sa_source example_agent) background example_world = (Inr [good_delivery, bad_delivery], w) \<and>
     handle_batch example_agent background [good_delivery, bad_delivery] w = (Ret False, w') \<and>
     issued w w' = ps @ [XACK ''events'' ''g:a'' ''1-0''] @ qs @ [XACK ''events'' ''g:a'' ''2-0'']"
proof -
  let ?src = "stream_source example_decoder one_entry_rdb example_stream"
  obtain w where read: "src_Read ?src background example_world = (Inr [good_delivery, bad_delivery], w)"
    using example_read by blast
  obtain r w' where batch: "handle_batch example_agent background [good_delivery, bad_delivery] w = (r, w')" by fastforce
  have "list_all (read_from ?src) [good_delivery, bad_delivery]" using example_reads by simp
  from stream_src.handle_batch_clock [OF this example_agent_ok(1) batch] example_agent_ok(2)
  obtain b where r: "r = Ret b" by blast
  from batch_acknowledges_in_order [OF read example_agent_ok(1) batch [unfolded r]] obtain k pss where
    k: "length pss = k" "issued w w' = concat (map2 (\<lambda>ps d. ps @ [XACK (ref_Name (ss_ref example_stream))
      (ss_group example_stream) (d_Position d)]) pss (take k [good_delivery, bad_delivery]))"
      "if b then k < length [good_delivery, bad_delivery] \<and> ctx_Err background w' \<noteq> None else k = length [good_delivery, bad_delivery]"
    by blast
  from k(3) have "\<not> b" "k = 2" by (simp_all split: if_splits)
  with k(1) obtain ps qs where "pss = [ps, qs]" by (auto simp: numeral_2_eq_2 length_Suc_conv)
  with k \<open>\<not> b\<close> \<open>k = 2\<close> read batch r show ?thesis
    by (intro exI [of _ w] exI [of _ w'] exI [of _ ps] exI [of _ qs])
       (simp add: example_agent_ok(3) example_deliveries example_stream_def)
qed

text \<open>
  C33. An entry that cannot be parsed never stops the stream and never disappears silently: it
  is logged at error level with source, position, reason and its raw bytes in full, counted once,
  not dispatched, and acknowledged so that it is not read again.
\<close>

theorem unprocessable_is_logged_and_acknowledged:
  assumes "read_from (stream_source u R s) d" and "d_Unprocessable d = Some reason" and "handle a c d w = (r, w')"
  shows "r = Ret () \<and> issued w w' = [XACK (ref_Name (ss_ref s)) (ss_group s) (d_Position d)] \<and>
    (\<exists>rest. logs w' = logs w @ \<lparr>l_level = LError, l_msg = ''unprocessable entry'',
       l_attrs = base_attrs (sa_log a) @
         [(''source'', AStr (ref_Name (d_Source d))), (''position'', AStr (d_Position d)),
          (''reason'', AStr (error_Error reason)), (''raw'', AStr (raw_text d))]\<rparr> # rest) \<and>
    counters w' = (let k = (''conflux_events_unprocessable_total'', [sa_id a, ref_Name (d_Source d), ''parse''])
      in (counters w)(k := Suc (counters w k)))"
proof -
  define w2 where "w2 = counter_Inc ''conflux_events_unprocessable_total''
    [sa_id a, ref_Name (d_Source d), ''parse'']
    (log_at (sa_log a) LError ''unprocessable entry''
      [(''source'', AStr (ref_Name (d_Source d))), (''position'', AStr (d_Position d)),
       (''reason'', AStr (error_Error reason)), (''raw'', AStr (raw_text d))] w)"
  obtain e w3 where ack: "Ack d c w2 = (e, w3)" by fastforce
  note k = stream_src.Ack_read [OF assms(1) ack]
  have w': "w' = (case e of None \<Rightarrow> w3 | Some err \<Rightarrow> log_at (sa_log a) LError ''ack failed for unprocessable entry''
      [(''error'', AStr (error_Error err))] w3)"
    using assms(2,3) ack by (auto simp: handle_def handle_unprocessable_def Let_def w2_def split: option.split)
  then have same: "trace w' = trace w3" "counters w' = counters w3" "\<exists>rest. logs w' = logs w3 @ rest"
    by (auto split: option.split)
  have 3: "logs w3 = logs w2" "counters w3 = counters w2" using k by (simp_all add: quiet_def)
  have t: "trace w2 = trace w" by (simp add: w2_def)
  then have "issued w w3 = issued w2 w3" by (simp add: issued_def)
  moreover have "issued w w' = issued w w3" using same(1) by (simp add: issued_def)
  ultimately have iss: "issued w w' = [XACK (ref_Name (ss_ref s)) (ss_group s) (d_Position d)]" using k by simp
  have "r = Ret ()" using assms(2,3) by (auto simp: handle_def)
  with iss same(2,3) show ?thesis by (simp add: 3 w2_def) (auto simp: Let_def)
qed

theorem unprocessable_is_logged_and_acknowledged_witness:
  "\<exists>r w'. handle example_agent background bad_delivery example_world = (r, w') \<and>
     issued example_world w' = [XACK ''events'' ''g:a'' ''2-0'']"
proof -
  obtain r w' where h: "handle example_agent background bad_delivery example_world = (r, w')" by fastforce
  from unprocessable_is_logged_and_acknowledged [OF example_reads(2) example_deliveries(3) h] h show ?thesis
    by (simp add: example_deliveries example_stream_def)
qed

text \<open>
  C32. A stream agent ends when it is told to: if its context is cancelled at an instant \<open>t\<close> and
  every read that returns takes time, one read per nanosecond left, and one more, is fuel enough
  for \<open>Run\<close> to return; with sane backoffs it returns without a panic, and it reports an error only
  if the context was not done.
\<close>

theorem StreamAgent_Run_ends:
  assumes "sa_source a = stream_source u R s" and "posting (sa_dispatcher a)"
    and "sane_backoff (policy (sa_dispatcher a))" and "cancel_at c = Some t" and "deadline c = None"
    and "timely_reads (stream_source u R s) c"
  shows "\<exists>e w'. StreamAgent_Run (Suc (nat (t - clock w))) a c w = Some (Ret e, w') \<and>
    (e = None \<or> ctx_Err c w' = None)"
proof -
  let ?w = "log_at (sa_log a) LInfo ''stream agent started'' [] w"
  have "nat (t - clock ?w) < Suc (nat (t - clock w))" by simp
  from stream_src.stream_loop_ends [OF assms(1,2,4,5,6) this] assms(3) obtain e w' where
    "stream_loop (Suc (nat (t - clock w))) a c ?w = Some (Ret e, w')" "e = None \<or> ctx_Err c w' = None" by auto
  then show ?thesis unfolding StreamAgent_Run_def by (intro exI conjI)
qed

theorem StreamAgent_Run_ends_witness:
  "\<exists>e w'. StreamAgent_Run (Suc (nat (1500 - 1000))) example_agent (background\<lparr>cancel_at := Some 1500\<rparr>) example_world =
     Some (Ret e, w')"
proof -
  have "timely_reads (stream_source example_decoder one_entry_rdb example_stream) (background\<lparr>cancel_at := Some 1500\<rparr>)"
    by (auto simp: timely_reads_def example_read)
  from StreamAgent_Run_ends [OF example_agent_ok(3,1,2) _ _ this, of 1500 example_world]
  show ?thesis by (auto simp: background_def example_world_def start_world_def)
qed

end
