(* ===== verification/Runner.thy ===== *)
theory Runner
  imports GoRuntime
begin

text \<open>
  The supervisor of all agents (\<open>internal/agent/agent.go\<close>, \<open>runner.go\<close>). One turn of
  \<open>supervise\<close> is cut at the points where its goroutine can be descheduled: the check at the
  top of the loop, the return (or panic) of the agent's \<open>Run\<close>, and the wait before the next
  turn. \<open>supervise\<close> composes the three sequentially; \<open>runner_step\<close> interleaves them for all
  agents of the process, with arbitrary results of the agents and arbitrary scheduling; in it the timer of
  a wait fires when its backoff is over on the clock of the world.
\<close>

section \<open>Agents and their status\<close>

datatype State =
  StateConfigured | StateRunning | StateRecovering | StateDegraded | StateDraining | StateStopped

fun State_string :: "State \<Rightarrow> string" where
  "State_string StateConfigured = ''configured''"
| "State_string StateRunning = ''running''"
| "State_string StateRecovering = ''recovering''"
| "State_string StateDegraded = ''degraded''"
| "State_string StateDraining = ''draining''"
| "State_string StateStopped = ''stopped''"

text \<open>\<open>Run\<close> of an agent: \<open>None\<close> while it has not returned.\<close>

record 'n Agent =
  ag_ID :: string
  ag_SourceName :: string
  ag_Run :: "ctx \<Rightarrow> 'n world \<Rightarrow> (gerror option gores \<times> 'n world) option"

record status =
  st_state :: State
  st_lastErr :: string
  st_panics :: int
  st_restarts :: int

definition status_set :: "State \<Rightarrow> status \<Rightarrow> status" where
  "status_set s st = st\<lparr>st_state := s\<rparr>"

definition status_fail :: "State \<Rightarrow> string \<Rightarrow> status \<Rightarrow> status" where
  "status_fail s err st = st\<lparr>st_state := s, st_lastErr := err\<rparr>"

definition snapshot :: "status \<Rightarrow> State \<times> string \<times> int \<times> int" where
  "snapshot st = (st_state st, st_lastErr st, st_panics st, st_restarts st)"

section \<open>Supervision of one agent\<close>

abbreviation restartBackoffInitial :: duration where "restartBackoffInitial \<equiv> 500 * millisecond"
abbreviation restartBackoffMax :: duration where "restartBackoffMax \<equiv> 30 * second"
abbreviation degradedAfter :: int where "degradedAfter \<equiv> 3"

record RunnerCfg =
  rn_log :: logger
  rn_grace :: duration
  rn_backoffInitial :: duration

definition NewRunner :: "logger \<Rightarrow> duration \<Rightarrow> RunnerCfg" where
  "NewRunner lg grace = \<lparr>rn_log = lg, rn_grace = grace, rn_backoffInitial = restartBackoffInitial\<rparr>"

definition SetRestartBackoff :: "duration \<Rightarrow> RunnerCfg \<Rightarrow> RunnerCfg" where
  "SetRestartBackoff d r = r\<lparr>rn_backoffInitial := d\<rparr>"

text \<open>Where the goroutine of \<open>supervise\<close> is, its local variables, and the shared status.\<close>

datatype phase = AtTop | InRun | Waiting | Exited

record supervisor =
  sv_phase :: phase
  sv_status :: status
  sv_backoff :: duration
  sv_consecutive :: int

definition new_supervisor :: "RunnerCfg \<Rightarrow> supervisor" where
  "new_supervisor r =
     \<lparr>sv_phase = AtTop,
      sv_status = \<lparr>st_state = StateConfigured, st_lastErr = [], st_panics = 0, st_restarts = 0\<rparr>,
      sv_backoff = rn_backoffInitial r, sv_consecutive = 0\<rparr>"

definition stop_now :: "supervisor \<Rightarrow> supervisor" where
  "stop_now sv = sv\<lparr>sv_phase := Exited, sv_status := status_set StateStopped (sv_status sv)\<rparr>"

text \<open>The top of the loop; the argument says whether the context is done.\<close>

definition sv_top :: "bool \<Rightarrow> supervisor \<Rightarrow> supervisor" where
  "sv_top dn sv =
     (if dn then stop_now sv
      else sv\<lparr>sv_phase := InRun, sv_status := status_set StateRunning (sv_status sv)\<rparr>)"

text \<open>\<open>runOnce\<close>: a panic of the agent becomes an error.\<close>

definition runOnce ::
  "string \<Rightarrow> logger \<Rightarrow> gerror option gores \<Rightarrow> status \<Rightarrow> 'n world \<Rightarrow> gerror option \<times> status \<times> 'n world" where
  "runOnce ident lg res st w =
     (case res of
        Ret err \<Rightarrow> (err, st, w)
      | Panic p \<Rightarrow>
          (Some (ErrorString (''panic: '' @ p)),
           st\<lparr>st_panics := st_panics st + 1\<rparr>,
           log_at lg LError ''agent panicked; contained'' [(''panic'', AStr p)]
             (counter_Inc ''conflux_agent_panics_total'' [ident] w)))"

text \<open>After \<open>runOnce\<close>: the switch on the context and the error.\<close>

definition sv_after ::
  "RunnerCfg \<Rightarrow> string \<Rightarrow> string \<Rightarrow> bool \<Rightarrow> gerror option gores \<Rightarrow> supervisor \<Rightarrow> 'n world \<Rightarrow> supervisor \<times> 'n world" where
  "sv_after r ident source dn res sv w =
     (let lg = ForAgent (rn_log r) ident source;
          (err, st, w1) = runOnce ident lg res (sv_status sv) w;
          sv1 = sv\<lparr>sv_status := st\<rparr>
      in if dn then (stop_now sv1, log_at lg LInfo ''agent stopped'' [] w1)
         else case err of
           None \<Rightarrow> (sv1\<lparr>sv_phase := Waiting, sv_consecutive := 0, sv_backoff := rn_backoffInitial r\<rparr>, w1)
         | Some e \<Rightarrow>
             (let n = sv_consecutive sv1 + 1;
                  state = (if n \<ge> degradedAfter then StateDegraded else StateRecovering)
              in (sv1\<lparr>sv_phase := Waiting, sv_consecutive := n,
                      sv_status := status_fail state (error_Error e)
                        (st\<lparr>st_restarts := st_restarts st + 1\<rparr>)\<rparr>,
                  log_at lg LError ''agent failed; restarting''
                    [(''error'', AStr (error_Error e)), (''consecutive_failures'', AInt n),
                     (''state'', AStr (State_string state)), (''backoff'', ADur (sv_backoff sv1))] w1)))"

text \<open>The wait; the argument says whether the context ended it.\<close>

definition sv_wait :: "bool \<Rightarrow> supervisor \<Rightarrow> supervisor" where
  "sv_wait dn sv =
     (if dn then stop_now sv
      else let b = wrap64 (sv_backoff sv * 2) in
        sv\<lparr>sv_phase := AtTop, sv_backoff := (if b > restartBackoffMax then restartBackoffMax else b)\<rparr>)"

fun supervise ::
  "nat \<Rightarrow> RunnerCfg \<Rightarrow> ctx \<Rightarrow> 'n Agent \<Rightarrow> supervisor \<Rightarrow> 'n world \<Rightarrow> (supervisor \<times> 'n world) option" where
  "supervise 0 r c a sv w = None"
| "supervise (Suc fuel) r c a sv w =
     (let sv1 = sv_top (ctx_Err c w \<noteq> None) sv in
      if sv_phase sv1 = Exited then Some (sv1, w)
      else case ag_Run a c w of
        None \<Rightarrow> None
      | Some (res, w1) \<Rightarrow>
          (let (sv2, w2) = sv_after r (ag_ID a) (ag_SourceName a) (ctx_Err c w1 \<noteq> None) res sv1 w1 in
           if sv_phase sv2 = Exited then Some (sv2, w2)
           else let (won, w3) = select_done_after c (sv_backoff sv2) w2;
                    sv3 = sv_wait won sv2
             in if sv_phase sv3 = Exited then Some (sv3, w3) else supervise fuel r c a sv3 w3))"

section \<open>The runner\<close>

text \<open>\<open>Start\<close>: one fresh status and one goroutine per agent id.\<close>

fun Start :: "RunnerCfg \<Rightarrow> string list \<Rightarrow> (string \<rightharpoonup> supervisor) \<Rightarrow> (string \<rightharpoonup> supervisor)" where
  "Start r [] m = m"
| "Start r (i # ids) m = Start r ids (m(i \<mapsto> new_supervisor r))"

text \<open>\<open>Wait\<close>: until all goroutines have returned (at the given instant, if ever) or the grace
  period is over.\<close>

definition Wait :: "RunnerCfg \<Rightarrow> time option \<Rightarrow> 'n world \<Rightarrow> 'n world" where
  "Wait r all_done w =
     (case select_done_after (background\<lparr>cancel_at := all_done\<rparr>) (rn_grace r) w of
        (True, w1) \<Rightarrow> log_at (rn_log r) LInfo ''all agents drained'' [] w1
      | (False, w1) \<Rightarrow>
          log_at (rn_log r) LWarn ''shutdown grace expired; exiting with agents still draining''
            [(''grace'', ADur (rn_grace r))] w1)"

record Health =
  h_ID :: string
  h_State :: string
  h_LastErr :: string
  h_Panics :: int
  h_Restarts :: int

definition health_of :: "string \<Rightarrow> status \<Rightarrow> Health" where
  "health_of ident st =
     (case snapshot st of (s, e, p, n) \<Rightarrow>
        \<lparr>h_ID = ident, h_State = State_string s, h_LastErr = e, h_Panics = p, h_Restarts = n\<rparr>)"

text \<open>\<open>Health\<close> reads the statuses of the ids in some order of the map.\<close>

definition Runner_Health :: "string list \<Rightarrow> (string \<rightharpoonup> supervisor) \<Rightarrow> Health list" where
  "Runner_Health ids m =
     concat (map (\<lambda>i. case m i of None \<Rightarrow> [] | Some sv \<Rightarrow> [health_of i (sv_status sv)]) ids)"

section \<open>All agents, interleaved\<close>

text \<open>The state of the process as far as the runner is concerned.\<close>

record 'n rsys =
  rs_done :: bool \<comment> \<open>the root context is done\<close>
  rs_world :: "'n world"
  rs_sup :: "string \<rightharpoonup> supervisor"
  rs_timer :: "string \<Rightarrow> time" \<comment> \<open>when the \<open>time.After\<close> of an agent that waits fires\<close>

text \<open>What agents and the rest of the process do to the world between two steps of the runner: time
  passes, and the panic counter is the runner's own. The timer is started when the wait begins, and the wait
  ends when it has fired or, once the context is done, at once.\<close>

definition leaves_panics :: "'n world \<Rightarrow> 'n world \<Rightarrow> bool" where
  "leaves_panics w w' \<longleftrightarrow>
     (\<forall>ls. counters w' (''conflux_agent_panics_total'', ls) = counters w (''conflux_agent_panics_total'', ls))"

definition elapses :: "'n world \<Rightarrow> 'n world \<Rightarrow> bool" where
  "elapses w w' \<longleftrightarrow> clock w \<le> clock w' \<and> leaves_panics w w'"

definition timer_of :: "supervisor \<Rightarrow> 'n world \<Rightarrow> time" where
  "timer_of sv w = clock w + max 0 (sv_backoff sv)"

inductive runner_step :: "RunnerCfg \<Rightarrow> (string \<Rightarrow> string) \<Rightarrow> 'n rsys \<Rightarrow> 'n rsys \<Rightarrow> bool"
  for r :: RunnerCfg and source :: "string \<Rightarrow> string" where
  Cancel: "runner_step r source s (s\<lparr>rs_done := True\<rparr>)"
| Work: "elapses (rs_world s) w' \<Longrightarrow> runner_step r source s (s\<lparr>rs_world := w'\<rparr>)"
| Top: "rs_sup s i = Some sv \<Longrightarrow> sv_phase sv = AtTop \<Longrightarrow>
    runner_step r source s (s\<lparr>rs_sup := (rs_sup s)(i \<mapsto> sv_top (rs_done s) sv)\<rparr>)"
| Return: "rs_sup s i = Some sv \<Longrightarrow> sv_phase sv = InRun \<Longrightarrow>
    sv_after r i (source i) (rs_done s) res sv (rs_world s) = (sv', w') \<Longrightarrow>
    runner_step r source s
      (s\<lparr>rs_sup := (rs_sup s)(i \<mapsto> sv'), rs_world := w', rs_timer := (rs_timer s)(i := timer_of sv' w')\<rparr>)"
| Fire: "rs_sup s i = Some sv \<Longrightarrow> sv_phase sv = Waiting \<Longrightarrow> rs_timer s i \<le> clock (rs_world s) \<Longrightarrow>
    runner_step r source s (s\<lparr>rs_sup := (rs_sup s)(i \<mapsto> sv_wait False sv)\<rparr>)"
| Done: "rs_sup s i = Some sv \<Longrightarrow> sv_phase sv = Waiting \<Longrightarrow> rs_done s \<Longrightarrow>
    runner_step r source s (s\<lparr>rs_sup := (rs_sup s)(i \<mapsto> sv_wait True sv)\<rparr>)"

inductive_cases runner_stepE: "runner_step r source s s'"

inductive runner_steps :: "RunnerCfg \<Rightarrow> (string \<Rightarrow> string) \<Rightarrow> 'n rsys \<Rightarrow> 'n rsys \<Rightarrow> bool"
  for r :: RunnerCfg and source :: "string \<Rightarrow> string" where
  steps_refl: "runner_steps r source s s"
| steps_step: "runner_steps r source s s' \<Longrightarrow> runner_step r source s' s'' \<Longrightarrow> runner_steps r source s s''"

definition started :: "RunnerCfg \<Rightarrow> 'n Agent list \<Rightarrow> 'n world \<Rightarrow> 'n rsys" where
  "started r as w = \<lparr>rs_done = False, rs_world = w, rs_sup = Start r (map ag_ID as) Map.empty, rs_timer = (\<lambda>_. 0)\<rparr>"

section \<open>Invariants\<close>

text \<open>What holds of one supervised agent at every moment: its phase and its reported state fit,
  failures are counted, and the restart backoff stays between its initial value and 30 seconds.\<close>

definition sv_ok :: "RunnerCfg \<Rightarrow> bool \<Rightarrow> supervisor \<Rightarrow> bool" where
  "sv_ok r dn sv \<longleftrightarrow>
     (sv_phase sv = Exited \<longrightarrow> dn) \<and>
     (st_state (sv_status sv) = StateStopped \<longleftrightarrow> sv_phase sv = Exited) \<and>
     (sv_phase sv = InRun \<longrightarrow> st_state (sv_status sv) = StateRunning) \<and>
     (sv_phase sv = Waiting \<longrightarrow> st_state (sv_status sv) =
        (if sv_consecutive sv = 0 then StateRunning
         else if degradedAfter \<le> sv_consecutive sv then StateDegraded else StateRecovering)) \<and>
     0 \<le> sv_consecutive sv \<and> sv_consecutive sv \<le> st_restarts (sv_status sv) \<and>
     rn_backoffInitial r \<le> sv_backoff sv \<and> sv_backoff sv \<le> restartBackoffMax"

definition sane_runner :: "RunnerCfg \<Rightarrow> bool" where
  "sane_runner r \<longleftrightarrow> 0 < rn_backoffInitial r \<and> rn_backoffInitial r \<le> restartBackoffMax"

lemma NewRunner_sane [simp]: "sane_runner (NewRunner lg grace)"
  by (simp add: sane_runner_def NewRunner_def)

lemma sv_ok_new: "sane_runner r \<Longrightarrow> sv_ok r dn (new_supervisor r)"
  by (simp add: sv_ok_def new_supervisor_def sane_runner_def)

lemma sv_ok_done: "sv_ok r dn sv \<Longrightarrow> sv_ok r True sv"
  by (auto simp: sv_ok_def)

lemma sv_ok_stop: "sv_ok r True sv \<Longrightarrow> sv_ok r True (stop_now sv)"
  by (auto simp: sv_ok_def stop_now_def status_set_def)

lemma sv_ok_top: "sv_ok r dn sv \<Longrightarrow> sv_ok r dn (sv_top dn sv)"
  by (auto simp: sv_top_def sv_ok_stop) (auto simp: sv_ok_def status_set_def)

lemma sv_ok_wait:
  assumes "sane_runner r" and "sv_ok r dn sv" and "sv_phase sv = Waiting" and "b \<Longrightarrow> dn"
  shows "sv_ok r dn (sv_wait b sv)"
proof (cases b)
  case True
  with assms(2,4) show ?thesis by (auto simp: sv_wait_def sv_ok_stop)
next
  case False
  have b: "rn_backoffInitial r \<le> sv_backoff sv" "sv_backoff sv \<le> restartBackoffMax" "0 < rn_backoffInitial r"
    using assms(1,2) by (simp_all add: sv_ok_def sane_runner_def)
  then have "wrap64 (sv_backoff sv * 2) = sv_backoff sv * 2"
    by (intro wrap64_id) (simp add: in64_def minInt64_def maxInt64_def)
  with False b assms show ?thesis by (auto simp: sv_wait_def Let_def sv_ok_def sane_runner_def)
qed

lemma sv_ok_after:
  assumes "sane_runner r" and "sv_ok r dn sv" and "sv_phase sv = InRun" and "sv_after r i src dn res sv w = (sv', w')"
  shows "sv_ok r dn sv'"
proof -
  obtain err st w1 where ro: "runOnce i (ForAgent (rn_log r) i src) res (sv_status sv) w = (err, st, w1)"
    by (metis prod_cases3)
  have st: "st_state st = st_state (sv_status sv)" "st_restarts st = st_restarts (sv_status sv)"
    using ro by (auto simp: runOnce_def split: gores.splits)
  have ok: "sv_ok r dn (sv\<lparr>sv_status := st\<rparr>)" using assms(2) by (simp add: sv_ok_def st)
  show ?thesis
  proof (cases dn)
    case True
    with assms(4) ro ok show ?thesis by (auto simp: sv_after_def Let_def sv_ok_stop)
  next
    case False
    with assms ro st show ?thesis
      by (cases err) (auto simp: sv_after_def Let_def sv_ok_def sane_runner_def status_fail_def)
  qed
qed

text \<open>The counter of panics and the statuses agree.\<close>

definition panics_counted :: "'n world \<Rightarrow> 'n rsys \<Rightarrow> bool" where
  "panics_counted w0 s \<longleftrightarrow>
     (\<forall>i sv. rs_sup s i = Some sv \<longrightarrow>
        int (counters (rs_world s) (''conflux_agent_panics_total'', [i])) =
        int (counters w0 (''conflux_agent_panics_total'', [i])) + st_panics (sv_status sv))"

lemma sv_top_panics [simp]: "st_panics (sv_status (sv_top b sv)) = st_panics (sv_status sv)"
  by (simp add: sv_top_def stop_now_def status_set_def)

lemma sv_wait_panics [simp]: "st_panics (sv_status (sv_wait b sv)) = st_panics (sv_status sv)"
  by (simp add: sv_wait_def stop_now_def status_set_def Let_def)

lemma sv_after_panics:
  assumes "sv_after r i src dn res sv w = (sv', w')"
  shows "int (counters w' (''conflux_agent_panics_total'', [i])) - st_panics (sv_status sv') =
      int (counters w (''conflux_agent_panics_total'', [i])) - st_panics (sv_status sv) \<and>
    (\<forall>k. k \<noteq> (''conflux_agent_panics_total'', [i]) \<longrightarrow> counters w' k = counters w k) \<and>
    (\<forall>p. res = Panic p \<longrightarrow> st_panics (sv_status sv') = st_panics (sv_status sv) + 1)"
proof -
  obtain err st w1 where ro: "runOnce i (ForAgent (rn_log r) i src) res (sv_status sv) w = (err, st, w1)"
    by (metis prod_cases3)
  have "st_panics (sv_status sv') = st_panics st \<and> counters w' = counters w1"
    using assms ro
    by (cases dn; cases err) (auto simp: sv_after_def Let_def stop_now_def status_set_def status_fail_def)
  with ro show ?thesis by (auto simp: runOnce_def split: gores.splits)
qed

lemma Start_Some:
  "Start r ids m i = Some sv \<Longrightarrow> m i = Some sv \<or> i \<in> set ids \<and> sv = new_supervisor r"
  by (induction r ids m rule: Start.induct) (auto split: if_splits)

lemma Start_dom: "dom (Start r ids m) = dom m \<union> set ids"
  by (induction ids arbitrary: m) (simp_all add: insert_commute)

definition runner_inv :: "RunnerCfg \<Rightarrow> 'n Agent list \<Rightarrow> 'n world \<Rightarrow> 'n rsys \<Rightarrow> bool" where
  "runner_inv r as w0 s \<longleftrightarrow>
     dom (rs_sup s) = ag_ID ` set as \<and> (\<forall>i sv. rs_sup s i = Some sv \<longrightarrow> sv_ok r (rs_done s) sv) \<and> panics_counted w0 s"

lemma runner_inv_started: "sane_runner r \<Longrightarrow> runner_inv r as w0 (started r as w0)"
  by (auto simp: runner_inv_def started_def Start_dom panics_counted_def sv_ok_new dest!: Start_Some)
     (simp add: new_supervisor_def)

lemma runner_inv_step:
  assumes "sane_runner r" and "runner_step r source s s'" and inv: "runner_inv r as w0 s"
  shows "runner_inv r as w0 s'"
  using assms(2)
proof cases
  case Cancel
  with inv show ?thesis by (auto simp: runner_inv_def panics_counted_def intro: sv_ok_done)
next
  case (Work w')
  with inv show ?thesis by (simp add: runner_inv_def panics_counted_def elapses_def leaves_panics_def)
next
  case (Top i sv)
  with inv show ?thesis by (auto simp: runner_inv_def panics_counted_def sv_ok_top)
next
  case (Return i sv res sv' w')
  have "sv_ok r (rs_done s) sv'"
    using inv Return by (intro sv_ok_after [OF assms(1) _ Return(3,4)]) (simp add: runner_inv_def)
  moreover have "dom ((rs_sup s)(i \<mapsto> sv')) = dom (rs_sup s)" using Return(2) by auto
  ultimately show ?thesis
    using inv Return sv_after_panics [OF Return(4)] by (auto simp: runner_inv_def panics_counted_def)
next
  case (Fire i sv)
  moreover from this have "sv_ok r (rs_done s) (sv_wait False sv)"
    using inv by (intro sv_ok_wait [OF assms(1)]) (simp_all add: runner_inv_def)
  ultimately show ?thesis using inv by (auto simp: runner_inv_def panics_counted_def)
next
  case (Done i sv)
  moreover from this have "sv_ok r (rs_done s) (sv_wait True sv)"
    using inv by (intro sv_ok_wait [OF assms(1)]) (simp_all add: runner_inv_def)
  ultimately show ?thesis using inv by (auto simp: runner_inv_def panics_counted_def)
qed

lemma runner_inv_steps:
  "runner_steps r source s s' \<Longrightarrow> sane_runner r \<Longrightarrow> runner_inv r as w0 s \<Longrightarrow> runner_inv r as w0 s'"
  by (induction rule: runner_steps.induct) (auto intro: runner_inv_step)

lemmas steps_one = steps_step [OF steps_refl]

lemma steps_trans: "runner_steps r source s1 s2 \<Longrightarrow> runner_steps r source s2 s3 \<Longrightarrow> runner_steps r source s1 s3"
  by (rotate_tac, induction rule: runner_steps.induct) (auto intro: steps_step)

section \<open>The sequential loop is one of the interleavings\<close>

text \<open>An agent that leaves the runner's metric alone and takes no negative time.\<close>

definition own_metrics :: "'n Agent \<Rightarrow> bool" where
  "own_metrics a \<longleftrightarrow> (\<forall>c w res w'. ag_Run a c w = Some (res, w') \<longrightarrow> elapses w w')"

abbreviation at_sys :: "bool \<Rightarrow> 'n world \<Rightarrow> (string \<rightharpoonup> supervisor) \<Rightarrow> (string \<Rightarrow> time) \<Rightarrow> 'n rsys" where
  "at_sys dn w m t \<equiv> \<lparr>rs_done = dn, rs_world = w, rs_sup = m, rs_timer = t\<rparr>"

lemma step_Top:
  "sv_phase sv = AtTop \<Longrightarrow> runner_step r source (at_sys dn w (m(i \<mapsto> sv)) t) (at_sys dn w (m(i \<mapsto> sv_top dn sv)) t)"
  using runner_step.Top [of "at_sys dn w (m(i \<mapsto> sv)) t" i sv r source] by simp

lemma step_Return:
  "sv_phase sv = InRun \<Longrightarrow> sv_after r i (source i) dn res sv w = (sv', w') \<Longrightarrow>
     runner_step r source (at_sys dn w (m(i \<mapsto> sv)) t) (at_sys dn w' (m(i \<mapsto> sv')) (t(i := timer_of sv' w')))"
  using runner_step.Return [of "at_sys dn w (m(i \<mapsto> sv)) t" i sv r source res sv' w'] by simp

lemma step_Fire:
  "sv_phase sv = Waiting \<Longrightarrow> t i \<le> clock w \<Longrightarrow>
     runner_step r source (at_sys dn w (m(i \<mapsto> sv)) t) (at_sys dn w (m(i \<mapsto> sv_wait False sv)) t)"
  using runner_step.Fire [of "at_sys dn w (m(i \<mapsto> sv)) t" i sv r source] by simp

lemma step_Done:
  "sv_phase sv = Waiting \<Longrightarrow> runner_step r source (at_sys True w (m(i \<mapsto> sv)) t) (at_sys True w (m(i \<mapsto> sv_wait True sv)) t)"
  using runner_step.Done [of "at_sys True w (m(i \<mapsto> sv)) t" i sv r source] by simp

lemma step_Work: "elapses w w' \<Longrightarrow> runner_step r source (at_sys dn w m t) (at_sys dn w' m t)"
  using runner_step.Work [of "at_sys dn w m t" w' r source] by simp

lemma step_Cancel: "runner_step r source (at_sys dn w m t) (at_sys True w m t)"
  using runner_step.Cancel [of r source "at_sys dn w m t"] by simp

lemma select_fires: "select_done_after c d w = (b, w') \<Longrightarrow> \<not> b \<Longrightarrow> clock w + max 0 d \<le> clock w'"
  by (auto simp: select_done_after_def Let_def split: option.splits if_splits)

text \<open>The context may have become done since the last step.\<close>

lemma steps_done: "runner_steps r source (at_sys False w m t) (at_sys b w m t)"
  by (cases b) (auto intro: steps_refl steps_one step_Cancel)

lemma phase_after:
  "sv_after r i src dn res sv w = (sv', w') \<Longrightarrow> sv_phase sv' = (if dn then Exited else Waiting)"
  by (auto simp: sv_after_def Let_def stop_now_def split: option.splits prod.splits if_splits)

lemma phase_wait [simp]: "sv_phase (sv_wait b sv) = (if b then Exited else AtTop)"
  by (simp add: sv_wait_def stop_now_def Let_def)

lemma phase_top [simp]: "sv_phase (sv_top b sv) = (if b then Exited else InRun)"
  by (simp add: sv_top_def stop_now_def)

lemma supervise_steps:
  assumes "own_metrics a" and "source (ag_ID a) = ag_SourceName a"
  shows "supervise fuel r c a sv w = Some (sv', w') \<Longrightarrow> sv_phase sv = AtTop \<Longrightarrow>
    \<exists>t'. runner_steps r source (at_sys False w (m(ag_ID a \<mapsto> sv)) t) (at_sys True w' (m(ag_ID a \<mapsto> sv')) t') \<and> sv_phase sv' = Exited"
proof (induction fuel arbitrary: sv w t)
  case (Suc fuel)
  let ?i = "ag_ID a"
  let ?d = "ctx_Err c w \<noteq> None"
  have top: "runner_steps r source (at_sys False w (m(?i \<mapsto> sv)) t) (at_sys ?d w (m(?i \<mapsto> sv_top ?d sv)) t)"
    by (rule steps_step [OF steps_done step_Top]) (rule Suc.prems(2))
  show ?case
  proof (cases ?d)
    case True
    then have "sv' = sv_top True sv" "w' = w" using Suc.prems(1) by (simp_all add: Let_def)
    moreover from True have "?d = True" by simp
    ultimately show ?thesis using top phase_top [of True sv] by (intro exI [of _ t]) (simp only: if_True simp_thms)
  next
    case run: False
    define sv1 where "sv1 = sv_top False sv"
    obtain res w1 where R: "ag_Run a c w = Some (res, w1)"
      using Suc.prems(1) run by (auto simp: Let_def split: option.splits)
    let ?d1 = "ctx_Err c w1 \<noteq> None"
    obtain sv2 w2 where A: "sv_after r ?i (ag_SourceName a) ?d1 res sv1 w1 = (sv2, w2)" by fastforce
    let ?t = "t(?i := timer_of sv2 w2)"
    have "elapses w w1" using assms(1) R by (auto simp: own_metrics_def)
    then have work: "runner_steps r source (at_sys False w (m(?i \<mapsto> sv1)) t) (at_sys ?d1 w1 (m(?i \<mapsto> sv1)) t)"
      by (rule steps_trans [OF steps_one [OF step_Work] steps_done])
    have return: "runner_step r source (at_sys ?d1 w1 (m(?i \<mapsto> sv1)) t) (at_sys ?d1 w2 (m(?i \<mapsto> sv2)) ?t)"
      by (rule step_Return) (use A assms(2) in \<open>simp_all add: sv1_def\<close>)
    from run have "?d = False" by simp
    note top' = top [unfolded this, folded sv1_def]
    have upto2: "runner_steps r source (at_sys False w (m(?i \<mapsto> sv)) t) (at_sys ?d1 w2 (m(?i \<mapsto> sv2)) ?t)"
      by (rule steps_step [OF steps_trans [OF top' work] return])
    show ?thesis
    proof (cases ?d1)
      case True
      then have "sv' = sv2" "w' = w2" using phase_after [OF A] Suc.prems(1) run R A by (simp_all add: Let_def sv1_def)
      moreover from True have "?d1 = True" by simp
      ultimately show ?thesis using upto2 phase_after [OF A] by (intro exI [of _ ?t]) (simp only: if_True simp_thms)
    next
      case go: False
      then have p2: "sv_phase sv2 = Waiting" using phase_after [OF A] by simp
      obtain won w3 where S: "select_done_after c (sv_backoff sv2) w2 = (won, w3)" by fastforce
      have "elapses w2 w3" using select_frame(2,7) [OF S] by (simp add: elapses_def leaves_panics_def)
      then have upto3: "runner_steps r source (at_sys False w (m(?i \<mapsto> sv)) t) (at_sys False w3 (m(?i \<mapsto> sv2)) ?t)"
        using upto2 go steps_step [OF _ step_Work] by simp
      show ?thesis
      proof (cases won)
        case True
        then have "supervise (Suc fuel) r c a sv w = Some (sv_wait True sv2, w3)"
          using run R A go p2 S by (simp add: Let_def sv1_def)
        then have eq: "sv' = sv_wait True sv2" "w' = w3" using Suc.prems(1) by simp_all
        have "runner_steps r source (at_sys False w (m(?i \<mapsto> sv)) t) (at_sys True w3 (m(?i \<mapsto> sv_wait True sv2)) ?t)"
          by (rule steps_step [OF steps_trans [OF upto3 steps_done] step_Done [OF p2]])
        then show ?thesis unfolding eq using phase_wait [of True sv2] by (intro exI [of _ ?t]) (simp only: if_True simp_thms)
      next
        case False
        then have rec: "supervise fuel r c a (sv_wait False sv2) w3 = Some (sv', w')"
          using Suc.prems(1) run R A go p2 S by (simp add: Let_def sv1_def)
        have fired: "?t ?i \<le> clock w3" using select_fires [OF S False] by (simp add: timer_of_def)
        have "sv_phase (sv_wait False sv2) = AtTop" by simp
        from Suc.IH [OF rec this] steps_trans [OF steps_step [OF upto3 step_Fire [of _ ?t, OF p2 fired]]] show ?thesis by blast
      qed
    qed
  qed
qed simp

section \<open>Restarts back off\<close>

text \<open>The least time that \<open>k\<close> failures in a row must take: the backoff doubles from its initial value up to its maximum.\<close>

abbreviation hold :: "RunnerCfg \<Rightarrow> nat \<Rightarrow> duration" where
  "hold r k \<equiv> min restartBackoffMax (rn_backoffInitial r * 2 ^ k)"

definition held :: "RunnerCfg \<Rightarrow> nat \<Rightarrow> duration" where
  "held r k = (\<Sum>i<k. hold r i)"

text \<open>\<open>e\<close> is the time since the start, \<open>f\<close> the time until the timer fires. The last failure may still be waiting; at the top of
  the loop and while the agent runs, all of them have waited.\<close>

definition spaced :: "RunnerCfg \<Rightarrow> duration \<Rightarrow> duration \<Rightarrow> supervisor \<Rightarrow> bool" where
  "spaced r e f sv \<longleftrightarrow>
     (let k = nat (sv_consecutive sv); n = st_restarts (sv_status sv);
          waited = (\<lambda>x. held r k \<le> x \<and> n * rn_backoffInitial r \<le> x) in
      0 \<le> e \<and> held r (k - 1) \<le> e \<and> (n - 1) * rn_backoffInitial r \<le> e \<and>
      (sv_phase sv \<in> {AtTop, InRun} \<longrightarrow> waited e \<and> hold r k \<le> sv_backoff sv) \<and>
      (sv_phase sv = Waiting \<longrightarrow> waited f \<and> (0 < k \<longrightarrow> hold r (k - 1) \<le> sv_backoff sv)))"

lemma held_Suc: "held r (Suc k) = held r k + hold r k"
  by (simp add: held_def)

lemma held_pred: "sane_runner r \<Longrightarrow> held r (k - 1) \<le> held r k"
  by (cases k) (simp_all add: held_Suc sane_runner_def)

lemma held_nonneg: "sane_runner r \<Longrightarrow> 0 \<le> held r k"
  unfolding held_def by (intro sum_nonneg) (simp add: sane_runner_def)

lemma hold_Suc: "sane_runner r \<Longrightarrow> hold r k \<le> b \<Longrightarrow> hold r (Suc k) \<le> min restartBackoffMax (b * 2)"
  by (simp add: sane_runner_def)

lemma spaced_new: "sane_runner r \<Longrightarrow> spaced r 0 f (new_supervisor r)"
  by (simp add: spaced_def new_supervisor_def held_def sane_runner_def)

lemma spaced_later: "spaced r e f sv \<Longrightarrow> e \<le> e' \<Longrightarrow> spaced r e' f sv"
  by (auto simp: spaced_def Let_def)

lemma spaced_stop: "spaced r e f sv \<Longrightarrow> spaced r e f' (stop_now sv)"
  by (auto simp: spaced_def Let_def stop_now_def status_set_def)

lemma spaced_top: "spaced r e f sv \<Longrightarrow> sv_phase sv = AtTop \<Longrightarrow> spaced r e f (sv_top dn sv)"
  by (auto simp: sv_top_def spaced_stop) (auto simp: spaced_def Let_def status_set_def)

lemma spaced_wait:
  assumes "sane_runner r" and "sv_ok r dn sv" and "spaced r e f sv" and "sv_phase sv = Waiting" and "b \<or> f \<le> e"
  shows "spaced r e f (sv_wait b sv)"
proof (cases b)
  case True
  with assms(3) show ?thesis by (simp add: sv_wait_def spaced_stop)
next
  case False
  have b: "rn_backoffInitial r \<le> sv_backoff sv" "sv_backoff sv \<le> restartBackoffMax" "0 < rn_backoffInitial r"
    using assms(1,2) by (simp_all add: sv_ok_def sane_runner_def)
  then have "wrap64 (sv_backoff sv * 2) = sv_backoff sv * 2"
    by (intro wrap64_id) (simp add: in64_def minInt64_def maxInt64_def)
  then have nxt: "sv_backoff (sv_wait False sv) = min restartBackoffMax (sv_backoff sv * 2)"
    by (simp add: sv_wait_def Let_def min_def)
  have "hold r (nat (sv_consecutive sv)) \<le> min restartBackoffMax (sv_backoff sv * 2)"
  proof (cases "nat (sv_consecutive sv)")
    case 0
    with b show ?thesis by simp
  next
    case (Suc k)
    with assms(3,4) have "hold r k \<le> sv_backoff sv" by (simp add: spaced_def Let_def)
    from hold_Suc [OF assms(1) this] Suc show ?thesis by simp
  qed
  with False nxt assms(3-5) show ?thesis by (auto simp: spaced_def sv_wait_def Let_def)
qed

lemma clock_after: "sv_after r i src dn res sv w = (sv', w') \<Longrightarrow> clock w' = clock w"
  by (auto simp: sv_after_def runOnce_def Let_def split: option.splits gores.splits if_splits)

lemma spaced_after:
  assumes "sane_runner r" and "sv_ok r dn sv" and "spaced r e f sv" and "sv_phase sv = InRun"
    and "sv_after r i src dn res sv w = (sv', w')"
  shows "spaced r e (e + max 0 (sv_backoff sv')) sv'"
proof -
  obtain err st w1 where ro: "runOnce i (ForAgent (rn_log r) i src) res (sv_status sv) w = (err, st, w1)"
    by (metis prod_cases3)
  have st: "st_restarts st = st_restarts (sv_status sv)" using ro by (auto simp: runOnce_def split: gores.splits)
  have sp: "spaced r e f (sv\<lparr>sv_status := st\<rparr>)" using assms(3) by (simp add: spaced_def st)
  let ?k = "nat (sv_consecutive sv)" and ?n = "st_restarts (sv_status sv)"
  have w: "held r ?k \<le> e" "?n * rn_backoffInitial r \<le> e" "hold r ?k \<le> sv_backoff sv" "0 \<le> e"
    "rn_backoffInitial r \<le> sv_backoff sv" "0 < rn_backoffInitial r" "0 \<le> sv_consecutive sv"
    using assms(1-4) by (simp_all add: spaced_def Let_def sv_ok_def sane_runner_def)
  have pred: "(?n - 1) * rn_backoffInitial r \<le> e" using w(2,6) by (simp add: left_diff_distrib)
  show ?thesis
  proof (cases dn)
    case True
    with assms(5) ro sp show ?thesis by (auto simp: sv_after_def Let_def intro: spaced_stop)
  next
    case go: False
    show ?thesis
    proof (cases err)
      case None
      with go assms(5) ro have "sv_phase sv' = Waiting" "sv_consecutive sv' = 0" "st_restarts (sv_status sv') = ?n"
        by (auto simp: sv_after_def Let_def st)
      with w pred show ?thesis by (simp add: spaced_def Let_def held_def)
    next
      case (Some x)
      with go assms(5) ro have sv': "sv_phase sv' = Waiting" "sv_consecutive sv' = sv_consecutive sv + 1"
        "st_restarts (sv_status sv') = ?n + 1" "sv_backoff sv' = sv_backoff sv"
        by (auto simp: sv_after_def Let_def st status_fail_def)
      have "nat (sv_consecutive sv + 1) = Suc ?k" using w(7) by simp
      with w sv' show ?thesis by (simp add: spaced_def Let_def held_Suc distrib_right)
    qed
  qed
qed

text \<open>From its start on, along any interleaving.\<close>

definition spaced_in :: "RunnerCfg \<Rightarrow> string \<Rightarrow> time \<Rightarrow> 'n rsys \<Rightarrow> bool" where
  "spaced_in r i t0 s \<longleftrightarrow>
     (\<forall>sv. rs_sup s i = Some sv \<longrightarrow>
        sv_ok r (rs_done s) sv \<and> spaced r (clock (rs_world s) - t0) (rs_timer s i - t0) sv)"

lemma spaced_in_step:
  assumes "sane_runner r" and "runner_step r source s s'" and inv: "spaced_in r i t0 s"
  shows "spaced_in r i t0 s'"
  using assms(2)
proof cases
  case Cancel
  with inv show ?thesis by (auto simp: spaced_in_def intro: sv_ok_done)
next
  case (Work w')
  then have "clock (rs_world s) - t0 \<le> clock w' - t0" by (simp add: elapses_def)
  with inv Work show ?thesis by (auto simp: spaced_in_def intro: spaced_later)
next
  case (Top j sv)
  with inv show ?thesis by (auto simp: spaced_in_def sv_ok_top spaced_top)
next
  case (Return j sv res sv' w')
  note t = clock_after [OF Return(4)]
  show ?thesis
  proof (cases "j = i")
    case True
    with inv Return(2) have old: "sv_ok r (rs_done s) sv" "spaced r (clock (rs_world s) - t0) (rs_timer s i - t0) sv"
      by (simp_all add: spaced_in_def)
    have tm: "timer_of sv' w' - t0 = clock (rs_world s) - t0 + max 0 (sv_backoff sv')" by (simp add: timer_of_def t)
    have "spaced r (clock w' - t0) (timer_of sv' w' - t0) sv'"
      unfolding tm t by (rule spaced_after [OF assms(1) old Return(3,4)])
    with sv_ok_after [OF assms(1) old(1) Return(3,4)] Return(1) True show ?thesis by (simp add: spaced_in_def)
  next
    case False
    with inv Return(1) t show ?thesis by (simp add: spaced_in_def)
  qed
next
  case (Fire j sv)
  with inv sv_ok_wait [OF assms(1), of "rs_done s" sv False] spaced_wait [OF assms(1), of "rs_done s" sv _ _ False]
  show ?thesis by (auto simp: spaced_in_def)
next
  case (Done j sv)
  with inv sv_ok_wait [OF assms(1), of "rs_done s" sv True] spaced_wait [OF assms(1), of "rs_done s" sv _ _ True]
  show ?thesis by (auto simp: spaced_in_def)
qed

lemma spaced_in_steps:
  "runner_steps r source s s' \<Longrightarrow> sane_runner r \<Longrightarrow> spaced_in r i t0 s \<Longrightarrow> spaced_in r i t0 s'"
  by (induction rule: runner_steps.induct) (auto intro: spaced_in_step)

text \<open>Every turn takes at least the initial backoff, so a cancelled context ends the loop.\<close>

lemma supervise_returns:
  assumes "own_metrics a" and "sane_runner r" and "cancel_at c = Some t" and "deadline c = None" and "\<forall>v. ag_Run a c v \<noteq> None"
  shows "sv_ok r False sv \<Longrightarrow> sv_phase sv = AtTop \<Longrightarrow> nat (t - clock w) < fuel \<Longrightarrow> supervise fuel r c a sv w \<noteq> None"
proof (induction fuel arbitrary: sv w)
  case (Suc fuel)
  show ?case
  proof (cases "ctx_Err c w = None")
    case False
    then show ?thesis by (auto simp: Let_def)
  next
    case run: True
    then have before: "clock w < t" using assms(3,4) by (auto simp: ctx_Err_def ctx_Err_at_def opt_min_def split: if_splits)
    obtain res w1 where R: "ag_Run a c w = Some (res, w1)" using assms(5) by (metis option.exhaust surj_pair)
    have w1: "clock w \<le> clock w1" using assms(1) R by (auto simp: own_metrics_def elapses_def)
    let ?sv = "sv_top False sv"
    obtain sv2 w2 where A: "sv_after r (ag_ID a) (ag_SourceName a) (ctx_Err c w1 \<noteq> None) res ?sv w1 = (sv2, w2)" by fastforce
    note p2 = phase_after [OF A]
    show ?thesis
    proof (cases "ctx_Err c w1 = None")
      case False
      with run R A p2 show ?thesis by (simp add: Let_def)
    next
      case go: True
      obtain won w3 where S: "select_done_after c (sv_backoff sv2) w2 = (won, w3)" by fastforce
      show ?thesis
      proof (cases won)
        case True
        with run R A p2 go S show ?thesis by (simp add: Let_def)
      next
        case False
        have "sv_ok r False sv2" by (rule sv_ok_after [OF assms(2) sv_ok_top [OF Suc.prems(1)] _ A [simplified go, simplified]]) simp
        moreover have "sv_phase sv2 = Waiting" using p2 go by simp
        ultimately have ok: "sv_ok r False (sv_wait False sv2)" "0 < sv_backoff sv2"
          using sv_ok_wait [OF assms(2), of False sv2 False] assms(2) by (simp_all add: sv_ok_def sane_runner_def)
        have "clock w < clock w3" using select_fires [OF S False] clock_after [OF A] w1 ok(2) by simp
        with before Suc.prems(3) have "nat (t - clock w3) < fuel" by linarith
        from Suc.IH [OF ok(1) _ this] run R A p2 go S False show ?thesis by (simp add: Let_def)
      qed
    qed
  qed
qed simp

section \<open>Properties of the runner\<close>

text \<open>
  C9. In every state the process can reach, whatever the agents return or panic with and however
  their goroutines interleave, every started agent is still supervised: it has exited only if the
  root context is done; while its \<open>Run\<close> is in progress it is reported as running; while it waits it
  is reported degraded exactly from the third consecutive failure on; the wait is between the
  initial backoff and thirty seconds; and its panics are counted one for one.
\<close>

theorem runner_supervises_every_agent:
  assumes "sane_runner r" and "runner_steps r source (started r as w0) s"
  shows "dom (rs_sup s) = ag_ID ` set as \<and>
    (\<forall>i sv. rs_sup s i = Some sv \<longrightarrow>
       (sv_phase sv = Exited \<longrightarrow> rs_done s) \<and>
       (sv_phase sv = InRun \<longrightarrow> st_state (sv_status sv) = StateRunning) \<and>
       (sv_phase sv = Waiting \<longrightarrow>
          (st_state (sv_status sv) = StateDegraded \<longleftrightarrow> 3 \<le> sv_consecutive sv) \<and>
          rn_backoffInitial r \<le> sv_backoff sv \<and> sv_backoff sv \<le> 30 * second) \<and>
       int (counters (rs_world s) (''conflux_agent_panics_total'', [i])) =
         int (counters w0 (''conflux_agent_panics_total'', [i])) + st_panics (sv_status sv))"
  using runner_inv_steps [OF assms(2,1) runner_inv_started [OF assms(1)]]
  by (auto simp: runner_inv_def panics_counted_def sv_ok_def split: if_splits)

definition idle_agent :: "string \<Rightarrow> unit Agent" where
  "idle_agent i = \<lparr>ag_ID = i, ag_SourceName = ''s'', ag_Run = (\<lambda>c w. Some (Panic ''boom'', w))\<rparr>"

definition two_agents :: "unit rsys" where
  "two_agents = started (NewRunner (NewLogger []) second) [idle_agent ''a'', idle_agent ''b''] (start_world 0 (\<lambda>_. 0) ())"

theorem runner_supervises_every_agent_witness: "dom (rs_sup two_agents) = {''a'', ''b''}"
  using runner_supervises_every_agent [OF NewRunner_sane steps_refl, of "NewLogger []" second
      "[idle_agent ''a'', idle_agent ''b'']" "start_world 0 (\<lambda>_. 0) ()", THEN conjunct1]
  unfolding two_agents_def by (simp add: idle_agent_def)

text \<open>
  C37. An agent is never given up and never restarted at the expense of another: as long as the
  context is not done, from every reachable state an agent that is not running can be brought back
  to running by steps of its own supervisor alone, which leave every other agent's supervisor as
  it is.
\<close>

theorem runner_restarts_every_agent:
  assumes "sane_runner r" and "runner_steps r source (started r as w0) s" and "\<not> rs_done s"
    and "rs_sup s i = Some sv" and "sv_phase sv \<noteq> InRun"
  shows "\<exists>s' sv'. runner_steps r source s s' \<and> rs_sup s' i = Some sv' \<and> sv_phase sv' = InRun \<and>
    st_state (sv_status sv') = StateRunning \<and> rs_sup s' = (rs_sup s)(i \<mapsto> sv')"
proof -
  have "sv_ok r False sv"
    using runner_inv_steps [OF assms(2,1) runner_inv_started [OF assms(1)]] assms(3,4) by (simp add: runner_inv_def)
  then have ph: "sv_phase sv = AtTop \<or> sv_phase sv = Waiting"
    using assms(5) by (cases "sv_phase sv") (auto simp: sv_ok_def)
  have top: "\<exists>s' sv'. runner_steps r source t s' \<and> rs_sup s' i = Some sv' \<and> sv_phase sv' = InRun \<and>
      st_state (sv_status sv') = StateRunning \<and> rs_sup s' = (rs_sup t)(i \<mapsto> sv')"
    if "rs_sup t i = Some v" "sv_phase v = AtTop" "\<not> rs_done t" for t v
    using runner_step.Top [OF that(1,2), of r source] that(3)
    by (intro exI [of _ "t\<lparr>rs_sup := (rs_sup t)(i \<mapsto> sv_top (rs_done t) v)\<rparr>"] exI [of _ "sv_top (rs_done t) v"])
       (auto simp: sv_top_def status_set_def intro: steps_one)
  from ph show ?thesis
  proof
    assume "sv_phase sv = AtTop"
    from top [OF assms(4) this assms(3)] show ?thesis .
  next
    assume w: "sv_phase sv = Waiting"
    let ?u = "s\<lparr>rs_world := (rs_world s)\<lparr>clock := max (clock (rs_world s)) (rs_timer s i)\<rparr>\<rparr>"
    let ?t = "?u\<lparr>rs_sup := (rs_sup s)(i \<mapsto> sv_wait False sv)\<rparr>"
    have "runner_step r source s ?u" by (rule runner_step.Work) (simp add: elapses_def leaves_panics_def)
    moreover have "runner_step r source ?u ?t" using runner_step.Fire [of ?u i sv r source] assms(4) w by simp
    ultimately have one: "runner_steps r source s ?t" by (blast intro: steps_step steps_one)
    have "rs_sup ?t i = Some (sv_wait False sv)" "sv_phase (sv_wait False sv) = AtTop" "\<not> rs_done ?t"
      using assms(3) by simp_all
    from top [OF this] obtain s' sv' where "runner_steps r source ?t s'" "rs_sup s' i = Some sv'" "sv_phase sv' = InRun"
      "st_state (sv_status sv') = StateRunning" "rs_sup s' = (rs_sup s)(i \<mapsto> sv')" by auto
    with steps_trans [OF one] show ?thesis by blast
  qed
qed

theorem runner_restarts_every_agent_witness:
  "\<exists>s' sv'. runner_steps (NewRunner (NewLogger []) second) (\<lambda>_. ''s'') two_agents s' \<and>
     rs_sup s' ''a'' = Some sv' \<and> sv_phase sv' = InRun"
proof -
  have "rs_sup two_agents ''a'' = Some (new_supervisor (NewRunner (NewLogger []) second))" "\<not> rs_done two_agents"
    by (simp_all add: two_agents_def started_def idle_agent_def)
  with runner_restarts_every_agent [where source = "\<lambda>_. ''s''", OF NewRunner_sane steps_refl,
      of "NewLogger []" second "[idle_agent ''a'', idle_agent ''b'']" "start_world 0 (\<lambda>_. 0) ()" "''a''",
      folded two_agents_def]
  show ?thesis by (auto simp: new_supervisor_def)
qed

text \<open>
  C36. A panic of an agent becomes an ordinary failure of it: whatever it panics with, the counter of panics under its name goes up by
  one and no other counter changes, an error line with its name and the panic is logged, and its supervisor goes on - it waits for
  its unchanged backoff with one more failure and the panic as its last error, which a second line reports, or, once the
  context is done, it stops.
\<close>

theorem panic_is_contained:
  assumes "sv_after r i src dn (Panic p) sv w = (sv', w')"
  shows "counters w' = (let k = (''conflux_agent_panics_total'', [i]) in (counters w)(k := Suc (counters w k))) \<and>
    st_panics (sv_status sv') = st_panics (sv_status sv) + 1 \<and> sv_backoff sv' = sv_backoff sv \<and>
    (let base = base_attrs (rn_log r) @ [(''agent'', AStr i), (''source'', AStr src)];
         panicked = \<lparr>l_level = LError, l_msg = ''agent panicked; contained'', l_attrs = base @ [(''panic'', AStr p)]\<rparr>;
         n = sv_consecutive sv + 1; state = (if 3 \<le> n then StateDegraded else StateRecovering) in
     if dn then sv_phase sv' = Exited \<and> st_state (sv_status sv') = StateStopped \<and>
       (\<exists>rest. logs w' = logs w @ panicked # rest)
     else sv_phase sv' = Waiting \<and> sv_consecutive sv' = n \<and> st_restarts (sv_status sv') = st_restarts (sv_status sv) + 1 \<and>
       st_state (sv_status sv') = state \<and> st_lastErr (sv_status sv') = ''panic: '' @ p \<and>
       logs w' = logs w @ [panicked,
         \<lparr>l_level = LError, l_msg = ''agent failed; restarting'',
          l_attrs = base @ [(''error'', AStr (''panic: '' @ p)), (''consecutive_failures'', AInt n),
            (''state'', AStr (State_string state)), (''backoff'', ADur (sv_backoff sv))]\<rparr>])"
  using assms
  by (cases dn) (auto simp: sv_after_def runOnce_def Let_def status_fail_def status_set_def stop_now_def ForAgent_def log_With_def log_at_def)

theorem panic_is_contained_witness:
  "\<exists>sv' w'. sv_after (NewRunner (NewLogger []) second) ''a'' ''s'' False (Panic ''boom'')
       (sv_top False (new_supervisor (NewRunner (NewLogger []) second))) (start_world 0 (\<lambda>_. 0) ()) = (sv', w') \<and>
     sv_phase sv' = Waiting \<and> st_lastErr (sv_status sv') = ''panic: boom'' \<and> length (logs w') = 2"
proof -
  let ?r = "NewRunner (NewLogger []) second" and ?w = "start_world 0 (\<lambda>_. 0) () :: unit world"
  obtain sv' w' where a: "sv_after ?r ''a'' ''s'' False (Panic ''boom'') (sv_top False (new_supervisor ?r)) ?w = (sv', w')" by fastforce
  from panic_is_contained [OF this] a show ?thesis by (simp add: Let_def start_world_def)
qed

text \<open>
  C12. A crash-looping agent never becomes a hot loop, and shutdown ends its supervision. The sequential loop of \<open>supervise\<close> is
  one of the runs of the interleaved system, in which the timer of a wait fires only when the backoff is over: when it returns,
  there are such steps from the same start to a state in which the context is done, this agent has exited with the same status
  and every other agent is as it was. So between its failures it has waited: for all but the last of them at least the initial
  backoff each, and for all but the last of the failures in a row at least the initial backoff doubled each time, up to thirty
  seconds. And it does return if the context is cancelled at some instant and each \<open>Run\<close> of the agent returns.
\<close>

theorem supervise_refines_steps:
  assumes "own_metrics a" and "source (ag_ID a) = ag_SourceName a" and "sane_runner r"
  shows "(\<forall>t. cancel_at c = Some t \<longrightarrow> deadline c = None \<longrightarrow> (\<forall>v. ag_Run a c v \<noteq> None) \<longrightarrow>
      supervise (Suc (nat (t - clock w))) r c a (new_supervisor r) w \<noteq> None) \<and>
    (\<forall>fuel sv w'. supervise fuel r c a (new_supervisor r) w = Some (sv, w') \<longrightarrow>
      (\<exists>timer. runner_steps r source
         \<lparr>rs_done = False, rs_world = w, rs_sup = m(ag_ID a \<mapsto> new_supervisor r), rs_timer = tm\<rparr>
         \<lparr>rs_done = True, rs_world = w', rs_sup = m(ag_ID a \<mapsto> sv), rs_timer = timer\<rparr>) \<and> sv_phase sv = Exited \<and>
      (st_restarts (sv_status sv) - 1) * rn_backoffInitial r \<le> clock w' - clock w \<and>
      (\<Sum>i < nat (sv_consecutive sv) - 1. min (30 * second) (rn_backoffInitial r * 2 ^ i)) \<le> clock w' - clock w)"
proof (rule conjI; intro allI impI)
  have new: "sv_ok r False (new_supervisor r)" "sv_phase (new_supervisor r) = AtTop"
    by (simp_all add: sv_ok_new [OF assms(3)]) (simp add: new_supervisor_def)
  show "supervise (Suc (nat (t - clock w))) r c a (new_supervisor r) w \<noteq> None"
    if "cancel_at c = Some t" and "deadline c = None" and "\<forall>v. ag_Run a c v \<noteq> None" for t
    by (rule supervise_returns [OF assms(1,3) that new lessI])
  fix fuel sv w' assume ret: "supervise fuel r c a (new_supervisor r) w = Some (sv, w')"
  from supervise_steps [where source = source and m = m and t = tm, OF assms(1,2) ret new(2)] obtain timer where
    run: "runner_steps r source (at_sys False w (m(ag_ID a \<mapsto> new_supervisor r)) tm) (at_sys True w' (m(ag_ID a \<mapsto> sv)) timer)"
    and ex: "sv_phase sv = Exited" by blast
  have "spaced_in r (ag_ID a) (clock w) (at_sys False w (m(ag_ID a \<mapsto> new_supervisor r)) tm)"
    by (simp add: spaced_in_def new(1) spaced_new [OF assms(3)])
  from spaced_in_steps [OF run assms(3) this] have "spaced r (clock w' - clock w) (timer (ag_ID a) - clock w) sv"
    by (simp add: spaced_in_def)
  then have "(st_restarts (sv_status sv) - 1) * rn_backoffInitial r \<le> clock w' - clock w"
    "(\<Sum>i < nat (sv_consecutive sv) - 1. min (30 * second) (rn_backoffInitial r * 2 ^ i)) \<le> clock w' - clock w"
    by (simp_all add: spaced_def Let_def held_def)
  with run ex show "(\<exists>timer. runner_steps r source
         \<lparr>rs_done = False, rs_world = w, rs_sup = m(ag_ID a \<mapsto> new_supervisor r), rs_timer = tm\<rparr>
         \<lparr>rs_done = True, rs_world = w', rs_sup = m(ag_ID a \<mapsto> sv), rs_timer = timer\<rparr>) \<and> sv_phase sv = Exited \<and>
      (st_restarts (sv_status sv) - 1) * rn_backoffInitial r \<le> clock w' - clock w \<and>
      (\<Sum>i < nat (sv_consecutive sv) - 1. min (30 * second) (rn_backoffInitial r * 2 ^ i)) \<le> clock w' - clock w" by blast
qed

text \<open>An agent that panics as soon as it is started: it fails at 0, 0.5 and 1.5 seconds.\<close>

lemma idle_agent_run:
  "\<exists>sv w'. supervise 4 (NewRunner (NewLogger []) second) (background\<lparr>cancel_at := Some (2 * second)\<rparr>) (idle_agent ''a'')
       (new_supervisor (NewRunner (NewLogger []) second)) (start_world 0 (\<lambda>_. 0) ()) = Some (sv, w') \<and> sv_consecutive sv = 3"
  by (simp add: eval_nat_numeral Let_def idle_agent_def ctx_Err_def ctx_Err_at_def background_def opt_min_def
      start_world_def sv_after_def runOnce_def new_supervisor_def NewRunner_def select_done_after_def done_at_def
      sv_top_def counter_Inc_def log_at_def case_prod_unfold sv_wait_def stop_now_def wrap64_def status_fail_def status_set_def)

theorem supervise_refines_steps_witness:
  "\<exists>sv w'. supervise 4 (NewRunner (NewLogger []) second) (background\<lparr>cancel_at := Some (2 * second)\<rparr>) (idle_agent ''a'')
       (new_supervisor (NewRunner (NewLogger []) second)) (start_world 0 (\<lambda>_. 0) ()) = Some (sv, w') \<and> sv_phase sv = Exited \<and>
     sv_consecutive sv = 3 \<and> 1500 * millisecond \<le> clock w'"
proof -
  obtain sv w' where run: "supervise 4 (NewRunner (NewLogger []) second) (background\<lparr>cancel_at := Some (2 * second)\<rparr>)
      (idle_agent ''a'') (new_supervisor (NewRunner (NewLogger []) second)) (start_world 0 (\<lambda>_. 0) ()) = Some (sv, w')"
    and k: "sv_consecutive sv = 3" using idle_agent_run by blast
  have "own_metrics (idle_agent ''a'')" by (simp add: own_metrics_def idle_agent_def elapses_def leaves_panics_def)
  from supervise_refines_steps [where source = "\<lambda>_. ''s''" and m = Map.empty and tm = "\<lambda>_. 0", OF this _ NewRunner_sane,
      THEN conjunct2, rule_format, OF _ run] k run show ?thesis
    by (simp add: idle_agent_def NewRunner_def start_world_def numeral_2_eq_2)
qed

end
