(* ===== verification/LogDrain.thy ===== *)
theory LogDrain
  imports StreamAgent Summarize GoTime
begin

text \<open>
  The log drain agent (\<open>internal/agent/logdrain.go\<close>): it reads the log list continuously, folds
  every entry into the aggregator of \<open>Summarize\<close> and publishes a summary whenever a period
  closes. The aggregator outlives a call of \<open>Run\<close>, so it is an argument and a result. The loop
  takes fuel, one unit per read.
\<close>

section \<open>The agent\<close>

text \<open>\<open>None\<close> is the nil dispatcher.\<close>

record 'n LogDrainAgent =
  ld_id :: string
  ld_source :: "'n Source"
  ld_dispatcher :: "'n Dispatcher option"
  ld_log :: logger

definition NewLogDrainAgent ::
  "string \<Rightarrow> 'n Source \<Rightarrow> duration \<Rightarrow> 'n Dispatcher option \<Rightarrow> logger \<Rightarrow> 'n LogDrainAgent \<times> Aggregator" where
  "NewLogDrainAgent ident src period d lg =
     (\<lparr>ld_id = ident, ld_source = src, ld_dispatcher = d,
       ld_log = ForAgent lg ident (ref_Name (src_Ref src))\<rparr>, NewAggregator period)"

type_synonym summary_encoder = "LogSummary \<Rightarrow> gerror + bytes"

definition summary_id :: "LogSummary \<Rightarrow> string" where
  "summary_id s = ''summary:'' @ format_RFC3339 (PeriodStart s)"

definition summary_envelope :: "'n LogDrainAgent \<Rightarrow> LogSummary \<Rightarrow> bytes \<Rightarrow> Envelope" where
  "summary_envelope a s body =
     zero_Envelope\<lparr>EventID := summary_id s, GatewayID := ''pulse-conflux'', ReceivedAt := GeneratedAt s,
       StreamName := ref_Name (src_Ref (ld_source a)), Payload := body\<rparr>"

definition emit ::
  "summary_encoder \<Rightarrow> 'n LogDrainAgent \<Rightarrow> ctx \<Rightarrow> LogSummary \<Rightarrow> 'n world \<Rightarrow> unit gores \<times> 'n world" where
  "emit marshal a c s w =
     (let w1 = Emit marshal (ld_log a) s w in
      case ld_dispatcher a of
        None \<Rightarrow> (Ret (), w1)
      | Some d \<Rightarrow>
          (case marshal s of
             Inl err \<Rightarrow> (Ret (), w1)
           | Inr body \<Rightarrow>
               (case Send d c (summary_envelope a s body) w1 of
                  (Panic m, w2) \<Rightarrow> (Panic m, w2)
                | (Ret outs, w2) \<Rightarrow> (Ret (), w2))))"

definition emit_closed ::
  "summary_encoder \<Rightarrow> 'n LogDrainAgent \<Rightarrow> ctx \<Rightarrow> LogSummary option \<Rightarrow> 'n world \<Rightarrow> unit gores \<times> 'n world" where
  "emit_closed marshal a c so w = (case so of None \<Rightarrow> (Ret (), w) | Some s \<Rightarrow> emit marshal a c s w)"

text \<open>The body of the inner loop of \<open>Run\<close>.\<close>

definition drain_one ::
  "summary_encoder \<Rightarrow> 'n LogDrainAgent \<Rightarrow> ctx \<Rightarrow> 'n Delivery \<Rightarrow> Aggregator \<Rightarrow> 'n world \<Rightarrow>
   unit gores \<times> Aggregator \<times> 'n world" where
  "drain_one marshal a c d agg w =
     (let src = ref_Name (d_Source d) in
      case d_Unprocessable d of
        Some reason \<Rightarrow>
          (Ret (), agg,
           counter_Inc ''conflux_events_unprocessable_total'' [ld_id a, src, ''parse'']
             (log_at (ld_log a) LError ''unprocessable log entry (consumed, unrecoverable)''
               [(''source'', AStr src), (''reason'', AStr (error_Error reason)), (''raw'', AStr (raw_text d))] w))
      | None \<Rightarrow>
          (let (so, agg1) = Observe agg (d_Envelope d) (clock w) in
           case emit_closed marshal a c so w of
             (Panic m, w1) \<Rightarrow> (Panic m, agg1, w1)
           | (Ret _, w1) \<Rightarrow>
               (let w2 = counter_Inc ''conflux_events_processed_total'' [ld_id a, src] w1
                in (Ret (), agg1, snd (Ack d c w2)))))"

fun drain_batch ::
  "summary_encoder \<Rightarrow> 'n LogDrainAgent \<Rightarrow> ctx \<Rightarrow> 'n Delivery list \<Rightarrow> Aggregator \<Rightarrow> 'n world \<Rightarrow>
   unit gores \<times> Aggregator \<times> 'n world" where
  "drain_batch marshal a c [] agg w = (Ret (), agg, w)"
| "drain_batch marshal a c (d # ds) agg w =
     (case drain_one marshal a c d agg w of
        (Panic m, agg1, w1) \<Rightarrow> (Panic m, agg1, w1)
      | (Ret _, agg1, w1) \<Rightarrow> drain_batch marshal a c ds agg1 w1)"

text \<open>
  The select at the top of the loop. The ticker's channel holds a tick from the instant \<open>tick\<close> on;
  taking it leaves the next one at the next full second of the ticker. When the context is done
  and a tick is there, either may be chosen.
\<close>

datatype poll = PollDone | PollTick | PollNone

definition next_tick :: "time \<Rightarrow> time \<Rightarrow> time" where
  "next_tick tick now = tick + ((now - tick) div second + 1) * second"

definition poll_select :: "ctx \<Rightarrow> time \<Rightarrow> 'n world \<Rightarrow> poll \<times> 'n world" where
  "poll_select c tick w =
     (let dn = (ctx_Err c w \<noteq> None); tk = (tick \<le> clock w) in
      if dn \<and> tk then (if even (draws w (drawn w)) then PollDone else PollTick, w\<lparr>drawn := Suc (drawn w)\<rparr>)
      else if dn then (PollDone, w)
      else if tk then (PollTick, w)
      else (PollNone, w))"

definition poll_tick ::
  "summary_encoder \<Rightarrow> 'n LogDrainAgent \<Rightarrow> ctx \<Rightarrow> poll \<Rightarrow> Aggregator \<Rightarrow> 'n world \<Rightarrow> unit gores \<times> Aggregator \<times> 'n world" where
  "poll_tick marshal a c p agg w =
     (if p = PollTick
      then (let (so, agg1) = Tick agg (clock w); (r, w1) = emit_closed marshal a c so w in (r, agg1, w1))
      else (Ret (), agg, w))"

fun drain_loop ::
  "nat \<Rightarrow> summary_encoder \<Rightarrow> 'n LogDrainAgent \<Rightarrow> ctx \<Rightarrow> time \<Rightarrow> Aggregator \<Rightarrow> 'n world \<Rightarrow>
   (gerror option gores \<times> Aggregator \<times> 'n world) option" where
  "drain_loop 0 marshal a c tick agg w = None"
| "drain_loop (Suc fuel) marshal a c tick agg w =
     (case poll_select c tick w of (p, w0) \<Rightarrow>
        if p = PollDone then Some (Ret None, agg, w0)
        else let tick1 = (if p = PollTick then next_tick tick (clock w0) else tick) in
          case poll_tick marshal a c p agg w0 of
            (Panic m, agg1, w1) \<Rightarrow> Some (Panic m, agg1, w1)
          | (Ret _, agg1, w1) \<Rightarrow>
              (case src_Read (ld_source a) c w1 of
                 (Inl err, w2) \<Rightarrow> Some (Ret (if ctx_Err c w2 \<noteq> None then None else Some err), agg1, w2)
               | (Inr ds, w2) \<Rightarrow>
                   (case drain_batch marshal a c ds agg1 w2 of
                      (Panic m, agg2, w3) \<Rightarrow> Some (Panic m, agg2, w3)
                    | (Ret _, agg2, w3) \<Rightarrow> drain_loop fuel marshal a c tick1 agg2 w3)))"

definition LogDrain_Run ::
  "nat \<Rightarrow> summary_encoder \<Rightarrow> 'n LogDrainAgent \<Rightarrow> ctx \<Rightarrow> Aggregator \<Rightarrow> 'n world \<Rightarrow>
   (gerror option gores \<times> Aggregator \<times> 'n world) option" where
  "LogDrain_Run fuel marshal a c agg w =
     drain_loop fuel marshal a c (clock w + second) agg (log_at (ld_log a) LInfo ''log drain agent started'' [] w)"

section \<open>What a run does to the aggregator\<close>

text \<open>The entries an agent has counted as processed from one source.\<close>

definition processed :: "string \<Rightarrow> string \<Rightarrow> 'n world \<Rightarrow> nat" where
  "processed ident src w = counters w (''conflux_events_processed_total'', [ident, src])"

text \<open>The agent's dispatcher, if it has one, sends to well-behaved destinations.\<close>

definition drain_ok :: "'n LogDrainAgent \<Rightarrow> bool" where
  "drain_ok a \<longleftrightarrow> (case ld_dispatcher a of None \<Rightarrow> True | Some d \<Rightarrow> posting d)"

text \<open>The summaries in the log, and the line of one.\<close>

definition summary_lines :: "'n world \<Rightarrow> logline list" where
  "summary_lines w = filter (\<lambda>l. l_msg l = ''log summary'') (logs w)"

definition summary_line :: "summary_encoder \<Rightarrow> 'n LogDrainAgent \<Rightarrow> LogSummary \<Rightarrow> logline" where
  "summary_line marshal a s =
     \<lparr>l_level = (if Partial s then LWarn else LInfo), l_msg = ''log summary'',
      l_attrs = base_attrs (ld_log a) @
        [(''component'', AStr ''summary''), (''period_start'', ATime (PeriodStart s)),
         (''period_end'', ATime (PeriodEnd s)), (''entry_count'', AInt (EntryCount s)),
         (''partial'', ABool (Partial s)),
         (''summary'', AStr (case marshal s of Inl _ \<Rightarrow> [] | Inr b \<Rightarrow> b))]\<rparr>"

definition info_enabled :: "'n LogDrainAgent \<Rightarrow> bool" where
  "info_enabled a \<longleftrightarrow> level_num (min_level (ld_log a)) \<le> 0"

lemma emit_frame:
  assumes "drain_ok a" and "info_enabled a" and "emit_closed marshal a c so w = (r, w')"
  shows "processed i src w' = processed i src w \<and>
    summary_lines w' = summary_lines w @ (case so of None \<Rightarrow> [] | Some s \<Rightarrow> [summary_line marshal a s])"
proof (cases so)
  case None
  with assms(3) show ?thesis by (simp add: emit_closed_def)
next
  case (Some s)
  define w1 where "w1 = Emit marshal (ld_log a) s w"
  have E: "counters w1 = counters w" "logs w1 = logs w @ [summary_line marshal a s]"
    using assms(2) by (auto simp: w1_def Emit_def Let_def log_at_def summary_line_def info_enabled_def)
  have S: "counters w' (''conflux_events_processed_total'', ls) = counters w1 (''conflux_events_processed_total'', ls)
      \<and> summary_lines w' = summary_lines w1"
    if d: "ld_dispatcher a = Some d" and sent: "Send d c env w1 = (x, w')" for d env x ls
  proof -
    have ok: "1 \<le> MaxAttempts (policy d)" "\<And>y. y \<in> set (dests d) \<Longrightarrow> destination y"
      using assms(1) d by (auto simp: drain_ok_def posting_def list_all_iff posting_destination_def)
    have "counters w' (''conflux_events_processed_total'', ls) = counters w1 (''conflux_events_processed_total'', ls)"
      by (rule send_all_counters [OF sent [unfolded Send_def] ok]) (auto simp: dispatch_counter_def)
    moreover obtain ms where "logs w' = logs w1 @ ms" "list_all dispatch_line ms"
      using send_all_logs [OF sent [unfolded Send_def] ok] by blast
    then have "summary_lines w' = summary_lines w1"
      by (auto simp: summary_lines_def list_all_iff dispatch_line_def filter_empty_conv)
    ultimately show ?thesis by simp
  qed
  have "w' = w1 \<or> (\<exists>d env x. ld_dispatcher a = Some d \<and> Send d c env w1 = (x, w'))"
    using assms(3) Some
    by (auto simp: emit_closed_def emit_def Let_def w1_def split: option.splits sum.splits prod.splits gores.splits)
  then have "processed i src w' = processed i src w1 \<and> summary_lines w' = summary_lines w1"
    using S by (auto simp: processed_def)
  with E Some show ?thesis by (simp add: processed_def summary_lines_def summary_line_def)
qed

lemma run_agg_append:
  "run_agg a (xs @ ys) =
     (fst (run_agg a xs) @ fst (run_agg (snd (run_agg a xs)) ys), snd (run_agg (snd (run_agg a xs)) ys))"
  by (induction xs arbitrary: a) (auto simp: Let_def case_prod_unfold split: option.splits)

lemma observed_append: "observed (xs @ ys) = observed xs @ observed ys"
  by (induction xs rule: observed.induct) simp_all

text \<open>A step from one state of the aggregator to another is a run of it by the operations \<open>ops\<close>, in which as many entries
  are observed as are counted as processed, all of them of a kind that the source delivers, and whose
  summaries are the new ones in the log.\<close>

definition delivers :: "(Envelope \<Rightarrow> bool) \<Rightarrow> 'n Source \<Rightarrow> bool" where
  "delivers P src \<longleftrightarrow> (\<forall>d. read_from src d \<longrightarrow> d_Unprocessable d = None \<longrightarrow> P (d_Envelope d))"

definition accounted ::
  "(Envelope \<Rightarrow> bool) \<Rightarrow> summary_encoder \<Rightarrow> 'n LogDrainAgent \<Rightarrow> string \<Rightarrow> agg_op list \<Rightarrow>
   Aggregator \<times> 'n world \<Rightarrow> Aggregator \<times> 'n world \<Rightarrow> bool" where
  "accounted P marshal a src ops s s' \<longleftrightarrow>
     snd (run_agg (fst s) ops) = fst s' \<and> (\<forall>env \<in> set (observed ops). P env) \<and>
     processed (ld_id a) src (snd s') = processed (ld_id a) src (snd s) + length (observed ops) \<and>
     summary_lines (snd s') = summary_lines (snd s) @ map (summary_line marshal a) (fst (run_agg (fst s) ops))"

lemma accounted_refl:
  "processed (ld_id a) src w' = processed (ld_id a) src w \<Longrightarrow> summary_lines w' = summary_lines w \<Longrightarrow>
     accounted P marshal a src [] (agg, w) (agg, w')"
  by (simp add: accounted_def)

lemma accounted_trans:
  "accounted P marshal a src xs s s1 \<Longrightarrow> accounted P marshal a src ys s1 s2 \<Longrightarrow> accounted P marshal a src (xs @ ys) s s2"
  by (auto simp: accounted_def run_agg_append observed_append)

text \<open>One operation of the aggregator followed by the publication of what it closed.\<close>

lemma op_accounted:
  assumes "drain_ok a" and "info_enabled a" and "agg_step agg x = (so, agg1)" and "emit_closed marshal a c so w = (r, w1)"
    and "processed (ld_id a) src w2 = processed (ld_id a) src w1 + length (observed [x])"
    and "summary_lines w2 = summary_lines w1" and "\<forall>env \<in> set (observed [x]). P env"
  shows "accounted P marshal a src [x] (agg, w) (agg1, w2)"
proof -
  have "run_agg agg [x] = ((case so of None \<Rightarrow> [] | Some s \<Rightarrow> [s]), agg1)" using assms(3) by (simp add: Let_def)
  with emit_frame [OF assms(1,2,4), of "ld_id a" src] assms(5-7) show ?thesis
    unfolding accounted_def by (simp split: option.splits)
qed

text \<open>The operations of the aggregator in a turn of the loop: a tick of the poll ticker, then one observation for each entry of
  the batch that can be processed. The recursions are the ones of \<open>drain_batch\<close> and \<open>drain_loop\<close>.\<close>

definition poll_ops :: "poll \<Rightarrow> 'n world \<Rightarrow> agg_op list" where
  "poll_ops p w = (if p = PollTick then [OpTick (clock w)] else [])"

definition one_ops :: "'n Delivery \<Rightarrow> 'n world \<Rightarrow> agg_op list" where
  "one_ops d w = (if d_Unprocessable d = None then [OpObserve (d_Envelope d) (clock w)] else [])"

fun batch_ops :: "summary_encoder \<Rightarrow> 'n LogDrainAgent \<Rightarrow> ctx \<Rightarrow> 'n Delivery list \<Rightarrow> Aggregator \<Rightarrow> 'n world \<Rightarrow> agg_op list" where
  "batch_ops marshal a c [] agg w = []"
| "batch_ops marshal a c (d # ds) agg w =
     one_ops d w @ (case drain_one marshal a c d agg w of
        (Panic m, agg1, w1) \<Rightarrow> []
      | (Ret _, agg1, w1) \<Rightarrow> batch_ops marshal a c ds agg1 w1)"

fun loop_ops :: "nat \<Rightarrow> summary_encoder \<Rightarrow> 'n LogDrainAgent \<Rightarrow> ctx \<Rightarrow> time \<Rightarrow> Aggregator \<Rightarrow> 'n world \<Rightarrow> agg_op list" where
  "loop_ops 0 marshal a c tick agg w = []"
| "loop_ops (Suc fuel) marshal a c tick agg w =
     (case poll_select c tick w of (p, w0) \<Rightarrow>
        if p = PollDone then []
        else poll_ops p w0 @
          (case poll_tick marshal a c p agg w0 of
             (Panic m, agg1, w1) \<Rightarrow> []
           | (Ret _, agg1, w1) \<Rightarrow>
               (case src_Read (ld_source a) c w1 of
                  (Inl err, w2) \<Rightarrow> []
                | (Inr ds, w2) \<Rightarrow>
                    batch_ops marshal a c ds agg1 w2 @
                    (case drain_batch marshal a c ds agg1 w2 of
                       (Panic m, agg2, w3) \<Rightarrow> []
                     | (Ret _, agg2, w3) \<Rightarrow>
                         loop_ops fuel marshal a c (if p = PollTick then next_tick tick (clock w0) else tick) agg2 w3))))"

definition run_ops :: "nat \<Rightarrow> summary_encoder \<Rightarrow> 'n LogDrainAgent \<Rightarrow> ctx \<Rightarrow> Aggregator \<Rightarrow> 'n world \<Rightarrow> agg_op list" where
  "run_ops fuel marshal a c agg w =
     loop_ops fuel marshal a c (clock w + second) agg (log_at (ld_log a) LInfo ''log drain agent started'' [] w)"

lemma poll_tick_accounted:
  assumes "drain_ok a" and "info_enabled a" and "poll_tick marshal a c p agg w = (r, agg', w')"
  shows "accounted P marshal a src (poll_ops p w) (agg, w) (agg', w')"
proof (cases "p = PollTick")
  case True
  obtain so agg1 where t: "Tick agg (clock w) = (so, agg1)" by fastforce
  obtain r1 w1 where e: "emit_closed marshal a c so w = (r1, w1)" by fastforce
  have "agg' = agg1" "w' = w1" using assms(3) True t e by (simp_all add: poll_tick_def)
  moreover have "agg_step agg (OpTick (clock w)) = (so, agg1)" using t by simp
  from op_accounted [OF assms(1,2) this e, of src w1] have "accounted P marshal a src [OpTick (clock w)] (agg, w) (agg1, w1)" by simp
  ultimately show ?thesis using True by (simp add: poll_ops_def)
next
  case False
  with assms(3) show ?thesis by (auto simp: poll_tick_def poll_ops_def intro: accounted_refl)
qed

context source
begin

lemma drain_one_accounted:
  assumes "drain_ok a" and "info_enabled a" and "delivers P src" and "read_from src d" and "drain_one marshal a c d agg w = (Ret u, agg', w')"
  shows "accounted P marshal a (ref_Name (src_Ref src)) (one_ops d w) (agg, w) (agg', w')"
proof (cases "d_Unprocessable d")
  case (Some reason)
  with assms(5) show ?thesis
    by (auto simp: drain_one_def one_ops_def Let_def processed_def summary_lines_def intro!: accounted_refl)
next
  case None
  from assms(4) obtain c0 w0 ds w0' where "src_Read src c0 w0 = (Inr ds, w0')" "d \<in> set ds"
    by (auto simp: read_from_def)
  from Read_classified [OF this] have src: "d_Source d = src_Ref src" by simp
  obtain so agg1 where o: "Observe agg (d_Envelope d) (clock w) = (so, agg1)" by fastforce
  obtain r1 w1 where e: "emit_closed marshal a c so w = (r1, w1)" by fastforce
  define w2 where "w2 = counter_Inc ''conflux_events_processed_total'' [ld_id a, ref_Name (d_Source d)] w1"
  obtain x w3 where k: "Ack d c w2 = (x, w3)" by fastforce
  have res: "agg' = agg1" "w' = w3"
    using assms(5) None o e k by (auto simp: drain_one_def Let_def w2_def split: gores.splits)
  have "counters w3 = counters w2" "logs w3 = logs w2" using Ack_read [OF assms(4) k] by (simp_all add: quiet_def)
  then have "processed (ld_id a) (ref_Name (src_Ref src)) w3 = processed (ld_id a) (ref_Name (src_Ref src)) w1 + 1"
    "summary_lines w3 = summary_lines w1"
    by (simp_all add: processed_def summary_lines_def w2_def src)
  moreover have "agg_step agg (OpObserve (d_Envelope d) (clock w)) = (so, agg1)" using o by simp
  moreover have "P (d_Envelope d)" using assms(3,4) None by (simp add: delivers_def)
  moreover have "one_ops d w = [OpObserve (d_Envelope d) (clock w)]" using None by (simp add: one_ops_def)
  ultimately show ?thesis unfolding res
    by (simp only:) (intro op_accounted [OF assms(1,2) _ e]; simp)
qed

lemma drain_batch_accounted:
  assumes "drain_ok a" and "info_enabled a" and "delivers P src" and "list_all (read_from src) ds" and "drain_batch marshal a c ds agg w = (Ret u, agg', w')"
  shows "accounted P marshal a (ref_Name (src_Ref src)) (batch_ops marshal a c ds agg w) (agg, w) (agg', w')"
  using assms(4,5)
proof (induction ds arbitrary: agg w)
  case (Cons d ds)
  obtain r agg1 w1 where one: "drain_one marshal a c d agg w = (r, agg1, w1)" by (metis prod_cases3)
  with Cons.prems(2) obtain u' where r: "r = Ret u'" by (cases r) auto
  have "drain_batch marshal a c ds agg1 w1 = (Ret u, agg', w')" using Cons.prems(2) one r by simp
  from Cons.IH [OF _ this] Cons.prems(1) drain_one_accounted [OF assms(1-3) _ one [unfolded r]]
  show ?case using one r by (auto intro: accounted_trans)
qed (auto intro: accounted_refl)

lemma drain_loop_accounted:
  assumes "drain_ok a" and "info_enabled a" and "delivers P src" and "ld_source a = src" and "drain_loop fuel marshal a c tick agg w = Some (Ret e, agg', w')"
  shows "accounted P marshal a (ref_Name (src_Ref src)) (loop_ops fuel marshal a c tick agg w) (agg, w) (agg', w')"
  using assms(5)
proof (induction fuel arbitrary: tick agg w)
  case (Suc fuel)
  let ?acc = "accounted P marshal a (ref_Name (src_Ref src))"
  obtain p w0 where p: "poll_select c tick w = (p, w0)" by fastforce
  have same: "counters w0 = counters w" "logs w0 = logs w" using p by (auto simp: poll_select_def Let_def split: if_splits)
  have s0: "?acc [] (agg, w) (agg, w0)" by (rule accounted_refl) (simp_all add: processed_def summary_lines_def same)
  show ?case
  proof (cases "p = PollDone")
    case True
    with p Suc.prems s0 show ?thesis by simp
  next
    case False
    obtain r agg1 w1 where t: "poll_tick marshal a c p agg w0 = (r, agg1, w1)" by (metis prod_cases3)
    obtain u where r: "r = Ret u" using Suc.prems p False t by (cases r) (auto simp: Let_def)
    have s1: "?acc (poll_ops p w0) (agg, w) (agg1, w1)"
      using accounted_trans [OF s0 poll_tick_accounted [OF assms(1,2) t]] by simp
    obtain q w2 where q: "src_Read src c w1 = (q, w2)" by fastforce
    have "counters w2 = counters w1" "logs w2 = logs w1" using Read_quiet [OF q] by (simp_all add: quiet_def)
    then have "?acc [] (agg1, w1) (agg1, w2)" by (intro accounted_refl) (simp_all add: processed_def summary_lines_def)
    from accounted_trans [OF s1 this] have s2: "?acc (poll_ops p w0) (agg, w) (agg1, w2)" by simp
    show ?thesis
    proof (cases q)
      case (Inl err)
      with Suc.prems p False t r q s2 assms(4) show ?thesis by (simp add: Let_def)
    next
      case (Inr ds)
      have ds: "list_all (read_from src) ds" using q Inr by (auto simp: list_all_iff read_from_def)
      obtain r3 agg2 w3 where b: "drain_batch marshal a c ds agg1 w2 = (r3, agg2, w3)" by (metis prod_cases3)
      obtain u3 where r3: "r3 = Ret u3" using Suc.prems p False t r q Inr b assms(4) by (cases r3) (auto simp: Let_def)
      have s3: "?acc (poll_ops p w0 @ batch_ops marshal a c ds agg1 w2) (agg, w) (agg2, w3)"
        by (rule accounted_trans [OF s2 drain_batch_accounted [OF assms(1-3) ds b [unfolded r3]]])
      have "drain_loop fuel marshal a c (if p = PollTick then next_tick tick (clock w0) else tick) agg2 w3 =
          Some (Ret e, agg', w')"
        using Suc.prems p False t r q Inr b r3 assms(4) by (simp add: Let_def)
      from accounted_trans [OF s3 Suc.IH [OF this]] p False t r q Inr b r3 assms(4) show ?thesis by simp
    qed
  qed
qed simp

lemma LogDrain_Run_accounted:
  assumes "drain_ok a" and "info_enabled a" and "delivers P src" and "ld_source a = src"
    and "LogDrain_Run fuel marshal a c agg0 w = Some (Ret e, agg, w')"
  shows "accounted P marshal a (ref_Name (src_Ref src)) (run_ops fuel marshal a c agg0 w) (agg0, w) (agg, w')"
proof -
  let ?w = "log_at (ld_log a) LInfo ''log drain agent started'' [] w"
  have "accounted P marshal a (ref_Name (src_Ref src)) (run_ops fuel marshal a c agg0 w) (agg0, ?w) (agg, w')"
    unfolding run_ops_def by (rule drain_loop_accounted [OF assms(1-4) assms(5) [unfolded LogDrain_Run_def]])
  moreover have "accounted P marshal a (ref_Name (src_Ref src)) [] (agg0, w) (agg0, ?w)"
    by (rule accounted_refl) (simp_all add: processed_def summary_lines_def log_at_def)
  ultimately show ?thesis using accounted_trans [of P marshal a _ "[]"] by fastforce
qed

end

lemma accounted_counts:
  assumes "accounted P marshal a src ops (NewAggregator p, w) (agg, w')"
    and "int (processed (ld_id a) src w') - int (processed (ld_id a) src w) < 2 ^ 63"
  shows "sum_list (map EntryCount (fst (run_agg (NewAggregator p) ops))) + agg_count agg =
    int (processed (ld_id a) src w') - int (processed (ld_id a) src w)"
proof -
  obtain ss where run: "run_agg (NewAggregator p) ops = (ss, agg)"
    and n: "processed (ld_id a) src w' = processed (ld_id a) src w + length (observed ops)"
    using assms(1) by (cases "run_agg (NewAggregator p) ops") (auto simp: accounted_def)
  have z: "agg_count (NewAggregator p) = 0" by (simp add: NewAggregator_def)
  have "agg_count (NewAggregator p) + int (length (observed ops)) < 2 ^ 63" using assms(2) n z by simp
  from run_agg_counts [OF agg_inv_New this run] run n z show ?thesis by simp
qed

section \<open>Properties of the log drain\<close>

text \<open>
  C8. Composition: whenever the drain agent has returned, every log entry it has counted as
  processed since the start is in exactly one of the summaries it has published, or in the bucket
  that is still open; the published summaries are the new summary lines of the log, in order.
\<close>

theorem drained_entries_are_summarised:
  assumes "drain_ok a" and "info_enabled a" and "ld_source a = list_source u R s"
    and "LogDrain_Run fuel marshal a c (NewAggregator p) w = Some (Ret e, agg, w')"
    and "int (processed (ld_id a) (ref_Name (ls_ref s)) w') - int (processed (ld_id a) (ref_Name (ls_ref s)) w) < 2 ^ 63"
  shows "\<exists>ss. summary_lines w' = summary_lines w @ map (summary_line marshal a) ss \<and>
    sum_list (map EntryCount ss) + agg_count agg =
      int (processed (ld_id a) (ref_Name (ls_ref s)) w') - int (processed (ld_id a) (ref_Name (ls_ref s)) w)"
proof -
  have "delivers (\<lambda>_. True) (list_source u R s)" by (simp add: delivers_def)
  from list_src.LogDrain_Run_accounted [OF assms(1,2) this assms(3,4)]
  have acc: "accounted (\<lambda>_. True) marshal a (ref_Name (ls_ref s)) (run_ops fuel marshal a c (NewAggregator p) w) (NewAggregator p, w) (agg, w')"
    by (simp add: list_source_def)
  with accounted_counts [OF acc assms(5)] show ?thesis unfolding accounted_def fst_conv snd_conv by blast
qed

definition drain_rdb :: "unit rdb" where
  "drain_rdb = quiet_rdb\<lparr>x_BLPop := (\<lambda>_ _ c t n. if t < 3 then (Inr [''logs'', ''{}''], 1, n) else (Inl ContextCanceled, 1, n))\<rparr>"

definition drain_source :: ListSource where
  "drain_source = \<lparr>ls_ref = \<lparr>ref_Name = ''logs'', ref_Kind = KindList\<rparr>, ls_block = second, ls_log = NewLogger []\<rparr>"

definition drain_agent :: "unit LogDrainAgent" where
  "drain_agent = fst (NewLogDrainAgent ''d'' (list_source example_decoder drain_rdb drain_source) hour None (NewLogger []))"

lemma drain_agent_ok:
  "drain_ok drain_agent" "info_enabled drain_agent" "ld_source drain_agent = list_source example_decoder drain_rdb drain_source"
  by (simp_all add: drain_ok_def info_enabled_def drain_agent_def NewLogDrainAgent_def ForAgent_def log_With_def NewLogger_def
      strings_TrimSpace_def Let_def)

lemma drain_agent_run:
  "\<exists>e agg w'. LogDrain_Run 3 (\<lambda>s. Inr []) drain_agent background (NewAggregator hour) (start_world 1 (\<lambda>_. 0) ()) =
     Some (Ret e, agg, w') \<and> processed ''d'' ''logs'' w' = 2"
  by (simp add: LogDrain_Run_def numeral_3_eq_3 poll_select_def poll_tick_def Let_def drain_agent_ok(3) list_source_def
      ListSource_Read_def drain_source_def drain_rdb_def quiet_rdb_def call_def start_world_def Parse_def example_decoder_def
      Envelope_Validate_def NewDelivery_def drain_one_def Observe_def roll_def count_entry_def emit_closed_def Ack_def
      bucketStart_def time_Truncate_def stamp_of_def NewAggregator_def zero_time_def zero_Envelope_def processed_def
      drain_agent_def NewLogDrainAgent_def log_at_def counter_Inc_def)

theorem drained_entries_are_summarised_witness:
  "\<exists>e agg w'. \<exists>ss :: LogSummary list. LogDrain_Run 3 (\<lambda>s. Inr []) drain_agent background (NewAggregator hour) (start_world 1 (\<lambda>_. 0) ()) =
     Some (Ret e, agg, w') \<and> sum_list (map EntryCount ss) + agg_count agg = 2"
proof -
  let ?w = "start_world 1 (\<lambda>_. 0) () :: unit world"
  obtain e agg w' where run: "LogDrain_Run 3 (\<lambda>s. Inr []) drain_agent background (NewAggregator hour) ?w = Some (Ret e, agg, w')"
    and n: "processed ''d'' ''logs'' w' = 2" using drain_agent_run by blast
  have i: "ld_id drain_agent = ''d''" "ref_Name (ls_ref drain_source) = ''logs''" "processed ''d'' ''logs'' ?w = 0"
    by (simp_all add: drain_agent_def NewLogDrainAgent_def drain_source_def processed_def start_world_def)
  from drained_entries_are_summarised [OF drain_agent_ok run, unfolded i] n run show ?thesis by auto
qed



end
