(* ===== verification/Periodic.thy ===== *)
theory Periodic
  imports GoRuntime
begin

text \<open>
  The interval-triggered agent (\<open>internal/agent/periodic.go\<close>). \<open>Run\<close> starts every task run in a
  goroutine of its own, so the agent is a state machine: the loop takes ticks and cancellation,
  the goroutines end, and the steps interleave. A task goroutine that has finished its work first
  clears the \<open>inFlight\<close> flag and only then leaves the wait group, so a new run may already have
  started in between.
\<close>

section \<open>The agent\<close>

text \<open>A task run has not returned (\<open>None\<close>), or has returned or panicked.\<close>

record 'n Task =
  tk_Name :: string
  tk_Run :: "ctx \<Rightarrow> 'n world \<Rightarrow> (gerror option gores \<times> 'n world) option"

record 'n PeriodicAgent =
  pa_id :: string
  pa_interval :: duration
  pa_task :: "'n Task"
  pa_log :: logger

definition NewPeriodicAgent :: "string \<Rightarrow> duration \<Rightarrow> 'n Task \<Rightarrow> logger \<Rightarrow> 'n PeriodicAgent" where
  "NewPeriodicAgent ident interval task lg =
     \<lparr>pa_id = ident, pa_interval = interval, pa_task = task, pa_log = ForAgent lg ident (tk_Name task)\<rparr>"

definition agent_runs :: "'n PeriodicAgent \<Rightarrow> string \<Rightarrow> 'n world \<Rightarrow> 'n world" where
  "agent_runs a outcome = counter_Inc ''conflux_agent_runs_total'' [pa_id a, outcome]"

text \<open>\<open>run\<close> after the task has returned: how the run went.\<close>

definition record_run :: "'n PeriodicAgent \<Rightarrow> ctx \<Rightarrow> time \<Rightarrow> gerror option \<Rightarrow> 'n world \<Rightarrow> 'n world" where
  "record_run a c start err w =
     (let elapsed = time_Sub (clock w) start;
          w1 = histogram_Observe ''conflux_agent_run_duration_seconds'' [pa_id a] elapsed w
      in case err of
           Some e \<Rightarrow>
             (if ctx_Err c w1 = None
              then log_at (pa_log a) LError ''run failed''
                     [(''error'', AStr (error_Error e)), (''elapsed'', ADur elapsed)] (agent_runs a ''failed'' w1)
              else w1)
         | None \<Rightarrow> log_at (pa_log a) LDebug ''run complete'' [(''elapsed'', ADur elapsed)] (agent_runs a ''ok'' w1))"

definition periodic_run :: "'n PeriodicAgent \<Rightarrow> ctx \<Rightarrow> 'n world \<Rightarrow> (unit gores \<times> 'n world) option" where
  "periodic_run a c w =
     (case tk_Run (pa_task a) c w of
        None \<Rightarrow> None
      | Some (Panic m, w1) \<Rightarrow> Some (Panic m, w1)
      | Some (Ret err, w1) \<Rightarrow> Some (Ret (), record_run a c (clock w) err w1))"

section \<open>The loop and its goroutines\<close>

datatype loop_phase = Ticking | Draining | Returned

text \<open>\<open>runs_left\<close> is the count of the wait group; \<open>ps_executing\<close> and \<open>ps_finishing\<close> count the
  goroutines that are inside the task and those that have cleared the flag but not left the wait
  group. \<open>ps_ticks\<close>, \<open>ps_starts\<close> and \<open>ps_skips\<close> count what the loop did since the start.\<close>

record 'n psys =
  ps_phase :: loop_phase
  ps_inFlight :: bool
  runs_left :: int
  ps_executing :: nat
  ps_finishing :: nat
  ps_crashed :: bool
  ps_world :: "'n world"
  ps_ticks :: nat
  ps_starts :: nat

definition periodic_start :: "'n PeriodicAgent \<Rightarrow> 'n world \<Rightarrow> 'n psys" where
  "periodic_start a w =
     \<lparr>ps_phase = Ticking, ps_inFlight = False, runs_left = 0, ps_executing = 0, ps_finishing = 0, ps_crashed = False,
      ps_world = log_at (pa_log a) LInfo ''periodic agent started'' [(''interval'', ADur (pa_interval a))] w,
      ps_ticks = 0, ps_starts = 0\<rparr>"

text \<open>The branch of a tick: \<open>CompareAndSwap(false, true)\<close>, then a new goroutine.\<close>

definition on_tick :: "'n PeriodicAgent \<Rightarrow> 'n psys \<Rightarrow> 'n psys" where
  "on_tick a s =
     (if ps_inFlight s
      then s\<lparr>ps_ticks := Suc (ps_ticks s),
             ps_world := log_at (pa_log a) LWarn ''run skipped; previous run still in flight''
               [(''interval'', ADur (pa_interval a))] (agent_runs a ''skipped_overlap'' (ps_world s))\<rparr>
      else s\<lparr>ps_ticks := Suc (ps_ticks s), ps_starts := Suc (ps_starts s), ps_inFlight := True,
             runs_left := runs_left s + 1, ps_executing := Suc (ps_executing s)\<rparr>)"

text \<open>The deferred \<open>inFlight.Store(false)\<close> and \<open>inFlight.Done()\<close> of a goroutine.\<close>

definition on_task_end :: "'n world \<Rightarrow> 'n psys \<Rightarrow> 'n psys" where
  "on_task_end w s =
     s\<lparr>ps_world := w, ps_executing := ps_executing s - 1, ps_finishing := Suc (ps_finishing s), ps_inFlight := False\<rparr>"

definition on_group_done :: "'n psys \<Rightarrow> 'n psys" where
  "on_group_done s = s\<lparr>ps_finishing := ps_finishing s - 1, runs_left := runs_left s - 1\<rparr>"

text \<open>The task works on the world while it runs; the counter of skipped runs is the loop's own. A
  panic in a task goroutine is not recovered and ends the process.\<close>

definition skipped :: "'n PeriodicAgent \<Rightarrow> 'n world \<Rightarrow> nat" where
  "skipped a w = counters w (''conflux_agent_runs_total'', [pa_id a, ''skipped_overlap''])"

inductive periodic_step :: "'n PeriodicAgent \<Rightarrow> ctx \<Rightarrow> 'n psys \<Rightarrow> 'n psys \<Rightarrow> bool"
  for a :: "'n PeriodicAgent" and c :: ctx where
  TickStep: "\<not> ps_crashed s \<Longrightarrow> ps_phase s = Ticking \<Longrightarrow> periodic_step a c s (on_tick a s)"
| WorkStep: "\<not> ps_crashed s \<Longrightarrow> skipped a w = skipped a (ps_world s) \<Longrightarrow> periodic_step a c s (s\<lparr>ps_world := w\<rparr>)"
| EndStep: "\<not> ps_crashed s \<Longrightarrow> 0 < ps_executing s \<Longrightarrow>
    periodic_step a c s (on_task_end (record_run a c start err (ps_world s)) s)"
| CrashStep: "\<not> ps_crashed s \<Longrightarrow> 0 < ps_executing s \<Longrightarrow> periodic_step a c s (s\<lparr>ps_crashed := True\<rparr>)"
| GroupStep: "\<not> ps_crashed s \<Longrightarrow> 0 < ps_finishing s \<Longrightarrow> periodic_step a c s (on_group_done s)"
| DoneStep: "\<not> ps_crashed s \<Longrightarrow> ps_phase s = Ticking \<Longrightarrow> ctx_Err c (ps_world s) \<noteq> None \<Longrightarrow>
    periodic_step a c s (s\<lparr>ps_phase := Draining\<rparr>)"
| ReturnStep: "\<not> ps_crashed s \<Longrightarrow> ps_phase s = Draining \<Longrightarrow> runs_left s = 0 \<Longrightarrow>
    periodic_step a c s (s\<lparr>ps_phase := Returned\<rparr>)"

inductive_cases periodic_stepE: "periodic_step a c s s'"

inductive periodic_reach :: "'n PeriodicAgent \<Rightarrow> ctx \<Rightarrow> 'n world \<Rightarrow> 'n psys \<Rightarrow> bool"
  for a :: "'n PeriodicAgent" and c :: ctx and w :: "'n world" where
  reach_start: "periodic_reach a c w (periodic_start a w)"
| reach_step: "periodic_reach a c w s \<Longrightarrow> periodic_step a c s s' \<Longrightarrow> periodic_reach a c w s'"

section \<open>Invariant\<close>

definition periodic_inv :: "'n PeriodicAgent \<Rightarrow> 'n world \<Rightarrow> 'n psys \<Rightarrow> bool" where
  "periodic_inv a w s \<longleftrightarrow>
     ps_executing s = (if ps_inFlight s then 1 else 0) \<and>
     runs_left s = int (ps_executing s) + int (ps_finishing s) \<and>
     (ps_phase s = Returned \<longrightarrow> runs_left s = 0) \<and>
     skipped a (ps_world s) + ps_starts s = skipped a w + ps_ticks s"

lemma skipped_simps [simp]:
  "skipped a (log_at lg lv m as w) = skipped a w"
  "skipped a (agent_runs a ''skipped_overlap'' w) = Suc (skipped a w)"
  "skipped a (record_run a c start err w) = skipped a w"
  by (simp_all add: record_run_def Let_def skipped_def agent_runs_def split: option.split)

lemma periodic_inv_step: "periodic_step a c s s' \<Longrightarrow> periodic_inv a w s \<Longrightarrow> periodic_inv a w s'"
  by (erule periodic_stepE)
     (auto simp: periodic_inv_def on_tick_def on_task_end_def on_group_done_def split: if_splits)

lemma periodic_inv_reach: "periodic_reach a c w s \<Longrightarrow> periodic_inv a w s"
proof (induction rule: periodic_reach.induct)
  case reach_start
  show ?case by (simp add: periodic_inv_def periodic_start_def)
qed (rule periodic_inv_step)

section \<open>Properties of the periodic agent\<close>

text \<open>
  C13. Two runs of one task never overlap, whatever the interleaving of ticks, ends of runs and
  cancellation: at most one goroutine is inside the task, exactly when the flag is set; every tick
  either starts a run or is counted as skipped, so skipped runs never queue up; and \<open>Run\<close> returns
  only when no goroutine is left.
\<close>

theorem periodic_runs_never_overlap:
  assumes "periodic_reach a c w s"
  shows "ps_executing s \<le> 1 \<and> (ps_executing s = 1) = ps_inFlight s \<and>
    ps_starts s + skipped a (ps_world s) = ps_ticks s + skipped a w \<and>
    (ps_phase s = Returned \<longrightarrow> ps_executing s = 0 \<and> ps_finishing s = 0)"
  using periodic_inv_reach [OF assms] by (auto simp: periodic_inv_def split: if_splits)

definition idle_task :: "unit Task" where
  "idle_task = \<lparr>tk_Name = ''t'', tk_Run = (\<lambda>c w. Some (Ret None, w))\<rparr>"

definition example_periodic :: "unit PeriodicAgent" where
  "example_periodic = NewPeriodicAgent ''p'' second idle_task (NewLogger [])"

definition periodic_world :: "unit world" where
  "periodic_world = start_world 0 (\<lambda>_. 0) ()"

lemma example_two_ticks:
  "periodic_reach example_periodic background periodic_world
     (on_tick example_periodic (on_tick example_periodic (periodic_start example_periodic periodic_world)))"
  by (intro reach_step [OF reach_step [OF reach_start TickStep] TickStep])
     (simp_all add: periodic_start_def on_tick_def)

theorem periodic_runs_never_overlap_witness:
  "let s = on_tick example_periodic (on_tick example_periodic (periodic_start example_periodic periodic_world))
   in ps_executing s \<le> 1 \<and> ps_ticks s = 2 \<and> ps_starts s = 1"
  using periodic_runs_never_overlap [OF example_two_ticks]
  unfolding Let_def by (simp add: on_tick_def periodic_start_def)

text \<open>
  A failing run does not stop the agent: however the run in flight ends, the next tick starts
  a new one.
\<close>

theorem periodic_survives_failed_runs:
  assumes "periodic_reach a c w s" and "\<not> ps_crashed s" and "ps_phase s = Ticking" and "ps_inFlight s"
  shows "\<exists>s1 s2. periodic_step a c s s1 \<and> ps_world s1 = record_run a c start err (ps_world s) \<and>
    periodic_step a c s1 s2 \<and> ps_starts s2 = Suc (ps_starts s) \<and> ps_executing s2 = 1"
proof -
  let ?s1 = "on_task_end (record_run a c start err (ps_world s)) s"
  have ex: "ps_executing s = 1" using periodic_inv_reach [OF assms(1)] assms(4) by (simp add: periodic_inv_def)
  then have "periodic_step a c s ?s1" using assms(2) by (intro EndStep) simp_all
  moreover have "periodic_step a c ?s1 (on_tick a ?s1)" using assms(2,3) by (intro TickStep) (simp_all add: on_task_end_def)
  ultimately show ?thesis using ex
    by (intro exI [of _ ?s1] exI [of _ "on_tick a ?s1"]) (simp add: on_tick_def on_task_end_def)
qed

theorem periodic_survives_failed_runs_witness:
  "\<exists>s1 s2. periodic_step example_periodic background
       (on_tick example_periodic (periodic_start example_periodic periodic_world)) s1 \<and>
     periodic_step example_periodic background s1 s2 \<and> ps_starts s2 = Suc (Suc 0)"
proof -
  let ?s = "on_tick example_periodic (periodic_start example_periodic periodic_world)"
  have "periodic_reach example_periodic background periodic_world ?s" "\<not> ps_crashed ?s" "ps_phase ?s = Ticking" "ps_inFlight ?s"
    by (intro reach_step [OF reach_start TickStep]) (simp_all add: periodic_start_def on_tick_def)
  moreover have "ps_starts ?s = Suc 0" by (simp add: on_tick_def periodic_start_def)
  ultimately show ?thesis using periodic_survives_failed_runs [of example_periodic background periodic_world ?s 0 "Some RedisNil"]
    by auto
qed

text \<open>
  What is recorded of a run: \<open>ok\<close> exactly when it returned nil, \<open>failed\<close>, with an error line,
  exactly when it returned an error and the context was not done; a run cut off by shutdown counts
  as neither. Its duration is observed in every case.
\<close>

theorem record_run_exact:
  "counters (record_run a c start err w) =
     (let k = (\<lambda>x. (''conflux_agent_runs_total'', [pa_id a, x])) in
      case err of
        None \<Rightarrow> (counters w)(k ''ok'' := Suc (counters w (k ''ok'')))
      | Some e \<Rightarrow> if ctx_Err c w = None then (counters w)(k ''failed'' := Suc (counters w (k ''failed''))) else counters w) \<and>
   (err \<noteq> None \<and> ctx_Err c w = None) =
     (\<exists>e as. logs (record_run a c start err w) = logs w @ [\<lparr>l_level = LError, l_msg = ''run failed'', l_attrs = as\<rparr>] \<and> err = Some e) \<and>
   histograms (record_run a c start err w) =
     (let k = (''conflux_agent_run_duration_seconds'', [pa_id a])
      in (histograms w)(k := histograms w k @ [time_Sub (clock w) start]))"
  by (cases err) (auto simp: record_run_def Let_def agent_runs_def ctx_Err_def histogram_Observe_def counter_Inc_def)

end
