(* ===== verification/Housekeeping.thy ===== *)
theory Housekeeping
  imports RedisSource Config Periodic
begin

text \<open>
  The periodic tasks (\<open>internal/housekeeping/reclaim.go\<close>, \<open>report.go\<close>, \<open>task.go\<close>): the
  reclaim pass over abandoned entries, the read-only report, and the choice of a task from the
  configuration. The paging of \<open>Reclaim\<close> takes fuel, so a reclaim run may be \<open>None\<close>.
\<close>

section \<open>Reclaim\<close>

record ReclaimTask =
  rt_sources :: "SourceRef list"
  rt_group :: string
  rt_consumer :: string
  rt_minIdle :: duration
  rt_batch :: int
  rt_retireIdle :: duration
  rt_agentID :: string
  rt_log :: logger

text \<open>The loop over the reclaimed deliveries: the error that ended it, if any.\<close>

definition note_reclaimed :: "ReclaimTask \<Rightarrow> SourceRef \<Rightarrow> 'n Delivery \<Rightarrow> 'n world \<Rightarrow> 'n world" where
  "note_reclaimed t ref d w =
     (let lg = ForEnvelope (rt_log t) (d_Envelope d) in
      case d_Unprocessable d of
        Some reason \<Rightarrow>
          counter_Inc ''conflux_events_unprocessable_total'' [rt_agentID t, ref_Name ref, ''parse'']
            (log_at lg LError ''reclaimed entry is unprocessable''
               [(''source'', AStr (ref_Name ref)), (''position'', AStr (d_Position d)),
                (''raw'', AStr (case d_Raw d of None \<Rightarrow> [] | Some b \<Rightarrow> b))] w)
      | None \<Rightarrow>
          log_at lg LWarn ''reclaimed abandoned entry''
            [(''source'', AStr (ref_Name ref)), (''position'', AStr (d_Position d))] w)"

fun ack_reclaimed ::
  "ReclaimTask \<Rightarrow> SourceRef \<Rightarrow> ctx \<Rightarrow> 'n Delivery list \<Rightarrow> 'n world \<Rightarrow> gerror option \<times> 'n world" where
  "ack_reclaimed t ref c [] w = (None, w)"
| "ack_reclaimed t ref c (d # ds) w =
     (case Ack d c (note_reclaimed t ref d w) of
        (Some e, w1) \<Rightarrow> (Some (Wrapf (''ack reclaimed entry '' @ d_Position d) e), w1)
      | (None, w1) \<Rightarrow>
          ack_reclaimed t ref c ds
            (counter_Inc ''conflux_entries_reclaimed_total'' [rt_agentID t, ref_Name ref] w1))"

definition retire_after :: "'n rdb \<Rightarrow> ReclaimTask \<Rightarrow> SourceRef \<Rightarrow> ctx \<Rightarrow> 'n world \<Rightarrow> gerror option \<times> 'n world" where
  "retire_after R t ref c w =
     (case RetireConsumers R (ref_Name ref) (rt_group t) (rt_retireIdle t) (rt_log t) c w of
        ((retired, Some e), w1) \<Rightarrow> (Some e, w1)
      | ((retired, None), w1) \<Rightarrow>
          (None, if retired > 0
                 then log_at (rt_log t) LInfo ''retired idle consumers''
                        [(''source'', AStr (ref_Name ref)), (''count'', AInt retired)] w1
                 else w1))"

definition reclaimOne ::
  "nat \<Rightarrow> json_decoder \<Rightarrow> 'n rdb \<Rightarrow> ReclaimTask \<Rightarrow> ctx \<Rightarrow> SourceRef \<Rightarrow> 'n world \<Rightarrow> (gerror option \<times> 'n world) option" where
  "reclaimOne fuel u R t c ref w =
     (case Client_Pending R (ref_Name ref) (rt_group t) c w of
        (Inl e, w1) \<Rightarrow> Some (Some e, w1)
      | (Inr stats, w1) \<Rightarrow>
          (let w2 = gauge_Set ''conflux_pending_entries'' [rt_agentID t, ref_Name ref] (p_Count stats) w1 in
           if p_Count stats = 0 then Some (None, w2)
           else case Reclaim fuel u R ref (rt_group t) (rt_consumer t) (rt_minIdle t) (rt_batch t) c w2 of
             None \<Rightarrow> None
           | Some ((ds, Some e), w3) \<Rightarrow> Some (Some e, w3)
           | Some ((ds, None), w3) \<Rightarrow>
               (case ack_reclaimed t ref c ds w3 of
                  (Some e, w4) \<Rightarrow> Some (Some e, w4)
                | (None, w4) \<Rightarrow> Some (retire_after R t ref c w4))))"

fun reclaim_sources ::
  "nat \<Rightarrow> json_decoder \<Rightarrow> 'n rdb \<Rightarrow> ReclaimTask \<Rightarrow> ctx \<Rightarrow> SourceRef list \<Rightarrow> 'n world \<Rightarrow> (gerror option \<times> 'n world) option" where
  "reclaim_sources fuel u R t c [] w = Some (None, w)"
| "reclaim_sources fuel u R t c (ref # refs) w =
     (if ref_Kind ref \<noteq> KindStream then reclaim_sources fuel u R t c refs w
      else case reclaimOne fuel u R t c ref w of
        None \<Rightarrow> None
      | Some (Some e, w1) \<Rightarrow> Some (Some e, w1)
      | Some (None, w1) \<Rightarrow> reclaim_sources fuel u R t c refs w1)"

definition ReclaimTask_Run ::
  "nat \<Rightarrow> json_decoder \<Rightarrow> 'n rdb \<Rightarrow> ReclaimTask \<Rightarrow> ctx \<Rightarrow> 'n world \<Rightarrow> (gerror option \<times> 'n world) option" where
  "ReclaimTask_Run fuel u R t c w = reclaim_sources fuel u R t c (rt_sources t) w"

section \<open>Report\<close>

record ReportTask =
  pt_sources :: "SourceRef list"
  pt_group :: string
  pt_agentID :: string
  pt_log :: logger

definition report_stream :: "'n rdb \<Rightarrow> ReportTask \<Rightarrow> ctx \<Rightarrow> SourceRef \<Rightarrow> 'n world \<Rightarrow> gerror option \<times> 'n world" where
  "report_stream R t c ref w =
     (case ReportStream R (ref_Name ref) c w of
        (Inl e, w1) \<Rightarrow> (Some e, w1)
      | (Inr rep, w1) \<Rightarrow>
          (case Client_Pending R (ref_Name ref) (pt_group t) c w1 of
             (p, w2) \<Rightarrow>
               (let n = (case p of Inl _ \<Rightarrow> 0 | Inr st \<Rightarrow> p_Count st);
                    w3 = (case p of Inl _ \<Rightarrow> w2
                          | Inr st \<Rightarrow> gauge_Set ''conflux_pending_entries'' [pt_agentID t, ref_Name ref] (p_Count st) w2)
                in (None, log_at (pt_log t) LInfo ''queue report''
                     [(''component'', AStr ''housekeeping''), (''source'', AStr (ref_Name ref)),
                      (''length'', AInt (rep_Length rep)), (''groups'', AInt (rep_Groups rep)),
                      (''pending'', AInt n)] w3))))"

definition report_list :: "'n rdb \<Rightarrow> ReportTask \<Rightarrow> ctx \<Rightarrow> SourceRef \<Rightarrow> 'n world \<Rightarrow> gerror option \<times> 'n world" where
  "report_list R t c ref w =
     (case ListDepth R (ref_Name ref) c w of
        (Inl e, w1) \<Rightarrow> (Some e, w1)
      | (Inr depth, w1) \<Rightarrow>
          (None, log_at (pt_log t) LInfo ''queue report''
             [(''component'', AStr ''housekeeping''), (''source'', AStr (ref_Name ref)), (''depth'', AInt depth)]
             (gauge_Set ''conflux_log_list_depth'' [ref_Name ref] depth w1)))"

definition report_one :: "'n rdb \<Rightarrow> ReportTask \<Rightarrow> ctx \<Rightarrow> SourceRef \<Rightarrow> 'n world \<Rightarrow> gerror option \<times> 'n world" where
  "report_one R t c ref w =
     (if ref_Kind ref = KindStream then report_stream R t c ref w
      else if ref_Kind ref = KindList then report_list R t c ref w
      else (None, w))"

fun report_sources :: "'n rdb \<Rightarrow> ReportTask \<Rightarrow> ctx \<Rightarrow> SourceRef list \<Rightarrow> 'n world \<Rightarrow> gerror option \<times> 'n world" where
  "report_sources R t c [] w = (None, w)"
| "report_sources R t c (ref # refs) w =
     (case report_one R t c ref w of
        (Some e, w1) \<Rightarrow> (Some e, w1)
      | (None, w1) \<Rightarrow> report_sources R t c refs w1)"

definition ReportTask_Run :: "'n rdb \<Rightarrow> ReportTask \<Rightarrow> ctx \<Rightarrow> 'n world \<Rightarrow> gerror option \<times> 'n world" where
  "ReportTask_Run R t c w = report_sources R t c (pt_sources t) w"

section \<open>Choosing a task\<close>

fun source_refs_from :: "string list \<Rightarrow> AgentCfg list \<Rightarrow> SourceRef list" where
  "source_refs_from seen [] = []"
| "source_refs_from seen (a # as) =
     (if a_Source a = [] \<or> a_Source a \<in> set seen then source_refs_from seen as
      else if a_SourceKind a \<noteq> KindStream \<and> a_SourceKind a \<noteq> KindList then source_refs_from seen as
      else \<lparr>ref_Name = a_Source a, ref_Kind = a_SourceKind a\<rparr> # source_refs_from (a_Source a # seen) as)"

definition sourceRefs :: "Config \<Rightarrow> SourceRef list" where
  "sourceRefs cfg = source_refs_from [] (c_Agents cfg)"

definition reclaim_task :: "AgentCfg \<Rightarrow> Config \<Rightarrow> logger \<Rightarrow> ReclaimTask" where
  "reclaim_task ac cfg lg =
     \<lparr>rt_sources = sourceRefs cfg, rt_group = GroupName (ConsumerGrp (c_Redis cfg)) (a_ID ac),
      rt_consumer = ConsumerName (ConsumerNameBase (c_Redis cfg)) (a_ID ac) (InstanceID cfg),
      rt_minIdle = PendingMinIdle (c_House cfg), rt_batch = PendingBatch (c_House cfg),
      rt_retireIdle = ConsumerRetireIdle (c_House cfg), rt_agentID = a_ID ac, rt_log = lg\<rparr>"

definition report_task :: "AgentCfg \<Rightarrow> Config \<Rightarrow> logger \<Rightarrow> ReportTask" where
  "report_task ac cfg lg =
     \<lparr>pt_sources = sourceRefs cfg, pt_group = GroupName (ConsumerGrp (c_Redis cfg)) (a_ID ac),
      pt_agentID = a_ID ac, pt_log = lg\<rparr>"

definition as_task :: "string \<Rightarrow> (ctx \<Rightarrow> 'n world \<Rightarrow> (gerror option \<times> 'n world) option) \<Rightarrow> 'n Task" where
  "as_task name run =
     \<lparr>tk_Name = name, tk_Run = (\<lambda>c w. case run c w of None \<Rightarrow> None | Some (e, w1) \<Rightarrow> Some (Ret e, w1))\<rparr>"

definition TaskFor ::
  "nat \<Rightarrow> json_decoder \<Rightarrow> 'n rdb \<Rightarrow> AgentCfg \<Rightarrow> Config \<Rightarrow> logger \<Rightarrow> gerror + 'n Task" where
  "TaskFor fuel u R ac cfg lg =
     (if a_Source ac = ''reclaim'' \<or> a_ID ac = ''pending_reclaim'' \<or> a_ID ac = ''pending-reclaim''
      then Inr (as_task ''pending-reclaim'' (ReclaimTask_Run fuel u R (reclaim_task ac cfg lg)))
      else if a_Source ac = ''report'' \<or> a_ID ac = ''queue_report'' \<or> a_ID ac = ''queue-report''
      then Inr (as_task ''queue-report'' (\<lambda>c w. Some (ReportTask_Run R (report_task ac cfg lg) c w)))
      else Inl (ErrorString (''no periodic task known for agent '' @ strconv_Quote (a_ID ac) @
        '' (known: pending-reclaim, queue-report; set AGENT_'' @ a_Key ac @ ''_SOURCE to reclaim or report)'')))"

section \<open>The commands of the tasks\<close>

text \<open>A step that issues only commands of one kind.\<close>

definition emits :: "(cmd \<Rightarrow> bool) \<Rightarrow> 'n world \<Rightarrow> 'n world \<Rightarrow> bool" where
  "emits P w w' \<longleftrightarrow> extends w w' \<and> list_all P (issued w w')"

lemma emits_same [intro]: "trace w' = trace w \<Longrightarrow> emits P w w'"
  using same_trace by (auto simp: emits_def)

lemma emits_trans: "emits P w w1 \<Longrightarrow> emits P w1 w2 \<Longrightarrow> emits P w w2"
  unfolding emits_def using extends_trans [of w w1 w2] by simp

lemma emits_then_same: "emits P w w1 \<Longrightarrow> trace w2 = trace w1 \<Longrightarrow> emits P w w2"
  by (blast intro: emits_trans)

lemma emits_call: "call x f c w = (r, w') \<Longrightarrow> P x \<Longrightarrow> emits P w w'"
  using call_quiet by (fastforce simp: emits_def)

fun read_only :: "cmd \<Rightarrow> bool" where
  "read_only (XINFO_STREAM s) = True"
| "read_only (XPENDING s g) = True"
| "read_only (LLEN k) = True"
| "read_only _ = False"

lemma Client_Pending_emits: "Client_Pending R s g c w = (r, w') \<Longrightarrow> P (XPENDING s g) \<Longrightarrow> emits P w w'"
  by (auto simp: Client_Pending_def split: prod.splits sum.splits dest: emits_call)

lemma report_one_emits: "report_one R t c ref w = (r, w') \<Longrightarrow> emits read_only w w'"
proof -
  have stream: "emits read_only w w'" if "report_stream R t c ref w = (r, w')" for r w'
  proof -
    obtain x w1 where 1: "ReportStream R (ref_Name ref) c w = (x, w1)" by fastforce
    have e1: "emits read_only w w1"
      using 1 by (auto simp: ReportStream_def split: prod.splits sum.splits dest: emits_call [where P = read_only])
    obtain p w2 where 2: "Client_Pending R (ref_Name ref) (pt_group t) c w1 = (p, w2)" by fastforce
    have e2: "emits read_only w w2" by (rule emits_trans [OF e1 Client_Pending_emits [OF 2]]) simp
    have "w' = w1 \<or> trace w' = trace w2"
      using that 1 2 by (auto simp: report_stream_def Let_def split: sum.splits)
    with e1 e2 show ?thesis by (auto intro: emits_then_same)
  qed
  have lst: "emits read_only w w'" if "report_list R t c ref w = (r, w')" for r w'
  proof -
    obtain x w1 where 1: "ListDepth R (ref_Name ref) c w = (x, w1)" by fastforce
    have "emits read_only w w1" by (rule emits_call [OF 1 [unfolded ListDepth_def]]) simp
    moreover have "trace w' = trace w1" using that 1 by (auto simp: report_list_def split: sum.splits)
    ultimately show ?thesis by (rule emits_then_same)
  qed
  assume "report_one R t c ref w = (r, w')"
  with stream lst show ?thesis by (auto simp: report_one_def split: if_splits)
qed

lemma report_sources_emits: "report_sources R t c refs w = (r, w') \<Longrightarrow> emits read_only w w'"
proof (induction refs arbitrary: w)
  case (Cons ref refs)
  obtain x w1 where 1: "report_one R t c ref w = (x, w1)" by fastforce
  note e = report_one_emits [OF 1]
  show ?case
  proof (cases x)
    case None
    with Cons.prems 1 have "report_sources R t c refs w1 = (r, w')" by simp
    from emits_trans [OF e Cons.IH [OF this]] show ?thesis .
  qed (use Cons.prems 1 e in auto)
qed auto

text \<open>What a reclaim pass may do: work on its own group of the configured streams, with the
  configured idle time, and nothing else.\<close>

fun reclaim_cmd :: "ReclaimTask \<Rightarrow> cmd \<Rightarrow> bool" where
  "reclaim_cmd t (XPENDING s g) = (s \<in> ref_Name ` set (rt_sources t) \<and> g = rt_group t)"
| "reclaim_cmd t (XAUTOCLAIM s g k idle cur n) =
     (s \<in> ref_Name ` set (rt_sources t) \<and> g = rt_group t \<and> k = rt_consumer t \<and> idle = rt_minIdle t \<and> n = rt_batch t)"
| "reclaim_cmd t (XACK s g i) = (s \<in> ref_Name ` set (rt_sources t) \<and> g = rt_group t)"
| "reclaim_cmd t (XINFO_CONSUMERS s g) = (s \<in> ref_Name ` set (rt_sources t) \<and> g = rt_group t)"
| "reclaim_cmd t (XGROUP_DELCONSUMER s g k) = (s \<in> ref_Name ` set (rt_sources t) \<and> g = rt_group t)"
| "reclaim_cmd t _ = False"

text \<open>Deliveries that acknowledge in a group.\<close>

definition acks_in :: "'n rdb \<Rightarrow> SourceRef \<Rightarrow> string \<Rightarrow> 'n Delivery \<Rightarrow> bool" where
  "acks_in R ref g d \<longleftrightarrow> d_ack d = Some (xack R (ref_Name ref) g (d_Position d))"

lemma reclaimed_acks_in: "acks_in R ref g (reclaimed_delivery u R ref g msg)"
  by (simp add: acks_in_def reclaimed_delivery_def NewDelivery_def Let_def split: option.split prod.split)

lemma Reclaim_from_acks_in:
  assumes "Reclaim_from fuel u R ref g con idle n c cur out w = Some ((ds, e), w')" and "list_all (acks_in R ref g) out"
  shows "list_all (acks_in R ref g) ds"
proof -
  from Reclaim_from_issued [OF assms(1)] obtain msgs where "ds = out @ map (reclaimed_delivery u R ref g) msgs" by blast
  with assms(2) show ?thesis by (auto simp: list_all_iff reclaimed_acks_in)
qed

lemma note_reclaimed_trace [simp]: "trace (note_reclaimed t ref d w) = trace w"
  by (simp add: note_reclaimed_def Let_def split: option.split)

lemma ack_reclaimed_issued:
  assumes "list_all (acks_in R ref (rt_group t)) ds" and "ack_reclaimed t ref c ds w = (e, w')"
  shows "extends w w' \<and> (\<exists>k \<le> length ds. issued w w' = map (\<lambda>d. XACK (ref_Name ref) (rt_group t) (d_Position d)) (take k ds) \<and>
    (e = None \<longrightarrow> k = length ds))"
  using assms
proof (induction ds arbitrary: w)
  case (Cons d ds)
  let ?x = "\<lambda>d. XACK (ref_Name ref) (rt_group t) (d_Position d)"
  obtain x w1 where ack: "Ack d c (note_reclaimed t ref d w) = (x, w1)" by fastforce
  have "xack R (ref_Name ref) (rt_group t) (d_Position d) c (note_reclaimed t ref d w) = (x, w1)"
    using ack Cons.prems(1) by (simp add: Ack_def acks_in_def)
  from call_frame(7) [OF this [unfolded xack_def]] have t1: "trace w1 = trace w @ [?x d]" by simp
  then have one: "extends w w1 \<and> issued w w1 = [?x d]" by (rule extendsI)
  show ?case
  proof (cases x)
    case (Some err)
    with Cons.prems(2) ack one show ?thesis by (auto intro!: exI [of _ 1])
  next
    case None
    define w2 where "w2 = counter_Inc ''conflux_entries_reclaimed_total'' [rt_agentID t, ref_Name ref] w1"
    have two: "extends w w2 \<and> issued w w2 = [?x d]" using t1 by (intro extendsI) (simp add: w2_def)
    have "ack_reclaimed t ref c ds w2 = (e, w')" using Cons.prems(2) ack None by (simp add: w2_def)
    from Cons.IH [OF _ this] Cons.prems(1) obtain k where "extends w2 w'" "k \<le> length ds"
      "issued w2 w' = map ?x (take k ds)" "e = None \<longrightarrow> k = length ds" by auto
    with two extends_trans [of w w2 w'] show ?thesis by (intro conjI exI [of _ "Suc k"]) auto
  qed
qed auto

fun retire_cmd :: "string \<Rightarrow> string \<Rightarrow> cmd \<Rightarrow> bool" where
  "retire_cmd s g (XINFO_CONSUMERS s' g') = (s' = s \<and> g' = g)"
| "retire_cmd s g (XGROUP_DELCONSUMER s' g' k) = (s' = s \<and> g' = g)"
| "retire_cmd s g _ = False"

lemma RetireConsumers_emits:
  assumes "RetireConsumers R s g idle lg c w = ((n, e), w')"
  shows "emits (retire_cmd s g) w w'"
proof -
  obtain q w1 where 1: "call (XINFO_CONSUMERS s g) (x_XInfoConsumers R s g) c w = (q, w1)" by fastforce
  have e1: "emits (retire_cmd s g) w w1" by (rule emits_call [OF 1]) simp
  show ?thesis
  proof (cases q)
    case (Inr cons)
    with assms 1 have "retire_loop R s g idle lg c 0 cons w1 = ((n, e), w')" by (simp add: RetireConsumers_def)
    from retire_loop_inv [OF this] have "emits (retire_cmd s g) w1 w'" by (auto simp: emits_def list_all_iff)
    then show ?thesis by (rule emits_trans [OF e1])
  qed (use assms 1 e1 in \<open>simp add: RetireConsumers_def\<close>)
qed

lemma emits_mono: "emits P w w' \<Longrightarrow> (\<And>x. P x \<Longrightarrow> Q x) \<Longrightarrow> emits Q w w'"
  by (auto simp: emits_def list_all_iff)

lemma retire_cmd_reclaim:
  "retire_cmd (ref_Name ref) (rt_group t) x \<Longrightarrow> ref \<in> set (rt_sources t) \<Longrightarrow> reclaim_cmd t x"
  by (cases "(ref_Name ref, rt_group t, x)" rule: retire_cmd.cases) auto

lemma reclaimOne_emits:
  assumes "ref \<in> set (rt_sources t)" and "reclaimOne fuel u R t c ref w = Some (r, w')"
  shows "emits (reclaim_cmd t) w w'"
proof -
  let ?P = "reclaim_cmd t"
  have s: "ref_Name ref \<in> ref_Name ` set (rt_sources t)" using assms(1) by blast
  obtain x w1 where 1: "Client_Pending R (ref_Name ref) (rt_group t) c w = (x, w1)" by fastforce
  have e1: "emits ?P w w1" by (rule Client_Pending_emits [OF 1]) (simp add: s)
  show ?thesis
  proof (cases x)
    case (Inl e)
    with assms(2) 1 e1 show ?thesis by (simp add: reclaimOne_def)
  next
    case (Inr st)
    define w2 where "w2 = gauge_Set ''conflux_pending_entries'' [rt_agentID t, ref_Name ref] (p_Count st) w1"
    have e2: "emits ?P w w2" by (rule emits_then_same [OF e1]) (simp add: w2_def)
    show ?thesis
    proof (cases "p_Count st = 0")
      case True
      with assms(2) 1 Inr e2 show ?thesis by (simp add: reclaimOne_def w2_def)
    next
      case False
      obtain ds e w3 where 3: "Reclaim fuel u R ref (rt_group t) (rt_consumer t) (rt_minIdle t) (rt_batch t) c w2 = Some ((ds, e), w3)"
        using assms(2) 1 Inr False by (auto simp: reclaimOne_def w2_def split: option.splits)
      from Reclaim_from_issued [OF 3 [unfolded Reclaim_def]] have "emits ?P w2 w3"
        by (auto simp: emits_def list_all_iff s)
      then have e3: "emits ?P w w3" by (rule emits_trans [OF e2])
      have acks: "list_all (acks_in R ref (rt_group t)) ds"
        by (rule Reclaim_from_acks_in [OF 3 [unfolded Reclaim_def]]) simp
      obtain y w4 where 4: "ack_reclaimed t ref c ds w3 = (y, w4)" by fastforce
      from ack_reclaimed_issued [OF acks 4] have "emits ?P w3 w4" by (auto simp: emits_def list_all_iff s)
      then have e4: "emits ?P w w4" by (rule emits_trans [OF e3])
      obtain n z w5 where 5: "RetireConsumers R (ref_Name ref) (rt_group t) (rt_retireIdle t) (rt_log t) c w4 = ((n, z), w5)"
        by (metis prod.exhaust)
      have e5: "emits ?P w w5"
        by (rule emits_trans [OF e4 emits_mono [OF RetireConsumers_emits [OF 5]]]) (rule retire_cmd_reclaim [OF _ assms(1)])
      have "w' = w3 \<or> w' = w4 \<or> trace w' = trace w5"
        using assms(2) 1 Inr False 3 4 5
        by (auto simp: reclaimOne_def w2_def [symmetric] Let_def retire_after_def split: option.splits)
      with e3 e4 e5 show ?thesis by (auto intro: emits_then_same)
    qed
  qed
qed

lemma reclaim_sources_emits:
  assumes "set refs \<subseteq> set (rt_sources t)" and "reclaim_sources fuel u R t c refs w = Some (r, w')"
  shows "emits (reclaim_cmd t) w w'"
  using assms
proof (induction refs arbitrary: w)
  case (Cons ref refs)
  show ?case
  proof (cases "ref_Kind ref = KindStream")
    case False
    with Cons show ?thesis by simp
  next
    case True
    obtain x w1 where 1: "reclaimOne fuel u R t c ref w = Some (x, w1)"
      using Cons.prems(2) True by (auto split: option.splits)
    have "ref \<in> set (rt_sources t)" using Cons.prems(1) by simp
    note e = reclaimOne_emits [OF this 1]
    show ?thesis
    proof (cases x)
      case None
      with Cons.prems(2) True 1 have "reclaim_sources fuel u R t c refs w1 = Some (r, w')" by simp
      from emits_trans [OF e Cons.IH [OF _ this]] Cons.prems(1) show ?thesis by simp
    qed (use Cons.prems(2) True 1 e in auto)
  qed
qed auto

section \<open>Lines of the report\<close>

definition reported :: "SourceRef \<Rightarrow> bool" where
  "reported ref \<longleftrightarrow> ref_Kind ref = KindStream \<or> ref_Kind ref = KindList"

definition names_source :: "ReportTask \<Rightarrow> logline \<Rightarrow> SourceRef \<Rightarrow> bool" where
  "names_source t l ref \<longleftrightarrow>
     l_level l = LInfo \<and> l_msg l = ''queue report'' \<and>
     take 2 (drop (length (base_attrs (pt_log t))) (l_attrs l)) =
       [(''component'', AStr ''housekeeping''), (''source'', AStr (ref_Name ref))]"

lemma call_logs [simp]: "call x f c w = (r, w') \<Longrightarrow> logs w' = logs w \<and> counters w' = counters w"
  using call_frame by metis

lemma report_one_line:
  assumes "report_one R t c ref w = (None, w')" and "level_num (min_level (pt_log t)) \<le> 0"
  shows "\<exists>ls. logs w' = logs w @ ls \<and> list_all2 (names_source t) ls (filter reported [ref])"
  using assms
  by (auto simp: report_one_def report_stream_def report_list_def ReportStream_def ListDepth_def Client_Pending_def
      reported_def names_source_def log_at_def Let_def split: prod.splits sum.splits if_splits dest!: call_logs)

lemma report_sources_lines:
  assumes "report_sources R t c refs w = (None, w')" and "level_num (min_level (pt_log t)) \<le> 0"
  shows "\<exists>ls. logs w' = logs w @ ls \<and> list_all2 (names_source t) ls (filter reported refs)"
  using assms
proof (induction refs arbitrary: w)
  case (Cons ref refs)
  obtain w1 where 1: "report_one R t c ref w = (None, w1)" and 2: "report_sources R t c refs w1 = (None, w')"
    using Cons.prems(1) by (auto split: prod.splits option.splits)
  from report_one_line [OF 1 Cons.prems(2)] obtain l1 where
    l1: "logs w1 = logs w @ l1" "list_all2 (names_source t) l1 (filter reported [ref])" by blast
  from Cons.IH [OF 2 Cons.prems(2)] obtain l2 where
    l2: "logs w' = logs w1 @ l2" "list_all2 (names_source t) l2 (filter reported refs)" by blast
  have "list_all2 (names_source t) (l1 @ l2) (filter reported [ref] @ filter reported refs)"
    using l1(2) l2(2) by (rule list_all2_appendI)
  then have "list_all2 (names_source t) (l1 @ l2) (filter reported (ref # refs))" by (cases "reported ref") simp_all
  with l1(1) l2(1) show ?case by (intro exI [of _ "l1 @ l2"]) simp
qed auto

section \<open>Sources of housekeeping\<close>

definition kept :: "string list \<Rightarrow> AgentCfg \<Rightarrow> bool" where
  "kept seen a \<longleftrightarrow> a_Source a \<noteq> [] \<and> a_Source a \<notin> set seen \<and> (a_SourceKind a = KindStream \<or> a_SourceKind a = KindList)"

lemma source_refs_from_kept:
  "source_refs_from seen (a # as) =
     (if kept seen a then \<lparr>ref_Name = a_Source a, ref_Kind = a_SourceKind a\<rparr> # source_refs_from (a_Source a # seen) as
      else source_refs_from seen as)"
  by (simp add: kept_def)

lemma source_refs_from_names:
  "ref_Name ` set (source_refs_from seen as) = a_Source ` {a \<in> set as. kept seen a}"
proof (induction as arbitrary: seen)
  case (Cons a as)
  show ?case
  proof (cases "kept seen a")
    case True
    have "insert (a_Source a) (a_Source ` {b \<in> set as. kept (a_Source a # seen) b}) =
        a_Source ` {b \<in> set (a # as). kept seen b}"
      using True by (auto simp: kept_def)
    with True Cons [of "a_Source a # seen"] show ?thesis
      by (simp add: source_refs_from_kept del: source_refs_from.simps)
  next
    case False
    with Cons [of seen] show ?thesis
      by (auto simp add: source_refs_from_kept simp del: source_refs_from.simps)
  qed
qed simp

lemma source_refs_from_distinct: "distinct (map ref_Name (source_refs_from seen as))"
proof (induction seen as rule: source_refs_from.induct)
  case (2 seen a as)
  have "a_Source a \<notin> ref_Name ` set (source_refs_from (a_Source a # seen) as)"
    by (auto simp: source_refs_from_names kept_def)
  with 2 show ?case by simp
qed simp

lemma source_refs_from_kind:
  "ref \<in> set (source_refs_from seen as) \<Longrightarrow>
     \<exists>a \<in> set as. ref = \<lparr>ref_Name = a_Source a, ref_Kind = a_SourceKind a\<rparr> \<and>
       (a_SourceKind a = KindStream \<or> a_SourceKind a = KindList)"
  by (induction seen as rule: source_refs_from.induct) (auto split: if_splits)

section \<open>Properties\<close>

text \<open>C38. The report task is read-only: it issues \<open>XINFO STREAM\<close>, \<open>XPENDING\<close> and \<open>LLEN\<close> and nothing
  else, whatever the server replies; and when it succeeds with the info level enabled, it has written
  exactly one report line for every source with a known kind, in the order of the sources.\<close>

theorem report_is_read_only_and_complete:
  assumes "ReportTask_Run R t c w = (r, w')"
  shows "extends w w' \<and> list_all read_only (issued w w') \<and>
    (r = None \<and> level_num (min_level (pt_log t)) \<le> 0 \<longrightarrow>
       (\<exists>ls. logs w' = logs w @ ls \<and> list_all2 (names_source t) ls (filter reported (pt_sources t))))"
  using report_sources_emits report_sources_lines assms unfolding ReportTask_Run_def emits_def by blast

text \<open>The consumer group a command works on.\<close>

fun cmd_group :: "cmd \<Rightarrow> string option" where
  "cmd_group (XGROUP_CREATE s g i) = Some g"
| "cmd_group (XREADGROUP s i g k n b) = Some g"
| "cmd_group (XACK s g i) = Some g"
| "cmd_group (XINFO_CONSUMERS s g) = Some g"
| "cmd_group (XPENDING s g) = Some g"
| "cmd_group (XAUTOCLAIM s g k d cur n) = Some g"
| "cmd_group (XGROUP_DELCONSUMER s g k) = Some g"
| "cmd_group _ = None"

lemma reclaim_cmd_group: "reclaim_cmd t x \<Longrightarrow> cmd_group x = Some (rt_group t)"
  by (cases "(t, x)" rule: reclaim_cmd.cases) auto

text \<open>C21. The group a reclaim agent works on is the one named after the reclaim agent itself. So no
  command of its pass concerns the group of any other agent: what a stream agent left pending is never
  claimed, and its idle consumers are never retired.\<close>

theorem reclaim_misses_the_agents_groups:
  assumes "ReclaimTask_Run fuel u R (reclaim_task ac cfg lg) c w = Some (r, w')" and "a_ID b \<noteq> a_ID ac"
  shows "list_all (\<lambda>x. cmd_group x = Some (GroupName (ConsumerGrp (c_Redis cfg)) (a_ID ac)) \<and>
      cmd_group x \<noteq> Some (GroupName (ConsumerGrp (c_Redis cfg)) (a_ID b))) (issued w w')"
proof -
  have "list_all (reclaim_cmd (reclaim_task ac cfg lg)) (issued w w')"
    using reclaim_sources_emits [OF order_refl assms(1) [unfolded ReclaimTask_Run_def]] by (simp add: emits_def)
  moreover have "rt_group (reclaim_task ac cfg lg) = GroupName (ConsumerGrp (c_Redis cfg)) (a_ID ac)"
    by (simp add: reclaim_task_def)
  ultimately show ?thesis
    using assms(2) by (auto simp: list_all_iff GroupName_def dest!: reclaim_cmd_group)
qed

text \<open>The sources of housekeeping: every name once, exactly the non-empty source names of the
  configured agents whose kind is a stream or a list, each with the kind some such agent gives it.\<close>

theorem sourceRefs_exact:
  "distinct (map ref_Name (sourceRefs cfg)) \<and>
   ref_Name ` set (sourceRefs cfg) =
     {n. \<exists>a \<in> set (c_Agents cfg). n = a_Source a \<and> n \<noteq> [] \<and> (a_SourceKind a = KindStream \<or> a_SourceKind a = KindList)} \<and>
   set (sourceRefs cfg) \<subseteq>
     (\<lambda>a. \<lparr>ref_Name = a_Source a, ref_Kind = a_SourceKind a\<rparr>) `
       {a \<in> set (c_Agents cfg). a_SourceKind a = KindStream \<or> a_SourceKind a = KindList}"
proof (intro conjI)
  show "distinct (map ref_Name (sourceRefs cfg))"
    unfolding sourceRefs_def by (rule source_refs_from_distinct)
  show "ref_Name ` set (sourceRefs cfg) =
     {n. \<exists>a \<in> set (c_Agents cfg). n = a_Source a \<and> n \<noteq> [] \<and> (a_SourceKind a = KindStream \<or> a_SourceKind a = KindList)}"
    unfolding sourceRefs_def source_refs_from_names by (auto simp: kept_def)
  show "set (sourceRefs cfg) \<subseteq>
     (\<lambda>a. \<lparr>ref_Name = a_Source a, ref_Kind = a_SourceKind a\<rparr>) `
       {a \<in> set (c_Agents cfg). a_SourceKind a = KindStream \<or> a_SourceKind a = KindList}"
    unfolding sourceRefs_def by (blast dest: source_refs_from_kind)
qed

section \<open>What a pass does with the entries it claims\<close>

abbreviation reclaimed_total :: "ReclaimTask \<Rightarrow> SourceRef \<Rightarrow> series" where
  "reclaimed_total t ref \<equiv> (''conflux_entries_reclaimed_total'', [rt_agentID t, ref_Name ref])"

lemma note_reclaimed_counter: "counters (note_reclaimed t ref d w) (reclaimed_total t ref) = counters w (reclaimed_total t ref)"
  by (simp add: note_reclaimed_def Let_def split: option.split)

lemma ack_reclaimed_counts:
  assumes "list_all (acks_in R ref (rt_group t)) ds" and "ack_reclaimed t ref c ds w = (None, w')"
  shows "counters w' (reclaimed_total t ref) = counters w (reclaimed_total t ref) + length ds"
  using assms
proof (induction ds arbitrary: w)
  case (Cons d ds)
  obtain w1 where ack: "Ack d c (note_reclaimed t ref d w) = (None, w1)"
    and more: "ack_reclaimed t ref c ds (counter_Inc ''conflux_entries_reclaimed_total'' [rt_agentID t, ref_Name ref] w1) = (None, w')"
    using Cons.prems(2) by (auto split: prod.splits option.splits)
  have "counters w1 = counters (note_reclaimed t ref d w)"
    using ack Cons.prems(1) call_frame(2) by (fastforce simp: Ack_def acks_in_def xack_def)
  then have "counters w1 (reclaimed_total t ref) = counters w (reclaimed_total t ref)"
    using note_reclaimed_counter [of t ref d w] by simp
  with Cons.IH [OF _ more] Cons.prems(1) show ?case by simp
qed simp

lemma retire_loop_counters: "retire_loop R s g idle lg c k cons w = (r, w') \<Longrightarrow> counters w' = counters w"
proof (induction cons arbitrary: k w)
  case (Cons x cons)
  then show ?case by (auto split: if_splits prod.splits option.splits dest!: call_logs)
qed simp

lemma retire_after_frame:
  assumes "retire_after R t ref c w = (e, w')"
  shows "emits (retire_cmd (ref_Name ref) (rt_group t)) w w' \<and> counters w' = counters w"
proof -
  obtain n x w1 where 1: "RetireConsumers R (ref_Name ref) (rt_group t) (rt_retireIdle t) (rt_log t) c w = ((n, x), w1)"
    by (metis prod.exhaust)
  have "counters w1 = counters w"
    using 1 by (auto simp: RetireConsumers_def split: prod.splits sum.splits dest!: call_logs retire_loop_counters)
  moreover have "trace w' = trace w1 \<and> counters w' = counters w1"
    using assms 1 by (auto simp: retire_after_def split: option.splits)
  ultimately show ?thesis using RetireConsumers_emits [OF 1] emits_then_same by fastforce
qed

text \<open>C20. What happens to the entries a pass has claimed: when the pass over a source succeeds, every
  claimed entry has been acknowledged, in the order of the claims and each exactly once, before the first
  consumer is retired, and the counter of reclaimed entries has grown by their number. Nothing else is
  issued: none of the claimed entries is sent to a destination.\<close>

theorem claimed_entries_are_acknowledged_in_order:
  assumes "Client_Pending R (ref_Name ref) (rt_group t) c w = (Inr st, w1)" and "p_Count st \<noteq> 0"
    and "Reclaim fuel u R ref (rt_group t) (rt_consumer t) (rt_minIdle t) (rt_batch t) c
      (gauge_Set ''conflux_pending_entries'' [rt_agentID t, ref_Name ref] (p_Count st) w1) = Some ((ds, None), w2)"
    and "reclaimOne fuel u R t c ref w = Some (None, w')"
  shows "extends w2 w' \<and>
    (\<exists>rest. issued w2 w' = map (\<lambda>d. XACK (ref_Name ref) (rt_group t) (d_Position d)) ds @ rest \<and>
      list_all (retire_cmd (ref_Name ref) (rt_group t)) rest) \<and>
    counters w' (reclaimed_total t ref) = counters w2 (reclaimed_total t ref) + length ds"
proof -
  have acks: "list_all (acks_in R ref (rt_group t)) ds"
    by (rule Reclaim_from_acks_in [OF assms(3) [unfolded Reclaim_def]]) simp
  obtain x w3 where 3: "ack_reclaimed t ref c ds w2 = (x, w3)" by fastforce
  with assms have "x = None" and 4: "retire_after R t ref c w3 = (None, w')"
    by (auto simp: reclaimOne_def split: option.splits)
  with 3 have 3: "ack_reclaimed t ref c ds w2 = (None, w3)" by simp
  from ack_reclaimed_issued [OF acks 3] have e3: "extends w2 w3"
    "issued w2 w3 = map (\<lambda>d. XACK (ref_Name ref) (rt_group t) (d_Position d)) ds" by auto
  from retire_after_frame [OF 4] have e4: "extends w3 w'" "list_all (retire_cmd (ref_Name ref) (rt_group t)) (issued w3 w')"
    "counters w' = counters w3" by (auto simp: emits_def)
  show ?thesis
    using extends_trans [OF e3(1) e4(1)] e3(2) e4(2,3) ack_reclaimed_counts [OF acks 3] by simp
qed

section \<open>Examples\<close>

definition example_report :: ReportTask where
  "example_report = \<lparr>pt_sources = [\<lparr>ref_Name = ''events'', ref_Kind = KindStream\<rparr>, \<lparr>ref_Name = ''logs'', ref_Kind = KindList\<rparr>],
     pt_group = ''conflux:queue-report'', pt_agentID = ''queue-report'', pt_log = NewLogger ''info''\<rparr>"

lemma example_report_runs:
  "fst (ReportTask_Run quiet_rdb example_report background (start_world 0 (\<lambda>_. 0) ())) = None"
  by (simp add: ReportTask_Run_def example_report_def report_one_def report_stream_def report_list_def ReportStream_def
      ListDepth_def Client_Pending_def call_def quiet_rdb_def still_def Let_def)

theorem report_is_read_only_and_complete_witness:
  "\<exists>w' ls. ReportTask_Run quiet_rdb example_report background (start_world 0 (\<lambda>_. 0) ()) = (None, w') \<and>
     list_all read_only (issued (start_world 0 (\<lambda>_. 0) ()) w') \<and> logs w' = ls \<and>
     list_all2 (names_source example_report) ls (pt_sources example_report)"
proof -
  obtain w' where run: "ReportTask_Run quiet_rdb example_report background (start_world 0 (\<lambda>_. 0) ()) = (None, w')"
    using example_report_runs by (metis prod.collapse)
  have "min_level (NewLogger ''info'') = LInfo" by code_simp
  then have lv: "level_num (min_level (pt_log example_report)) \<le> 0" by (simp add: example_report_def)
  have f: "filter reported (pt_sources example_report) = pt_sources example_report"
    by (simp add: example_report_def reported_def)
  from report_is_read_only_and_complete [OF run] lv f run show ?thesis by (auto simp: start_world_def)
qed

abbreviation example_reclaim_cfg :: AgentCfg where
  "example_reclaim_cfg \<equiv> example_agent_cfg ''pending-reclaim'' ''PENDING_RECLAIM'' ''periodic'' ''reclaim'' KindStream [''none'']"

definition busy_rdb :: "unit rdb" where
  "busy_rdb = quiet_rdb\<lparr>
     x_XPending := (\<lambda>_ _. still (Inr \<lparr>p_Count = 1, p_Consumers = [''gone'' \<mapsto> 1]\<rparr>)),
     x_XAutoClaim := (\<lambda>_ _ _ _ _ _. still (Inr ([\<lparr>m_ID = ''7-0'', m_Values = Map.empty\<rparr>], ''0-0'')))\<rparr>"

theorem reclaim_misses_the_agents_groups_witness:
  "\<exists>r w'. ReclaimTask_Run 1 (\<lambda>_. Inl []) quiet_rdb (reclaim_task example_reclaim_cfg example_config (NewLogger ''info''))
      background (start_world 0 (\<lambda>_. 0) ()) = Some (r, w') \<and>
    list_all (\<lambda>x. cmd_group x = Some ''conflux:pending-reclaim'' \<and> cmd_group x \<noteq> Some ''conflux:events-ltr'')
      (issued (start_world 0 (\<lambda>_. 0) ()) w')"
proof -
  have "\<exists>r w'. ReclaimTask_Run 1 (\<lambda>_. Inl []) quiet_rdb (reclaim_task example_reclaim_cfg example_config (NewLogger ''info''))
      background (start_world 0 (\<lambda>_. 0) ()) = Some (r, w')"
    by (simp add: ReclaimTask_Run_def reclaim_task_def sourceRefs_def example_config_def example_agent_cfg_def reclaimOne_def
        Client_Pending_def call_def quiet_rdb_def still_def Let_def)
  then obtain r w' where run: "ReclaimTask_Run 1 (\<lambda>_. Inl []) quiet_rdb
      (reclaim_task example_reclaim_cfg example_config (NewLogger ''info''))
      background (start_world 0 (\<lambda>_. 0) ()) = Some (r, w')" by blast
  have ne: "a_ID (hd (c_Agents example_config)) \<noteq> a_ID example_reclaim_cfg"
    by (simp add: example_config_def example_agent_cfg_def)
  show ?thesis
    using reclaim_misses_the_agents_groups [OF run ne] run
    by (auto simp: example_config_def example_agent_cfg_def GroupName_def)
qed

theorem claimed_entries_are_acknowledged_in_order_witness:
  "\<exists>w2 w' rest. reclaimOne 1 (\<lambda>_. Inl []) busy_rdb (reclaim_task example_reclaim_cfg example_config (NewLogger ''info''))
      background \<lparr>ref_Name = ''events'', ref_Kind = KindStream\<rparr> (start_world 0 (\<lambda>_. 0) ()) = Some (None, w') \<and>
    issued w2 w' = XACK ''events'' ''conflux:pending-reclaim'' ''7-0'' # rest"
proof -
  let ?t = "reclaim_task example_reclaim_cfg example_config (NewLogger ''info'')" and ?ref = "\<lparr>ref_Name = ''events'', ref_Kind = KindStream\<rparr>"
  let ?w = "start_world 0 (\<lambda>_. 0) ()"
  let ?st = "\<lparr>p_Count = 1, p_Consumers = [''gone'' \<mapsto> 1]\<rparr>"
  let ?d = "reclaimed_delivery (\<lambda>_. Inl []) busy_rdb ?ref (rt_group ?t) \<lparr>m_ID = ''7-0'', m_Values = Map.empty\<rparr>"
  let ?s = "[rt_agentID ?t, ref_Name ?ref]"
  obtain w1 where 1: "Client_Pending busy_rdb (ref_Name ?ref) (rt_group ?t) background ?w = (Inr ?st, w1)"
    by (simp add: Client_Pending_def call_def busy_rdb_def still_def)
  obtain w2 where 2: "Reclaim 1 (\<lambda>_. Inl []) busy_rdb ?ref (rt_group ?t) (rt_consumer ?t) (rt_minIdle ?t) (rt_batch ?t) background
      (gauge_Set ''conflux_pending_entries'' ?s (p_Count ?st) w1) = Some (([?d], None), w2)"
    by (simp add: Reclaim_def call_def busy_rdb_def still_def Let_def)
  have a: "Ack ?d = xack busy_rdb (ref_Name ?ref) (rt_group ?t) (d_Position ?d)"
    by (intro ext) (simp add: Ack_def reclaimed_acks_in [unfolded acks_in_def])
  have x: "x_XAck busy_rdb s g i = still None" "x_XInfoConsumers busy_rdb s g = still (Inr [])" for s g i
    by (simp_all add: busy_rdb_def quiet_rdb_def)
  have "\<exists>w'. reclaimOne 1 (\<lambda>_. Inl []) busy_rdb ?t background ?ref ?w = Some (None, w')"
    using 1 2 by (simp add: reclaimOne_def a retire_after_def RetireConsumers_def xack_def call_def x still_def)
  then obtain w' where run: "reclaimOne 1 (\<lambda>_. Inl []) busy_rdb ?t background ?ref ?w = Some (None, w')" by blast
  have pos: "d_Position ?d = ''7-0''" by (simp add: reclaimed_delivery_def rawData_def NewDelivery_def Let_def)
  have g: "rt_group ?t = ''conflux:pending-reclaim''"
    by (simp add: reclaim_task_def GroupName_def example_config_def example_agent_cfg_def)
  have n: "p_Count ?st \<noteq> 0" by simp
  show ?thesis
    using claimed_entries_are_acknowledged_in_order [OF 1 n 2 run] run pos g by auto
qed

end
