(* ===== verification/Monitor.thy ===== *)
theory Monitor
  imports Anomaly Runner Ingest Config
begin

text \<open>
  The monitor and the operational endpoints (\<open>internal/agent/monitor.go\<close>,
  \<open>internal/observability/http.go\<close>). The monitor samples the lag of every agent on its own
  ticker, feeds the anomaly detector and keeps the latest sample; \<open>/readyz\<close> combines the sample
  with the runner's live statuses. \<open>runner.Health()\<close> is read while the supervisors run, so what
  it returns is an argument of each sample and of each readiness request.
\<close>

section \<open>Samples\<close>

text \<open>What the monitor uses of an agent: \<open>mo_Lag\<close> is \<open>None\<close> for an agent that is no \<open>LagSource\<close>,
  and otherwise its \<open>Lag\<close> and \<open>Kind\<close> methods.\<close>

record 'n Monitored =
  mo_ID :: string
  mo_SourceName :: string
  mo_Lag :: "((ctx \<Rightarrow> 'n world \<Rightarrow> (gerror + LagReading) \<times> 'n world) \<times> string) option"

record AgentHealth =
  ah_ID :: string
  ah_Mode :: string
  ah_Source :: string
  ah_State :: string
  ah_LagEntries :: int
  ah_LagApproximate :: bool
  ah_LastError :: string

definition boolGauge :: "bool \<Rightarrow> int" where
  "boolGauge b = (if b then 1 else 0)"

text \<open>The maps \<open>states\<close> and \<open>errs\<close>: a missing key reads as the empty string.\<close>

definition health_map :: "Health list \<Rightarrow> string \<rightharpoonup> Health" where
  "health_map hs = map_of (rev (map (\<lambda>h. (h_ID h, h)) hs))"

definition state_in :: "Health list \<Rightarrow> string \<Rightarrow> string" where
  "state_in hs i = (case health_map hs i of None \<Rightarrow> [] | Some h \<Rightarrow> h_State h)"

definition err_in :: "Health list \<Rightarrow> string \<Rightarrow> string" where
  "err_in hs i = (case health_map hs i of None \<Rightarrow> [] | Some h \<Rightarrow> h_LastErr h)"

definition initial_health :: "Health list \<Rightarrow> 'n Monitored \<Rightarrow> AgentHealth" where
  "initial_health hs a =
     \<lparr>ah_ID = mo_ID a, ah_Mode = [], ah_Source = mo_SourceName a, ah_State = state_in hs (mo_ID a),
      ah_LagEntries = 0, ah_LagApproximate = False, ah_LastError = err_in hs (mo_ID a)\<rparr>"

definition lag_detail :: "Config \<Rightarrow> 'n Monitored \<Rightarrow> int \<Rightarrow> string" where
  "lag_detail cfg a n =
     ''lag '' @ strconv_Itoa n @ '' entries exceeds threshold '' @
     strconv_Itoa (LagThresholdEntries (c_Anomaly cfg)) @ '' on '' @ mo_SourceName a"

definition trimmed_detail :: "'n Monitored \<Rightarrow> string" where
  "trimmed_detail a = ''entries were trimmed from under the consumer group on '' @ mo_SourceName a"

definition depth_detail :: "Config \<Rightarrow> int \<Rightarrow> string" where
  "depth_detail cfg n =
     ''log list depth '' @ strconv_Itoa n @ '' exceeds drain target '' @
     strconv_Itoa (SummaryMaxDepth (c_House cfg)) @
     ''; the gateway REFUSES log writes at the list cap, so this becomes upstream loss''"

text \<open>The body of the sampling loop after a successful reading.\<close>

definition sample_reading ::
  "Config \<Rightarrow> 'n Monitored \<Rightarrow> string \<Rightarrow> LagReading \<Rightarrow> time \<Rightarrow> 'n Detector \<Rightarrow> 'n world \<Rightarrow> 'n Detector \<times> 'n world" where
  "sample_reading cfg a kind reading now d w =
     (let n = lag_Entries reading;
          (d1, w1) = Detector_Observe d SourceUnavailable (mo_SourceName a) False False [] now w;
          w2 = gauge_Set ''conflux_agent_lag_entries'' [mo_ID a, mo_SourceName a] n w1;
          w3 = gauge_Set ''conflux_agent_lag_approximate'' [mo_ID a, mo_SourceName a]
                 (boolGauge (lag_Approximate reading)) w2;
          (d2, w4) = Detector_Observe d1 LagThreshold (mo_ID a)
                 (n > LagThresholdEntries (c_Anomaly cfg)) True (lag_detail cfg a n) now w3;
          (d3, w5) = Detector_Observe d2 EntriesTrimmed (mo_ID a) (lag_Approximate reading) False
                 (trimmed_detail a) now w4
      in if kind = KindList
         then Detector_Observe d3 LogListDepth (mo_SourceName a) (n > SummaryMaxDepth (c_House cfg)) False
                (depth_detail cfg n) now
                (gauge_Set ''conflux_log_list_depth'' [mo_SourceName a] n w5)
         else (d3, w5))"

definition sample_agent ::
  "Config \<Rightarrow> Health list \<Rightarrow> ctx \<Rightarrow> time \<Rightarrow> 'n Monitored \<Rightarrow> 'n Detector \<Rightarrow> 'n world \<Rightarrow>
   AgentHealth \<times> 'n Detector \<times> 'n world" where
  "sample_agent cfg hs c now a d w =
     (let health = initial_health hs a in
      case mo_Lag a of
        None \<Rightarrow> (health, d, w)
      | Some (lag, kind) \<Rightarrow>
          (case lag (with_timeout c (clock w) (5 * second)) w of
             (Inl err, w1) \<Rightarrow>
               (let (d1, w2) = Detector_Observe d SourceUnavailable (mo_SourceName a) True False
                                 (error_Error err) now w1
                in (health, d1, w2))
           | (Inr reading, w1) \<Rightarrow>
               (let (d1, w2) = sample_reading cfg a kind reading now d w1
                in (health\<lparr>ah_LagEntries := lag_Entries reading,
                           ah_LagApproximate := lag_Approximate reading\<rparr>, d1, w2))))"

fun sample_agents ::
  "Config \<Rightarrow> Health list \<Rightarrow> ctx \<Rightarrow> time \<Rightarrow> 'n Monitored list \<Rightarrow> (string \<rightharpoonup> AgentHealth) \<Rightarrow> 'n Detector \<Rightarrow> 'n world \<Rightarrow>
   (string \<rightharpoonup> AgentHealth) \<times> 'n Detector \<times> 'n world" where
  "sample_agents cfg hs c now [] snap d w = (snap, d, w)"
| "sample_agents cfg hs c now (a # as) snap d w =
     (let (h, d1, w1) = sample_agent cfg hs c now a d w
      in sample_agents cfg hs c now as (snap(mo_ID a \<mapsto> h)) d1 w1)"

definition sample ::
  "Config \<Rightarrow> 'n Monitored list \<Rightarrow> Health list \<Rightarrow> ctx \<Rightarrow> 'n Detector \<Rightarrow> 'n world \<Rightarrow>
   (string \<rightharpoonup> AgentHealth) \<times> 'n Detector \<times> 'n world" where
  "sample cfg as hs c d w = sample_agents cfg hs c (clock w) as Map.empty d w"

text \<open>The monitor's own state and \<open>Run\<close>. \<open>NewTicker\<close> panics for a non-positive interval; the
  ticker keeps one tick, so after a slow sample the loop continues at once and missed ticks are
  dropped. \<open>health\<close> gives what \<open>runner.Health()\<close> returns at the n-th sample; the loop has fuel.\<close>

record 'n Monitor =
  mn_agents :: "'n Monitored list"
  mn_cfg :: Config
  mn_detector :: "'n Detector"
  mn_latest :: "string \<rightharpoonup> AgentHealth"

definition NewMonitor :: "'n Monitored list \<Rightarrow> Config \<Rightarrow> 'n Detector \<Rightarrow> 'n Monitor" where
  "NewMonitor as cfg d = \<lparr>mn_agents = as, mn_cfg = cfg, mn_detector = d, mn_latest = Map.empty\<rparr>"

definition Monitor_sample :: "Health list \<Rightarrow> ctx \<Rightarrow> 'n Monitor \<Rightarrow> 'n world \<Rightarrow> 'n Monitor \<times> 'n world" where
  "Monitor_sample hs c m w =
     (let (snap, d, w1) = sample (mn_cfg m) (mn_agents m) hs c (mn_detector m) w
      in (m\<lparr>mn_detector := d, mn_latest := snap\<rparr>, w1))"

definition following_tick :: "duration \<Rightarrow> time \<Rightarrow> time \<Rightarrow> time" where
  "following_tick d tick now = tick + ((now - tick) div d + 1) * d"

fun monitor_loop ::
  "nat \<Rightarrow> (nat \<Rightarrow> Health list) \<Rightarrow> ctx \<Rightarrow> time \<Rightarrow> 'n Monitor \<Rightarrow> 'n world \<Rightarrow> nat \<Rightarrow> ('n Monitor \<times> 'n world) option" where
  "monitor_loop 0 health c tick m w k = None"
| "monitor_loop (Suc fuel) health c tick m w k =
     (case select_done_after c (tick - clock w) w of
        (True, w1) \<Rightarrow> Some (m, w1)
      | (False, w1) \<Rightarrow>
          (let (m1, w2) = Monitor_sample (health k) c m w1
           in monitor_loop fuel health c (following_tick (CheckInterval (c_Anomaly (mn_cfg m))) tick (clock w1)) m1 w2 (Suc k)))"

definition Monitor_Run ::
  "nat \<Rightarrow> (nat \<Rightarrow> Health list) \<Rightarrow> ctx \<Rightarrow> 'n Monitor \<Rightarrow> 'n world \<Rightarrow> (unit gores \<times> 'n Monitor \<times> 'n world) option" where
  "Monitor_Run fuel health c m w =
     (let (m1, w1) = Monitor_sample (health 0) c m w;
          interval = CheckInterval (c_Anomaly (mn_cfg m))
      in if interval \<le> 0 then Some (Panic ''non-positive interval for NewTicker'', m1, w1)
         else case monitor_loop fuel health c (clock w1 + interval) m1 w1 1 of
           None \<Rightarrow> None
         | Some (m2, w2) \<Rightarrow> Some (Ret (), m2, w2))"

text \<open>\<open>AgentHealth\<close> iterates over the latest sample in some order of the map.\<close>

definition with_live :: "Health list \<Rightarrow> string \<Rightarrow> AgentHealth \<Rightarrow> AgentHealth" where
  "with_live live i h =
     (case health_map live i of
        None \<Rightarrow> h
      | Some cur \<Rightarrow> h\<lparr>ah_State := h_State cur, ah_LastError := h_LastErr cur\<rparr>)"

definition Monitor_AgentHealth :: "string list \<Rightarrow> Health list \<Rightarrow> 'n Monitor \<Rightarrow> AgentHealth list" where
  "Monitor_AgentHealth ids live m =
     concat (map (\<lambda>i. case mn_latest m i of None \<Rightarrow> [] | Some h \<Rightarrow> [with_live live i h]) ids)"

section \<open>Operational endpoints\<close>

record probe =
  pr_Status :: string
  pr_Redis :: string
  pr_Agents :: "AgentHealth list"
  pr_Reason :: string

text \<open>A response: status code, content type and body; the body of \<open>/readyz\<close> is the value that is
  encoded as JSON.\<close>

record 'b response =
  rs_code :: int
  rs_type :: string
  rs_body :: 'b

definition livez :: "string response" where
  "livez = \<lparr>rs_code = 200, rs_type = ''text/plain'', rs_body = ''ok''\<rparr>"

text \<open>The switch on one agent; \<open>None\<close> when no case applies.\<close>

definition agent_reason :: "Config \<Rightarrow> AgentHealth \<Rightarrow> string option" where
  "agent_reason cfg a =
     (if ah_State a = ''degraded'' then Some (''agent '' @ ah_ID a @ '' is degraded: '' @ ah_LastError a)
      else if ah_LagApproximate a
      then Some (''agent '' @ ah_ID a @ '' lag is approximate on '' @ ah_Source a @
                 '': entries were trimmed from under the consumer group'')
      else if ah_LagEntries a > LagThresholdEntries (c_Anomaly cfg)
      then Some (''agent '' @ ah_ID a @ '' is behind on '' @ ah_Source a)
      else None)"

text \<open>The loop over the agents, which stops at the first non-empty reason.\<close>

fun readyz_reason :: "Config \<Rightarrow> string \<Rightarrow> AgentHealth list \<Rightarrow> string" where
  "readyz_reason cfg degraded [] = degraded"
| "readyz_reason cfg degraded (a # as) =
     (let r = (case agent_reason cfg a of None \<Rightarrow> degraded | Some s \<Rightarrow> s)
      in if r \<noteq> [] then r else readyz_reason cfg r as)"

definition readyz_response :: "Config \<Rightarrow> gerror option \<Rightarrow> AgentHealth list \<Rightarrow> probe response" where
  "readyz_response cfg ping as =
     (let degraded = readyz_reason cfg
            (case ping of None \<Rightarrow> [] | Some e \<Rightarrow> ''redis unreachable: '' @ error_Error e) as;
          redis = (case ping of None \<Rightarrow> ''ok'' | Some _ \<Rightarrow> ''unreachable'')
      in if degraded \<noteq> []
         then \<lparr>rs_code = 503, rs_type = ''application/json'',
               rs_body = \<lparr>pr_Status = ''degraded'', pr_Redis = redis, pr_Agents = as, pr_Reason = degraded\<rparr>\<rparr>
         else \<lparr>rs_code = 200, rs_type = ''application/json'',
               rs_body = \<lparr>pr_Status = ''ready'', pr_Redis = redis, pr_Agents = as, pr_Reason = []\<rparr>\<rparr>)"

definition readyz ::
  "Config \<Rightarrow> (ctx \<Rightarrow> 'n world \<Rightarrow> gerror option \<times> 'n world) \<Rightarrow> AgentHealth list \<Rightarrow> ctx \<Rightarrow> 'n world \<Rightarrow>
   probe response \<times> 'n world" where
  "readyz cfg ping as c w =
     (case ping (with_timeout c (clock w) (3 * second)) w of (e, w1) \<Rightarrow> (readyz_response cfg e as, w1))"

section \<open>One observation\<close>

lemma Detector_Observe_one:
  "Detector_Observe d t s b su dt now w =
     observe_one (d, w) \<lparr>ob_type = t, ob_scope = s, ob_breached = b, ob_sustain = su, ob_detail = dt, ob_now = now\<rparr>"
  by (simp add: observe_one_def)

lemma Detector_Observe_config [simp]:
  "sustainFor (fst (Detector_Observe d t s b su dt now w)) = sustainFor d"
  "det_notifier (fst (Detector_Observe d t s b su dt now w)) = det_notifier d"
  by (simp_all add: Detector_Observe_one)

lemma Detector_Observe_other:
  "t \<noteq> t' \<or> s \<noteq> s' \<Longrightarrow> state_of (fst (Detector_Observe d t s b su dt now w)) t' s' = state_of d t' s'"
  by (auto simp: Detector_Observe_one state_of_observe_one about_def)

lemma Detector_Observe_follows:
  fixes x :: observation and t :: AnomalyType and s dt :: string and b :: bool and now :: time
  defines "x \<equiv> \<lparr>ob_type = t, ob_scope = s, ob_breached = b, ob_sustain = True, ob_detail = dt, ob_now = now\<rparr>"
  assumes "follows (sustainFor d) xs (state_of d t s)"
    and "list_all (\<lambda>y. zero_time < ob_now y \<and> ob_now y \<le> now) xs" and "zero_time < now"
  shows "follows (sustainFor d) (xs @ [x]) (state_of (fst (Detector_Observe d t s b True dt now w)) t s)"
proof -
  have "about t s x" "ob_sustain x" "list_all (\<lambda>y. zero_time < ob_now y \<and> ob_now y \<le> ob_now x) (xs @ [x])"
    using assms(3,4) by (simp_all add: x_def about_def)
  with observe_state_follows [OF assms(2) state_or_new_eq [of t s x d]] show ?thesis
    by (simp add: Detector_Observe_one x_def [symmetric] state_of_observe_one)
qed

section \<open>The lag anomaly over samples\<close>

text \<open>What a sample observes of the lag of an agent.\<close>

definition lag_observation :: "Config \<Rightarrow> 'n Monitored \<Rightarrow> LagReading \<Rightarrow> time \<Rightarrow> observation" where
  "lag_observation cfg a r now =
     \<lparr>ob_type = LagThreshold, ob_scope = mo_ID a, ob_breached = lag_Entries r > LagThresholdEntries (c_Anomaly cfg),
      ob_sustain = True, ob_detail = lag_detail cfg a (lag_Entries r), ob_now = now\<rparr>"

definition lag_observed :: "Config \<Rightarrow> 'n Monitored \<Rightarrow> ctx \<Rightarrow> time \<Rightarrow> 'n world \<Rightarrow> observation list" where
  "lag_observed cfg a c now w =
     (case mo_Lag a of
        None \<Rightarrow> []
      | Some (lag, kind) \<Rightarrow>
          (case fst (lag (with_timeout c (clock w) (5 * second)) w) of
             Inl _ \<Rightarrow> []
           | Inr r \<Rightarrow> [lag_observation cfg a r now]))"

lemma sample_reading_config [simp]:
  "sustainFor (fst (sample_reading cfg a kind r now d w)) = sustainFor d"
  "det_notifier (fst (sample_reading cfg a kind r now d w)) = det_notifier d"
  by (simp_all add: sample_reading_def Let_def case_prod_unfold)

lemma sample_agent_config [simp]:
  "sustainFor (fst (snd (sample_agent cfg hs c now a d w))) = sustainFor d"
  "det_notifier (fst (snd (sample_agent cfg hs c now a d w))) = det_notifier d"
  by (simp_all add: sample_agent_def Let_def case_prod_unfold split: option.split sum.split)

lemma sample_agents_config [simp]:
  "sustainFor (fst (snd (sample_agents cfg hs c now as snap d w))) = sustainFor d"
  "det_notifier (fst (snd (sample_agents cfg hs c now as snap d w))) = det_notifier d"
  by (induction as arbitrary: snap d w) (simp_all add: Let_def case_prod_unfold)

lemma sample_reading_other:
  "i \<noteq> mo_ID a \<Longrightarrow> state_of (fst (sample_reading cfg a kind r now d w)) LagThreshold i = state_of d LagThreshold i"
  by (simp add: sample_reading_def Let_def case_prod_unfold Detector_Observe_other)

lemma sample_agent_other:
  "i \<noteq> mo_ID a \<Longrightarrow> state_of (fst (snd (sample_agent cfg hs c now a d w))) LagThreshold i = state_of d LagThreshold i"
  by (simp add: sample_agent_def Let_def case_prod_unfold Detector_Observe_other sample_reading_other
      split: option.split sum.split)

lemma sample_agents_other:
  "i \<notin> mo_ID ` set as \<Longrightarrow>
     state_of (fst (snd (sample_agents cfg hs c now as snap d w))) LagThreshold i = state_of d LagThreshold i"
  by (induction as arbitrary: snap d w) (simp_all add: Let_def case_prod_unfold sample_agent_other)

lemma sample_reading_follows:
  assumes "follows (sustainFor d) xs (state_of d LagThreshold (mo_ID a))"
    and "list_all (\<lambda>y. zero_time < ob_now y \<and> ob_now y \<le> now) xs" and "zero_time < now"
  shows "follows (sustainFor d) (xs @ [lag_observation cfg a r now])
    (state_of (fst (sample_reading cfg a kind r now d w)) LagThreshold (mo_ID a))"
proof -
  let ?d1 = "fst (Detector_Observe d SourceUnavailable (mo_SourceName a) False False [] now w)"
  have "follows (sustainFor ?d1) xs (state_of ?d1 LagThreshold (mo_ID a))"
    using assms(1) by (simp add: Detector_Observe_other)
  from Detector_Observe_follows [OF this assms(2,3)] show ?thesis
    by (simp add: sample_reading_def Let_def case_prod_unfold Detector_Observe_other lag_observation_def)
qed

lemma sample_agent_follows:
  assumes "follows (sustainFor d) xs (state_of d LagThreshold (mo_ID a))"
    and "list_all (\<lambda>y. zero_time < ob_now y \<and> ob_now y \<le> now) xs" and "zero_time < now"
  shows "follows (sustainFor d) (xs @ lag_observed cfg a c now w)
    (state_of (fst (snd (sample_agent cfg hs c now a d w))) LagThreshold (mo_ID a))"
proof (cases "mo_Lag a")
  case (Some lk)
  then obtain lag kind where lk: "mo_Lag a = Some (lag, kind)" by (cases lk) simp
  obtain r w1 where l: "lag (with_timeout c (clock w) (5 * second)) w = (r, w1)" by fastforce
  show ?thesis
  proof (cases r)
    case (Inl e)
    with lk l assms(1) show ?thesis
      by (simp add: sample_agent_def lag_observed_def Let_def case_prod_unfold Detector_Observe_other)
  next
    case (Inr rd)
    with lk l sample_reading_follows [OF assms] show ?thesis
      by (simp add: sample_agent_def lag_observed_def Let_def case_prod_unfold)
  qed
qed (use assms(1) in \<open>simp add: sample_agent_def lag_observed_def\<close>)

text \<open>A sequence of samples, each from the world the process is in when it starts; and what these
  samples read of one agent's lag.\<close>

fun samples :: "Config \<Rightarrow> 'n Monitored list \<Rightarrow> (Health list \<times> ctx \<times> 'n world) list \<Rightarrow> 'n Detector \<Rightarrow> 'n Detector" where
  "samples cfg as [] d = d"
| "samples cfg as ((hs, c, w) # xs) d = samples cfg as xs (fst (snd (sample cfg as hs c d w)))"

fun lag_history ::
  "Config \<Rightarrow> 'n Monitored list \<Rightarrow> 'n Monitored \<Rightarrow> 'n Monitored list \<Rightarrow> (Health list \<times> ctx \<times> 'n world) list \<Rightarrow>
   'n Detector \<Rightarrow> observation list" where
  "lag_history cfg as a bs [] d = []"
| "lag_history cfg as a bs ((hs, c, w) # xs) d =
     lag_observed cfg a c (clock w) (snd (snd (sample_agents cfg hs c (clock w) as Map.empty d w))) @
     lag_history cfg as a bs xs (fst (snd (sample cfg (as @ a # bs) hs c d w)))"

definition sampled_in_time :: "(Health list \<times> ctx \<times> 'n world) list \<Rightarrow> bool" where
  "sampled_in_time xs \<longleftrightarrow> sorted (map (\<lambda>(_, _, w). clock w) xs) \<and> list_all (\<lambda>(_, _, w). zero_time < clock w) xs"

lemma sample_agents_append:
  "sample_agents cfg hs c now (as @ bs) snap d w =
     (case sample_agents cfg hs c now as snap d w of (snap1, d1, w1) \<Rightarrow> sample_agents cfg hs c now bs snap1 d1 w1)"
  by (induction as arbitrary: snap d w) (simp_all add: Let_def case_prod_unfold)

lemma sample_config [simp]: "sustainFor (fst (snd (sample cfg as hs c d w))) = sustainFor d"
  by (simp add: sample_def)

lemma sample_follows:
  assumes "mo_ID a \<notin> mo_ID ` set (as @ bs)"
    and "follows (sustainFor d) xs (state_of d LagThreshold (mo_ID a))"
    and "list_all (\<lambda>y. zero_time < ob_now y \<and> ob_now y \<le> clock w) xs" and "zero_time < clock w"
  shows "follows (sustainFor d) (xs @ lag_observed cfg a c (clock w) (snd (snd (sample_agents cfg hs c (clock w) as Map.empty d w))))
    (state_of (fst (snd (sample cfg (as @ a # bs) hs c d w))) LagThreshold (mo_ID a))"
proof -
  obtain snap1 d1 w1 where 1: "sample_agents cfg hs c (clock w) as Map.empty d w = (snap1, d1, w1)"
    by (metis prod_cases3)
  have d1: "sustainFor d1 = sustainFor d" "state_of d1 LagThreshold (mo_ID a) = state_of d LagThreshold (mo_ID a)"
    using sample_agents_config(1) [of cfg hs c "clock w" as Map.empty d w]
      sample_agents_other [of "mo_ID a" as cfg hs c "clock w" Map.empty d w] assms(1) 1 by auto
  from sample_agent_follows [of d1 xs a "clock w" cfg c w1 hs] assms(2-4) d1
  have "follows (sustainFor d) (xs @ lag_observed cfg a c (clock w) w1)
      (state_of (fst (snd (sample_agent cfg hs c (clock w) a d1 w1))) LagThreshold (mo_ID a))" by simp
  moreover have "mo_ID a \<notin> mo_ID ` set bs" using assms(1) by auto
  ultimately show ?thesis
    by (simp add: sample_def sample_agents_append 1 Let_def case_prod_unfold sample_agents_other)
qed

lemma lag_observed_now: "y \<in> set (lag_observed cfg a c now w) \<Longrightarrow> ob_now y = now"
  by (auto simp: lag_observed_def lag_observation_def split: option.splits sum.splits)

lemma samples_follow:
  assumes "mo_ID a \<notin> mo_ID ` set (as @ bs)" and "sampled_in_time xs"
    and "follows (sustainFor d) ys (state_of d LagThreshold (mo_ID a))"
    and "list_all (\<lambda>y. zero_time < ob_now y \<and> list_all (\<lambda>(_, _, w). ob_now y \<le> clock w) xs) ys"
  shows "follows (sustainFor d) (ys @ lag_history cfg as a bs xs d) (state_of (samples cfg (as @ a # bs) xs d) LagThreshold (mo_ID a))"
  using assms(2-4)
proof (induction xs arbitrary: d ys)
  case (Cons x xs)
  obtain hs c w where x: "x = (hs, c, w)" by (metis prod_cases3)
  let ?o = "lag_observed cfg a c (clock w) (snd (snd (sample_agents cfg hs c (clock w) as Map.empty d w)))"
  let ?d = "fst (snd (sample cfg (as @ a # bs) hs c d w))"
  have t: "list_all (\<lambda>y. zero_time < ob_now y \<and> ob_now y \<le> clock w) ys" "zero_time < clock w" "sampled_in_time xs"
    using Cons.prems by (auto simp: x list_all_iff sampled_in_time_def)
  have "follows (sustainFor ?d) (ys @ ?o) (state_of ?d LagThreshold (mo_ID a))"
    using sample_follows [OF assms(1) Cons.prems(2) t(1,2)] by simp
  moreover have "list_all (\<lambda>y. zero_time < ob_now y \<and> list_all (\<lambda>(_, _, w). ob_now y \<le> clock w) xs) (ys @ ?o)"
    using Cons.prems(1,3) t(2) by (auto simp: x list_all_iff sampled_in_time_def dest!: lag_observed_now)
  ultimately have "follows (sustainFor ?d) ((ys @ ?o) @ lag_history cfg as a bs xs ?d)
      (state_of (samples cfg (as @ a # bs) xs ?d) LagThreshold (mo_ID a))"
    by (rule Cons.IH [OF t(3)])
  then show ?case by (simp add: x)
qed simp

section \<open>What a sample reports\<close>

text \<open>An agent whose \<open>Lag\<close> gives the same reply whenever it is asked; \<open>None\<close> for an agent without one.\<close>

definition lag_replies :: "'n Monitored \<Rightarrow> (gerror + LagReading) option \<Rightarrow> bool" where
  "lag_replies a q \<longleftrightarrow>
     (case mo_Lag a of
        None \<Rightarrow> q = None
      | Some (lag, kind) \<Rightarrow> (case q of None \<Rightarrow> False | Some r \<Rightarrow> (\<forall>c w. fst (lag c w) = r)))"

definition reported_health :: "Health list \<Rightarrow> 'n Monitored \<Rightarrow> (gerror + LagReading) option \<Rightarrow> AgentHealth" where
  "reported_health hs a q =
     (case q of
        Some (Inr r) \<Rightarrow> (initial_health hs a)\<lparr>ah_LagEntries := lag_Entries r, ah_LagApproximate := lag_Approximate r\<rparr>
      | _ \<Rightarrow> initial_health hs a)"

lemma sample_agent_health:
  "lag_replies a q \<Longrightarrow> fst (sample_agent cfg hs c now a d w) = reported_health hs a q"
  by (cases "mo_Lag a"; cases q)
     (auto simp: lag_replies_def sample_agent_def reported_health_def Let_def case_prod_unfold split: sum.split)

lemma sample_agents_snapshot:
  assumes "list_all (\<lambda>a. lag_replies a (q a)) as" and "distinct (map mo_ID as)"
  shows "fst (sample_agents cfg hs c now as snap d w) =
    snap ++ map_of (map (\<lambda>a. (mo_ID a, reported_health hs a (q a))) as)"
  using assms
proof (induction as arbitrary: snap d w)
  case (Cons a as)
  have "map_of (map (\<lambda>a. (mo_ID a, reported_health hs a (q a))) as) (mo_ID a) = None"
    using Cons.prems(2) by (auto simp: map_of_eq_None_iff)
  with Cons show ?case
    by (simp add: Let_def case_prod_unfold sample_agent_health fun_eq_iff map_add_def split: option.split)
qed simp

section \<open>Readiness\<close>

definition keeping_up :: "Config \<Rightarrow> AgentHealth \<Rightarrow> bool" where
  "keeping_up cfg a \<longleftrightarrow>
     ah_State a \<noteq> ''degraded'' \<and> \<not> ah_LagApproximate a \<and> ah_LagEntries a \<le> LagThresholdEntries (c_Anomaly cfg)"

lemma agent_reason_None: "agent_reason cfg a = None \<longleftrightarrow> keeping_up cfg a"
  by (auto simp: agent_reason_def keeping_up_def)

lemma agent_reason_nonempty: "agent_reason cfg a = Some r \<Longrightarrow> r \<noteq> []"
  by (auto simp: agent_reason_def split: if_splits)

lemma readyz_reason_empty: "readyz_reason cfg g as = [] \<longleftrightarrow> g = [] \<and> list_all (keeping_up cfg) as"
  by (induction cfg g as rule: readyz_reason.induct)
     (auto simp: Let_def agent_reason_None [symmetric] dest: agent_reason_nonempty split: option.splits)

lemma readyz_reason_names:
  "readyz_reason cfg [] as = (case find (\<lambda>a. \<not> keeping_up cfg a) as of None \<Rightarrow> [] | Some a \<Rightarrow> the (agent_reason cfg a))"
proof (induction as)
  case (Cons a as)
  then show ?case
    using agent_reason_None [of cfg a] agent_reason_nonempty [of cfg a]
    by (cases "agent_reason cfg a") (auto simp: Let_def)
qed simp

lemma readyz_code:
  "rs_code (readyz_response cfg ping as) = (if ping = None \<and> list_all (keeping_up cfg) as then 200 else 503)"
  by (auto simp: readyz_response_def Let_def readyz_reason_empty split: option.splits)

lemma AgentHealth_list:
  "mn_latest m = map_of (map (\<lambda>a. (mo_ID a, h a)) as) \<Longrightarrow> distinct (map mo_ID as) \<Longrightarrow> set ids = mo_ID ` set as \<Longrightarrow>
     set (Monitor_AgentHealth ids live m) = (\<lambda>a. with_live live (mo_ID a) (h a)) ` set as"
proof -
  assume a: "mn_latest m = map_of (map (\<lambda>a. (mo_ID a, h a)) as)" "distinct (map mo_ID as)" "set ids = mo_ID ` set as"
  have "mn_latest m (mo_ID x) = Some (h x)" if "x \<in> set as" for x
    using a(1,2) that by (auto simp: o_def intro!: map_of_is_SomeI)
  then show ?thesis using a(3) by (auto simp: Monitor_AgentHealth_def)
qed

section \<open>Properties of the monitor and the probes\<close>

text \<open>C10. The lag anomaly follows the lag: after any sequence of samples in the order of the clock, over
  any agents, worlds and health reports, support's lag anomaly of an agent is active exactly when the
  readings of that agent have exceeded the threshold, without a reading at or below it in between, for at
  least the sustain window. Samples whose reading fails neither start, break nor extend a breach.\<close>

theorem lag_anomaly_iff_sustained_lag:
  assumes "mo_ID a \<notin> mo_ID ` set (as @ bs)" and "sampled_in_time xs"
  shows "let d = NewDetector cool mx sus n lg in
    is_active (samples cfg (as @ a # bs) xs d) LagThreshold (mo_ID a) \<longleftrightarrow>
    sustained sus (lag_history cfg as a bs xs d)"
proof -
  let ?d = "NewDetector cool mx sus n lg"
  have "follows (sustainFor ?d) [] (state_of ?d LagThreshold (mo_ID a))" "sustainFor ?d = sus"
    by (simp_all add: NewDetector_def follows_def state_of_def)
  with samples_follow [OF assms, of ?d "[]" cfg] show ?thesis
    by (auto simp: Let_def follows_def is_active_def sustained_def breach_start_def split: option.splits)
qed

text \<open>Readiness, exactly: the response is 200 if and only if the ping succeeded and every agent is
  keeping up (not degraded, no approximate lag, lag at most the threshold), and otherwise 503 with the
  reason; all agents are listed in both cases. With a reachable queue the reason is that of the first
  agent that is not keeping up. The body says which of queue and agents failed.\<close>

theorem readyz_exact:
  "let r = readyz_response cfg ping as; b = rs_body r in
   rs_code r = (if ping = None \<and> list_all (keeping_up cfg) as then 200 else 503) \<and>
   pr_Agents b = as \<and>
   (pr_Redis b = ''ok'' \<longleftrightarrow> ping = None) \<and>
   (pr_Status b = ''ready'' \<longleftrightarrow> rs_code r = 200) \<and>
   (pr_Reason b = [] \<longleftrightarrow> rs_code r = 200) \<and>
   (if ping = None then pr_Reason b = (case find (\<lambda>a. \<not> keeping_up cfg a) as of None \<Rightarrow> [] | Some a \<Rightarrow> the (agent_reason cfg a))
    else True)"
proof (cases ping)
  case None
  then show ?thesis
    using readyz_reason_empty [of cfg "[]" as] readyz_reason_names [of cfg as]
    by (auto simp: Let_def readyz_code readyz_response_def)
next
  case (Some e)
  then show ?thesis
    using readyz_reason_empty [of cfg "''redis unreachable: '' @ error_Error e" as]
    by (auto simp: Let_def readyz_code readyz_response_def)
qed

text \<open>C19. Composition of monitor, runner and probe: after a sample over agents whose \<open>Lag\<close> replies are
  known, and with any later statuses from the runner, \<open>/readyz\<close> answers 200 if and only if the queue
  answers the ping, no agent's live state is degraded, and every reading taken was exact and at most
  the threshold. An agent whose reading failed counts as having no lag.\<close>

theorem ready_iff_sampled_lag_and_live_state:
  assumes "list_all (\<lambda>a. lag_replies a (q a)) (mn_agents m)" and "distinct (map mo_ID (mn_agents m))"
    and "set ids = mo_ID ` set (mn_agents m)" and "mo_ID ` set (mn_agents m) \<subseteq> dom (health_map live)"
    and "Monitor_sample hs c m w = (m', w')"
  shows "rs_code (readyz_response (mn_cfg m) ping (Monitor_AgentHealth ids live m')) = 200 \<longleftrightarrow>
    ping = None \<and>
    (\<forall>a \<in> set (mn_agents m). state_in live (mo_ID a) \<noteq> ''degraded'' \<and>
      (case q a of
         Some (Inr r) \<Rightarrow> \<not> lag_Approximate r \<and> lag_Entries r \<le> LagThresholdEntries (c_Anomaly (mn_cfg m))
       | _ \<Rightarrow> 0 \<le> LagThresholdEntries (c_Anomaly (mn_cfg m))))"
proof -
  have "mn_latest m' = map_of (map (\<lambda>a. (mo_ID a, reported_health hs a (q a))) (mn_agents m))"
    using assms(5) sample_agents_snapshot [OF assms(1,2), of "mn_cfg m" hs c "clock w" Map.empty "mn_detector m" w]
    by (auto simp: Monitor_sample_def sample_def Let_def case_prod_unfold)
  from AgentHealth_list [OF this assms(2,3), of live]
  have s: "set (Monitor_AgentHealth ids live m') =
      (\<lambda>a. with_live live (mo_ID a) (reported_health hs a (q a))) ` set (mn_agents m)" .
  have "keeping_up (mn_cfg m) (with_live live (mo_ID a) (reported_health hs a (q a))) \<longleftrightarrow>
      state_in live (mo_ID a) \<noteq> ''degraded'' \<and>
      (case q a of
         Some (Inr r) \<Rightarrow> \<not> lag_Approximate r \<and> lag_Entries r \<le> LagThresholdEntries (c_Anomaly (mn_cfg m))
       | _ \<Rightarrow> 0 \<le> LagThresholdEntries (c_Anomaly (mn_cfg m)))" if "a \<in> set (mn_agents m)" for a
  proof -
    obtain h where "health_map live (mo_ID a) = Some h" using assms(4) \<open>a \<in> set (mn_agents m)\<close> by blast
    then show ?thesis
      by (auto simp: keeping_up_def with_live_def state_in_def reported_health_def initial_health_def
          split: option.split sum.split)
  qed
  then show ?thesis by (auto simp: readyz_code list_all_iff s)
qed

section \<open>Examples\<close>

definition lagging :: "string \<Rightarrow> gerror + LagReading \<Rightarrow> unit Monitored" where
  "lagging i q = \<lparr>mo_ID = i, mo_SourceName = ''events'', mo_Lag = Some (\<lambda>c w. (q, w), KindStream)\<rparr>"

abbreviation behind :: "gerror + LagReading" where
  "behind \<equiv> Inr \<lparr>lag_Entries = 11, lag_Approximate = False\<rparr>"

definition at_time :: "time \<Rightarrow> Health list \<times> ctx \<times> unit world" where
  "at_time t = ([], background, start_world t (\<lambda>_. 0) ())"

theorem lag_anomaly_iff_sustained_lag_witness:
  "is_active (samples example_config [lagging ''a'' behind] [at_time 1, at_time (1 + 6 * minute)]
     (NewDetector minute 4 (5 * minute) None (NewLogger []))) LagThreshold ''a'' \<and>
   \<not> is_active (samples example_config [lagging ''a'' behind] [at_time 1, at_time (1 + 4 * minute)]
     (NewDetector minute 4 (5 * minute) None (NewLogger []))) LagThreshold ''a''"
proof -
  let ?d = "NewDetector minute 4 (5 * minute) None (NewLogger []) :: unit Detector" and ?a = "lagging ''a'' behind"
  have i: "mo_ID ?a = ''a''" by (simp add: lagging_def)
  have t: "sampled_in_time [at_time 1, at_time t]" if "1 \<le> t" for t
    using that by (simp add: sampled_in_time_def at_time_def start_world_def zero_time_def)
  have h: "lag_history example_config [] ?a [] [at_time 1, at_time t] ?d =
      [lag_observation example_config ?a \<lparr>lag_Entries = 11, lag_Approximate = False\<rparr> 1,
       lag_observation example_config ?a \<lparr>lag_Entries = 11, lag_Approximate = False\<rparr> t]" for t
    by (simp add: at_time_def lag_observed_def lagging_def start_world_def)
  have s: "sustained (5 * minute) (lag_history example_config [] ?a [] [at_time 1, at_time t] ?d) \<longleftrightarrow>
      5 * minute \<le> time_Sub t 1" for t
    unfolding h by (simp add: sustained_def breach_start_def extend_breach_def lag_observation_def example_config_def)
  have iff: "is_active (samples example_config [?a] [at_time 1, at_time t] ?d) LagThreshold ''a'' \<longleftrightarrow>
      5 * minute \<le> time_Sub t 1" if "1 \<le> t" for t
    using lag_anomaly_iff_sustained_lag [of ?a "[]" "[]", OF _ t [OF that], of minute 4 "5 * minute" None "NewLogger []" example_config] s i
    by (simp add: Let_def)
  have "5 * minute \<le> time_Sub (1 + 6 * minute) 1" "\<not> 5 * minute \<le> time_Sub (1 + 4 * minute) 1"
    by (simp_all add: time_Sub_def minInt64_def maxInt64_def)
  with iff [of "1 + 6 * minute"] iff [of "1 + 4 * minute"] show ?thesis by simp
qed

definition example_monitor :: "gerror + LagReading \<Rightarrow> unit Monitor" where
  "example_monitor q = NewMonitor [lagging ''a'' q] example_config (NewDetector minute 4 (5 * minute) None (NewLogger []))"

theorem ready_iff_sampled_lag_and_live_state_witness:
  "let live = [\<lparr>h_ID = ''a'', h_State = ''running'', h_LastErr = [], h_Panics = 0, h_Restarts = 0\<rparr>];
       code = (\<lambda>q. rs_code (readyz_response example_config None
         (Monitor_AgentHealth [''a''] live (fst (Monitor_sample live background (example_monitor q) (start_world 1 (\<lambda>_. 0) ()))))))
   in code behind \<noteq> 200 \<and> code (Inl RedisNil) = 200"
proof -
  let ?live = "[\<lparr>h_ID = ''a'', h_State = ''running'', h_LastErr = [], h_Panics = 0, h_Restarts = 0\<rparr>]"
  let ?w = "start_world 1 (\<lambda>_. 0) () :: unit world"
  have m: "mn_agents (example_monitor q) = [lagging ''a'' q]" "mn_cfg (example_monitor q) = example_config" for q
    by (simp_all add: example_monitor_def NewMonitor_def)
  have a: "list_all (\<lambda>a. lag_replies a (Some q)) (mn_agents (example_monitor q))"
    "distinct (map mo_ID (mn_agents (example_monitor q)))" "set [''a''] = mo_ID ` set (mn_agents (example_monitor q))"
    "mo_ID ` set (mn_agents (example_monitor q)) \<subseteq> dom (health_map ?live)"
    "Monitor_sample ?live background (example_monitor q) ?w =
      (fst (Monitor_sample ?live background (example_monitor q) ?w), snd (Monitor_sample ?live background (example_monitor q) ?w))" for q
    by (simp_all add: m lagging_def lag_replies_def health_map_def)
  note r = ready_iff_sampled_lag_and_live_state [OF a(1) a(2) a(3) a(4) a(5), of _ None, unfolded m]
  have st: "state_in ?live ''a'' = ''running''" "mo_ID (lagging ''a'' q) = ''a''" "LagThresholdEntries (c_Anomaly example_config) = 10" for q
    by (simp_all add: state_in_def health_map_def lagging_def example_config_def)
  show ?thesis using r [of behind] r [of "Inl RedisNil"] by (simp add: Let_def st)
qed

section \<open>Two agents on one source\<close>

definition only_reads :: "'n Monitored \<Rightarrow> bool" where
  "only_reads a \<longleftrightarrow> (case mo_Lag a of None \<Rightarrow> True | Some (lag, _) \<Rightarrow> (\<forall>c w. extends w (snd (lag c w))))"

lemma Observe_extends:
  assumes "det_notifier d = Some (Notify N mcfg lg)"
  shows "extends w (snd (Detector_Observe d t s b su dt now w))"
  unfolding Detector_Observe_one using email.observe_state_extends [OF assms] by (simp add: observe_one_eq)

lemma extends_gauge: "extends v w \<Longrightarrow> extends v (gauge_Set m ls x w)"
  by (erule extends_trans(1)) (simp add: same_trace)

lemma sample_reading_extends:
  assumes "det_notifier d = Some (Notify N mcfg lg)"
    and w1_def: "w1 = snd (Detector_Observe d SourceUnavailable (mo_SourceName a) False False [] now w)"
  shows "extends w1 (snd (sample_reading cfg a kind r now d w))"
proof -
  have o: "extends w1 (snd (Detector_Observe d' t s b su dt now v))"
    if "extends w1 v" "det_notifier d' = Some (Notify N mcfg lg)" for d' t s b su dt v
    by (rule extends_trans(1) [OF that(1) Observe_extends [OF that(2)]])
  show ?thesis
    using assms(1)
    by (auto simp: sample_reading_def Let_def case_prod_unfold w1_def [symmetric] intro!: o extends_gauge)
qed

lemma sample_reading_clears:
  "\<not> is_active (fst (sample_reading cfg a kind r now d w)) SourceUnavailable (mo_SourceName a)"
proof -
  have "\<not> is_active (fst (Detector_Observe d SourceUnavailable s False False [] now w)) SourceUnavailable s" for s
    by (auto simp: is_active_def Detector_Observe_one state_of_observe_one about_def observe_state_def observe_clear_def
        Let_def send_keeps)
  then show ?thesis
    by (simp add: sample_reading_def Let_def case_prod_unfold is_active_def Detector_Observe_other)
qed

text \<open>The unavailability of a source is scoped by the source's name and not by the agent. When two agents
  share a source and the reading of the first fails while that of the second succeeds (its group exists, the
  other's does not), every single sample opens the anomaly and clears it again: support is sent a
  \<open>RESOLVED\<close> mail per sample, past cooldown and ceiling, and no anomaly is ever left active.\<close>

theorem shared_source_flaps_every_sample:
  assumes "EmailEnabled mcfg" and "det_notifier d = Some (Notify N mcfg lg)"
    and "lag_replies a (Some (Inl e))" and "lag_replies b (Some (Inr r))" and "only_reads a" and "only_reads b"
    and "mo_SourceName b = mo_SourceName a" and "sample cfg [a, b] hs c d w = (snap, d', w')"
  shows "(\<exists>st. resolved_mail mcfg SourceUnavailable (mo_SourceName a) st (clock w) \<in> set (issued w w')) \<and>
    \<not> is_active d' SourceUnavailable (mo_SourceName a)"
proof -
  let ?s = "mo_SourceName a" and ?now = "clock w"
  obtain la ka lb kb where la: "mo_Lag a = Some (la, ka)" and lb: "mo_Lag b = Some (lb, kb)"
    using assms(3,4) by (auto simp: lag_replies_def split: option.splits)
  have fa: "fst (la x y) = Inl e" "extends y (snd (la x y))" and fb: "fst (lb x y) = Inr r" "extends y (snd (lb x y))" for x y
    using assms(3-6) la lb by (auto simp: lag_replies_def only_reads_def)
  obtain w1 where 1: "la (with_timeout c (clock w) (5 * second)) w = (Inl e, w1)" "extends w w1"
    using fa [where x = "with_timeout c (clock w) (5 * second)" and y = w] by (metis prod.collapse)
  obtain d2 w2 where 2: "Detector_Observe d SourceUnavailable ?s True False (error_Error e) ?now w1 = (d2, w2)" by fastforce
  obtain w3 where 3: "lb (with_timeout c (clock w2) (5 * second)) w2 = (Inr r, w3)" "extends w2 w3"
    using fb [where x = "with_timeout c (clock w2) (5 * second)" and y = w2] by (metis prod.collapse)
  have run: "(d', w') = sample_reading cfg b kb r ?now d2 w3"
    using assms(8) la lb 1 2 3 by (auto simp: sample_def sample_agent_def Let_def split: prod.splits)
  have d2: "det_notifier d2 = Some (Notify N mcfg lg)" using Detector_Observe_config(2) 2 assms(2) by (metis fst_conv)
  have w2: "extends w1 w2" using Observe_extends [OF assms(2)] 2 by (metis snd_conv)
  obtain st where st: "state_of d2 SourceUnavailable ?s = Some st" "st_active st"
    using 2 by (auto simp: Detector_Observe_one observe_one_eq state_of_def update_conv' observe_state_def breach_activates)
  obtain d4 w4 where 4: "Detector_Observe d2 SourceUnavailable ?s False False [] ?now w3 = (d4, w4)" by fastforce
  have "lookup_state d2 SourceUnavailable ?s ?now = st" using st(1) by (simp add: lookup_state_def state_of_def)
  then have "w4 = snd (observe_clear d2 SourceUnavailable ?s st ?now w3)"
    using 4 by (auto simp: Detector_Observe_def Let_def split: prod.splits)
  then have "trace w4 = trace w3 @ [resolved_mail mcfg SourceUnavailable ?s st ?now]"
    using clear_sends_mail [OF assms(1) d2 st(2)] by (metis prod.collapse)
  from extendsI [OF this] have i4: "extends w3 w4" "issued w3 w4 = [resolved_mail mcfg SourceUnavailable ?s st ?now]" by auto
  have "extends w4 w'"
    using sample_reading_extends [OF d2, of w4 b ?now w3 cfg kb r] 4 run assms(7) by (metis snd_conv)
  moreover have "extends w w3" using 1(2) w2 3(2) extends_trans(1) by blast
  ultimately have "resolved_mail mcfg SourceUnavailable ?s st ?now \<in> set (issued w w')"
    using extends_trans [of w w3 w4] extends_trans [of w w4 w'] i4 by simp
  moreover have "\<not> is_active d' SourceUnavailable ?s"
    using sample_reading_clears [of cfg b kb r ?now d2 w3] run assms(7) by (metis fst_conv)
  ultimately show ?thesis by blast
qed

theorem shared_source_flaps_every_sample_witness:
  "let out = sample example_config [lagging ''a'' (Inl RedisNil), lagging ''b'' behind] [] background mail_detector example_world
   in \<exists>st. resolved_mail mail_cfg SourceUnavailable ''events'' st (clock example_world) \<in> set (issued example_world (snd (snd out)))"
proof -
  have l: "lag_replies (lagging i q) (Some q)" "only_reads (lagging i q)" "mo_SourceName (lagging i q) = ''events''" for i q
    by (simp_all add: lag_replies_def only_reads_def lagging_def)
  obtain snap d' w' where s: "sample example_config [lagging ''a'' (Inl RedisNil), lagging ''b'' behind] [] background mail_detector
      example_world = (snap, d', w')" by (metis prod_cases3)
  from shared_source_flaps_every_sample [OF mail_detector_ok l(1) l(1) l(2) l(2) _ s] l(3) s show ?thesis
    by (simp add: Let_def)
qed

end
