(* ===== verification/Registry.thy ===== *)
theory Registry
  imports StreamAgent LogDrain Housekeeping Monitor
begin

text \<open>
  Building the agents from the configuration (\<open>internal/agent/registry.go\<close>). \<open>Close\<close> of both
  sources does nothing, so the cleanup function that \<open>Build\<close> collects has no effect and is left
  out.
\<close>

section \<open>Agents\<close>

text \<open>The three implementations of the \<open>Agent\<close> interface. A log drain comes with the aggregator it
  starts from.\<close>

datatype 'n built =
    BuiltStream "'n StreamAgent"
  | BuiltDrain "'n LogDrainAgent" Aggregator
  | BuiltPeriodic "'n PeriodicAgent"

fun built_ID :: "'n built \<Rightarrow> string" where
  "built_ID (BuiltStream a) = sa_id a"
| "built_ID (BuiltDrain a agg) = ld_id a"
| "built_ID (BuiltPeriodic a) = pa_id a"

fun built_SourceName :: "'n built \<Rightarrow> string" where
  "built_SourceName (BuiltStream a) = ref_Name (src_Ref (sa_source a))"
| "built_SourceName (BuiltDrain a agg) = ref_Name (src_Ref (ld_source a))"
| "built_SourceName (BuiltPeriodic a) = tk_Name (pa_task a)"

text \<open>\<open>Lag\<close> and \<open>Kind\<close> of \<open>monitor.go\<close>; a periodic agent is no \<open>LagSource\<close>.\<close>

fun built_Lag :: "'n built \<Rightarrow> ((ctx \<Rightarrow> 'n world \<Rightarrow> (gerror + LagReading) \<times> 'n world) \<times> string) option" where
  "built_Lag (BuiltStream a) = Some (src_Lag (sa_source a), ref_Kind (src_Ref (sa_source a)))"
| "built_Lag (BuiltDrain a agg) = Some (src_Lag (ld_source a), ref_Kind (src_Ref (ld_source a)))"
| "built_Lag (BuiltPeriodic a) = None"

definition monitored :: "'n built \<Rightarrow> 'n Monitored" where
  "monitored a = \<lparr>mo_ID = built_ID a, mo_SourceName = built_SourceName a, mo_Lag = built_Lag a\<rparr>"

section \<open>Building\<close>

definition NewListSource :: "SourceRef \<Rightarrow> duration \<Rightarrow> logger \<Rightarrow> ListSource" where
  "NewListSource ref block lg = \<lparr>ls_ref = ref, ls_block = block, ls_log = lg\<rparr>"

text \<open>The switch on one destination name: what it appends.\<close>

definition destination_named :: "'n net \<Rightarrow> Config \<Rightarrow> AgentCfg \<Rightarrow> string \<Rightarrow> gerror + 'n Destination list" where
  "destination_named N cfg ac name =
     (if name = ''ltr'' then Inr [http_destination N (NewLTR (LTRURL (c_Dispatch cfg)) (a_ID ac))]
      else if name = ''cep'' then Inr [http_destination N (NewCEP (CEPURL (c_Dispatch cfg)) (a_ID ac))]
      else if name = ''summary'' then Inr [NewSummary N (SummaryDestination (c_House cfg)) (a_ID ac)]
      else if name = ''none'' then Inr []
      else Inl (ErrorString (''unknown destination '' @ strconv_Quote name @ '' (known: ltr, cep, summary, none)'')))"

fun destinations_from :: "'n net \<Rightarrow> Config \<Rightarrow> AgentCfg \<Rightarrow> string list \<Rightarrow> gerror + 'n Destination list" where
  "destinations_from N cfg ac [] = Inr []"
| "destinations_from N cfg ac (name # names) =
     (case destination_named N cfg ac name of
        Inl e \<Rightarrow> Inl e
      | Inr d \<Rightarrow> (case destinations_from N cfg ac names of Inl e \<Rightarrow> Inl e | Inr ds \<Rightarrow> Inr (d @ ds)))"

definition destinationsFor :: "'n net \<Rightarrow> Config \<Rightarrow> AgentCfg \<Rightarrow> gerror + 'n Destination list" where
  "destinationsFor N cfg ac = destinations_from N cfg ac (a_Destinations ac)"

definition sourceFor ::
  "json_decoder \<Rightarrow> 'n rdb \<Rightarrow> Config \<Rightarrow> AgentCfg \<Rightarrow> logger \<Rightarrow> ctx \<Rightarrow> 'n world \<Rightarrow> (gerror + 'n Source) \<times> 'n world" where
  "sourceFor u R cfg ac lg c w =
     (let ref = \<lparr>ref_Name = a_Source ac, ref_Kind = a_SourceKind ac\<rparr> in
      if ref_Kind ref = KindStream
      then (case NewStreamSource R c ref (GroupName (ConsumerGrp (c_Redis cfg)) (a_ID ac))
                   (ConsumerName (ConsumerNameBase (c_Redis cfg)) (a_ID ac) (InstanceID cfg))
                   (a_BatchSize ac) (a_BlockTimeout ac) lg w of
              (Inl e, w1) \<Rightarrow> (Inl e, w1)
            | (Inr s, w1) \<Rightarrow> (Inr (stream_source u R s), w1))
      else if ref_Kind ref = KindList
      then (Inr (list_source u R (NewListSource ref (a_BlockTimeout ac) lg)), w)
      else (Inl (ErrorString (''unsupported source kind '' @ strconv_Quote (ref_Kind ref))), w))"

definition buildOne ::
  "nat \<Rightarrow> json_decoder \<Rightarrow> 'n net \<Rightarrow> 'n rdb \<Rightarrow> Config \<Rightarrow> logger \<Rightarrow> ctx \<Rightarrow> AgentCfg \<Rightarrow> 'n world \<Rightarrow>
   (gerror + 'n built) \<times> 'n world" where
  "buildOne fuel u N R cfg lg c ac w =
     (case destinationsFor N cfg ac of
        Inl e \<Rightarrow> (Inl e, w)
      | Inr ds \<Rightarrow>
          (let dispatcher = NewDispatcher (a_ID ac) ds (NewPolicy (c_Dispatch cfg)) lg in
           if a_Mode ac = ModeStream
           then (case sourceFor u R cfg ac lg c w of
                   (Inl e, w1) \<Rightarrow> (Inl e, w1)
                 | (Inr src, w1) \<Rightarrow>
                     (if a_SourceKind ac = KindList
                      then (case NewLogDrainAgent (a_ID ac) src (SummaryPeriod (c_House cfg)) (Some dispatcher) lg of
                              (a, agg) \<Rightarrow> (Inr (BuiltDrain a agg), w1))
                      else (Inr (BuiltStream (NewStreamAgent (a_ID ac) src dispatcher lg)), w1)))
           else if a_Mode ac = ModePeriodic
           then (case TaskFor fuel u R ac cfg lg of
                   Inl e \<Rightarrow> (Inl e, w)
                 | Inr task \<Rightarrow> (Inr (BuiltPeriodic (NewPeriodicAgent (a_ID ac) (a_Interval ac) task lg)), w))
           else (Inl (ErrorString (''unsupported mode '' @ strconv_Quote (a_Mode ac))), w)))"

fun build_all ::
  "nat \<Rightarrow> json_decoder \<Rightarrow> 'n net \<Rightarrow> 'n rdb \<Rightarrow> Config \<Rightarrow> logger \<Rightarrow> ctx \<Rightarrow> AgentCfg list \<Rightarrow> 'n world \<Rightarrow>
   (gerror + 'n built list) \<times> 'n world" where
  "build_all fuel u N R cfg lg c [] w = (Inr [], w)"
| "build_all fuel u N R cfg lg c (ac # acs) w =
     (case buildOne fuel u N R cfg lg c ac w of
        (Inl e, w1) \<Rightarrow> (Inl (Wrapf (''agent '' @ strconv_Quote (a_ID ac)) e), w1)
      | (Inr a, w1) \<Rightarrow>
          (case build_all fuel u N R cfg lg c acs w1 of
             (Inl e, w2) \<Rightarrow> (Inl e, w2)
           | (Inr as, w2) \<Rightarrow> (Inr (a # as), w2)))"

definition Build ::
  "nat \<Rightarrow> json_decoder \<Rightarrow> 'n net \<Rightarrow> 'n rdb \<Rightarrow> Config \<Rightarrow> logger \<Rightarrow> ctx \<Rightarrow> 'n world \<Rightarrow>
   (gerror + 'n built list) \<times> 'n world" where
  "Build fuel u N R cfg lg c w = build_all fuel u N R cfg lg c (Config_Enabled cfg) w"

section \<open>What is built\<close>

text \<open>The specification of one built agent.\<close>

definition dispatches :: "Config \<Rightarrow> AgentCfg \<Rightarrow> 'n Dispatcher \<Rightarrow> bool" where
  "dispatches cfg ac d \<longleftrightarrow>
     disp_agentID d = a_ID ac \<and> policy d = NewPolicy (c_Dispatch cfg) \<and>
     map dest_Name (dests d) = filter (\<lambda>n. n \<noteq> ''none'') (a_Destinations ac) \<and>
     list_all posting_destination (dests d)"

definition reads_as :: "json_decoder \<Rightarrow> 'n rdb \<Rightarrow> Config \<Rightarrow> AgentCfg \<Rightarrow> 'n Source \<Rightarrow> bool" where
  "reads_as u R cfg ac src \<longleftrightarrow>
     (\<exists>s. src = stream_source u R s \<and> ss_ref s = \<lparr>ref_Name = a_Source ac, ref_Kind = KindStream\<rparr> \<and>
        ss_group s = GroupName (ConsumerGrp (c_Redis cfg)) (a_ID ac) \<and>
        ss_consumer s = ConsumerName (ConsumerNameBase (c_Redis cfg)) (a_ID ac) (InstanceID cfg) \<and>
        ss_count s = a_BatchSize ac)"

definition drains_as :: "json_decoder \<Rightarrow> 'n rdb \<Rightarrow> AgentCfg \<Rightarrow> 'n Source \<Rightarrow> bool" where
  "drains_as u R ac src \<longleftrightarrow>
     (\<exists>s. src = list_source u R s \<and> ls_ref s = \<lparr>ref_Name = a_Source ac, ref_Kind = KindList\<rparr>)"

fun built_for :: "json_decoder \<Rightarrow> 'n rdb \<Rightarrow> Config \<Rightarrow> AgentCfg \<Rightarrow> 'n built \<Rightarrow> bool" where
  "built_for u R cfg ac (BuiltStream a) =
     (a_Mode ac = ModeStream \<and> a_SourceKind ac = KindStream \<and> sa_id a = a_ID ac \<and>
      reads_as u R cfg ac (sa_source a) \<and> dispatches cfg ac (sa_dispatcher a))"
| "built_for u R cfg ac (BuiltDrain a agg) =
     (a_Mode ac = ModeStream \<and> a_SourceKind ac = KindList \<and> ld_id a = a_ID ac \<and>
      drains_as u R ac (ld_source a) \<and>
      (\<exists>d. ld_dispatcher a = Some d \<and> dispatches cfg ac d) \<and>
      agg = NewAggregator (SummaryPeriod (c_House cfg)))"
| "built_for u R cfg ac (BuiltPeriodic a) =
     (a_Mode ac = ModePeriodic \<and> pa_id a = a_ID ac \<and> pa_interval a = a_Interval ac)"

text \<open>The commands of building one agent: the creation of its own group, for a stream agent on a stream.\<close>

definition build_cmds :: "Config \<Rightarrow> AgentCfg \<Rightarrow> cmd list" where
  "build_cmds cfg ac =
     (if a_Mode ac = ModeStream \<and> a_SourceKind ac = KindStream
      then [XGROUP_CREATE (a_Source ac) (GroupName (ConsumerGrp (c_Redis cfg)) (a_ID ac)) ''$'']
      else [])"

lemma NewSummary_posting: "posting_destination (NewSummary N url i)"
  by (simp add: NewSummary_def http_dest.posting_destination_axioms log_only.posting_destination_axioms)

lemma dest_names [simp]:
  "dest_Name (http_destination N (NewLTR url i)) = ''ltr''"
  "dest_Name (http_destination N (NewCEP url i)) = ''cep''"
  "dest_Name (NewSummary N url i) = ''summary''"
  by (simp_all add: http_destination_def NewLTR_def NewCEP_def NewHTTP_def NewSummary_def logOnly_def)

definition known_destination :: "string \<Rightarrow> bool" where
  "known_destination name \<longleftrightarrow> name \<in> {''ltr'', ''cep'', ''summary'', ''none''}"

lemma destination_named_Inr:
  assumes "destination_named N cfg ac name = Inr d"
  shows "map dest_Name d = filter (\<lambda>n. n \<noteq> ''none'') [name] \<and> list_all posting_destination d"
proof -
  consider "name = ''ltr''" | "name = ''cep''" | "name = ''summary''" | "name = ''none''"
    using assms by (auto simp: destination_named_def split: if_splits)
  then show ?thesis
    using assms by cases (auto simp: destination_named_def http_dest.posting_destination_axioms NewSummary_posting)
qed

lemma destination_named_known: "(\<exists>d. destination_named N cfg ac name = Inr d) \<longleftrightarrow> known_destination name"
  by (auto simp: destination_named_def known_destination_def split: if_splits)

lemma destinations_from_Inr:
  "destinations_from N cfg ac names = Inr ds \<Longrightarrow>
     map dest_Name ds = filter (\<lambda>n. n \<noteq> ''none'') names \<and> list_all posting_destination ds"
proof (induction names arbitrary: ds)
  case (Cons n names)
  then obtain d ds' where d: "destination_named N cfg ac n = Inr d" "destinations_from N cfg ac names = Inr ds'" "ds = d @ ds'"
    by (auto split: sum.splits)
  have "filter (\<lambda>n. n \<noteq> ''none'') (n # names) = filter (\<lambda>n. n \<noteq> ''none'') [n] @ filter (\<lambda>n. n \<noteq> ''none'') names"
    by (simp del: filter.simps add: filter_append [symmetric])
  with destination_named_Inr [OF d(1)] Cons.IH [OF d(2)] d(3) show ?case by simp
qed simp

lemma destinations_from_exists:
  "list_all known_destination names \<Longrightarrow> \<exists>ds. destinations_from N cfg ac names = Inr ds"
proof (induction names)
  case (Cons n names)
  then obtain d ds where "destination_named N cfg ac n = Inr d" "destinations_from N cfg ac names = Inr ds"
    using destination_named_known [of N cfg ac n] by auto
  then show ?case by simp
qed simp

lemma NewStreamSource_inv:
  assumes "NewStreamSource R c ref g k n b lg w = (r, w')"
  shows "extends w w' \<and> issued w w' = [XGROUP_CREATE (ref_Name ref) g ''$''] \<and>
    (\<forall>s. r = Inr s \<longrightarrow> s = \<lparr>ss_ref = ref, ss_group = g, ss_consumer = k, ss_count = n, ss_block = b\<rparr>)"
proof -
  obtain e w1 where 1: "call (XGROUP_CREATE (ref_Name ref) g ''$'') (x_XGroupCreateMkStream R (ref_Name ref) g ''$'') c w = (e, w1)"
    by fastforce
  have "trace w' = trace w1"
    using assms 1 by (auto simp: NewStreamSource_def split: if_splits option.splits)
  with call_frame(7) [OF 1] have "trace w' = trace w @ [XGROUP_CREATE (ref_Name ref) g ''$'']" by simp
  from extendsI [OF this] assms 1 show ?thesis
    by (auto simp: NewStreamSource_def split: if_splits option.splits)
qed

lemma sourceFor_stream:
  assumes "a_SourceKind ac = KindStream" and "sourceFor u R cfg ac lg c w = (r, w')"
  shows "extends w w' \<and>
    issued w w' = [XGROUP_CREATE (a_Source ac) (GroupName (ConsumerGrp (c_Redis cfg)) (a_ID ac)) ''$''] \<and>
    (\<forall>src. r = Inr src \<longrightarrow> reads_as u R cfg ac src)"
proof -
  obtain q w1 where 1: "NewStreamSource R c \<lparr>ref_Name = a_Source ac, ref_Kind = KindStream\<rparr>
      (GroupName (ConsumerGrp (c_Redis cfg)) (a_ID ac)) (ConsumerName (ConsumerNameBase (c_Redis cfg)) (a_ID ac) (InstanceID cfg))
      (a_BatchSize ac) (a_BlockTimeout ac) lg w = (q, w1)" by fastforce
  note inv = NewStreamSource_inv [OF 1]
  have w: "w' = w1" using assms 1 by (auto simp: sourceFor_def Let_def split: sum.splits)
  show ?thesis
  proof (cases q)
    case (Inl e)
    with assms 1 inv show ?thesis by (auto simp: sourceFor_def Let_def)
  next
    case (Inr s)
    with inv have s: "s = \<lparr>ss_ref = \<lparr>ref_Name = a_Source ac, ref_Kind = KindStream\<rparr>,
        ss_group = GroupName (ConsumerGrp (c_Redis cfg)) (a_ID ac),
        ss_consumer = ConsumerName (ConsumerNameBase (c_Redis cfg)) (a_ID ac) (InstanceID cfg),
        ss_count = a_BatchSize ac, ss_block = a_BlockTimeout ac\<rparr>" by blast
    have "r = Inr (stream_source u R s)" using assms 1 Inr by (simp add: sourceFor_def Let_def)
    moreover have "reads_as u R cfg ac (stream_source u R s)" unfolding reads_as_def by (rule exI [of _ s]) (simp add: s)
    ultimately show ?thesis using inv w by simp
  qed
qed

lemma dispatches_built:
  "destinationsFor N cfg ac = Inr ds \<Longrightarrow> dispatches cfg ac (NewDispatcher (a_ID ac) ds (NewPolicy (c_Dispatch cfg)) lg)"
  using destinations_from_Inr [of N cfg ac "a_Destinations ac" ds] by (simp add: dispatches_def NewDispatcher_def destinationsFor_def)

lemma drains_as_list [simp]:
  "drains_as u R ac (list_source u R (NewListSource \<lparr>ref_Name = a_Source ac, ref_Kind = KindList\<rparr> b lg))"
  unfolding drains_as_def
  by (rule exI [of _ "NewListSource \<lparr>ref_Name = a_Source ac, ref_Kind = KindList\<rparr> b lg"]) (simp add: NewListSource_def)

lemma buildOne_inv:
  assumes "buildOne fuel u N R cfg lg c ac w = (r, w')"
  shows "extends w w' \<and> (issued w w' = build_cmds cfg ac \<or> issued w w' = [] \<and> (\<exists>e. r = Inl e)) \<and>
    (\<forall>a. r = Inr a \<longrightarrow> built_for u R cfg ac a)"
proof (cases "destinationsFor N cfg ac")
  case (Inl e)
  with assms show ?thesis by (auto simp: buildOne_def)
next
  case (Inr ds)
  let ?d = "NewDispatcher (a_ID ac) ds (NewPolicy (c_Dispatch cfg)) lg"
  note d = dispatches_built [OF Inr]
  consider (stream) "a_Mode ac = ModeStream" "a_SourceKind ac = KindStream" | (list) "a_Mode ac = ModeStream" "a_SourceKind ac = KindList"
    | (other) "a_Mode ac = ModeStream" "a_SourceKind ac \<noteq> KindStream" "a_SourceKind ac \<noteq> KindList"
    | (periodic) "a_Mode ac = ModePeriodic" | (unknown) "a_Mode ac \<noteq> ModeStream" "a_Mode ac \<noteq> ModePeriodic" by blast
  then show ?thesis
  proof cases
    case stream
    obtain q w1 where 1: "sourceFor u R cfg ac lg c w = (q, w1)" by fastforce
    note inv = sourceFor_stream [OF stream(2) 1]
    have "w' = w1 \<and> r = (case q of Inl e \<Rightarrow> Inl e | Inr src \<Rightarrow> Inr (BuiltStream (NewStreamAgent (a_ID ac) src ?d lg)))"
      using assms Inr stream 1 by (auto simp: buildOne_def Let_def split: sum.splits)
    with inv d [of lg] stream show ?thesis by (auto simp: build_cmds_def NewStreamAgent_def split: sum.splits)
  next
    case list
    with assms Inr d [of lg] show ?thesis
      by (auto simp: buildOne_def Let_def sourceFor_def build_cmds_def NewLogDrainAgent_def)
  next
    case other
    with assms Inr show ?thesis by (auto simp: buildOne_def Let_def sourceFor_def)
  next
    case periodic
    with assms Inr show ?thesis
      by (auto simp: buildOne_def Let_def build_cmds_def NewPeriodicAgent_def split: sum.splits)
  next
    case unknown
    with assms Inr show ?thesis by (auto simp: buildOne_def Let_def)
  qed
qed

lemma build_all_Inr:
  assumes "build_all fuel u N R cfg lg c acs w = (Inr as, w')"
  shows "list_all2 (built_for u R cfg) acs as \<and> extends w w' \<and> issued w w' = concat (map (build_cmds cfg) acs)"
  using assms
proof (induction acs arbitrary: w as)
  case (Cons ac acs)
  obtain a w1 as' where 1: "buildOne fuel u N R cfg lg c ac w = (Inr a, w1)"
    and 2: "build_all fuel u N R cfg lg c acs w1 = (Inr as', w')" "as = a # as'"
    using Cons.prems by (auto split: sum.splits prod.splits)
  from buildOne_inv [OF 1] have b: "extends w w1" "issued w w1 = build_cmds cfg ac" "built_for u R cfg ac a" by auto
  from Cons.IH [OF 2(1)] b 2(2) extends_trans [OF b(1), of w'] show ?case by simp
qed auto

section \<open>Building succeeds\<close>

text \<open>The group can be created or exists already.\<close>

definition groups_ready :: "'n rdb \<Rightarrow> bool" where
  "groups_ready R \<longleftrightarrow>
     (\<forall>s g c t n. case fst (x_XGroupCreateMkStream R s g ''$'' c t n) of
        None \<Rightarrow> True | Some e \<Rightarrow> strings_Contains (error_Error e) ''BUSYGROUP'')"

definition known_task :: "AgentCfg \<Rightarrow> bool" where
  "known_task ac \<longleftrightarrow> a_Source ac \<in> {''reclaim'', ''report''} \<or>
     a_ID ac \<in> {''pending_reclaim'', ''pending-reclaim'', ''queue_report'', ''queue-report''}"

lemma TaskFor_known: "(\<exists>t. TaskFor fuel u R ac cfg lg = Inr t) \<longleftrightarrow> known_task ac"
  by (simp add: TaskFor_def known_task_def)

lemma NewStreamSource_ready:
  assumes "groups_ready R"
  shows "\<exists>s w'. NewStreamSource R c ref g k n b lg w = (Inr s, w')"
proof -
  obtain e w1 where 1: "call (XGROUP_CREATE (ref_Name ref) g ''$'') (x_XGroupCreateMkStream R (ref_Name ref) g ''$'') c w = (e, w1)"
    by fastforce
  then have "e = fst (x_XGroupCreateMkStream R (ref_Name ref) g ''$'' c (clock w) (outside w))"
    by (auto simp: call_def split: prod.splits)
  with assms have "case e of None \<Rightarrow> True | Some e \<Rightarrow> strings_Contains (error_Error e) ''BUSYGROUP''"
    by (simp add: groups_ready_def)
  with 1 show ?thesis by (auto simp: NewStreamSource_def split: option.splits)
qed

lemma buildOne_succeeds:
  assumes "agent_ok cfg ac" and "list_all known_destination (a_Destinations ac)"
    and "a_Mode ac = ModePeriodic \<longrightarrow> known_task ac" and "groups_ready R"
  shows "\<exists>a w'. buildOne fuel u N R cfg lg c ac w = (Inr a, w')"
proof -
  obtain ds where ds: "destinationsFor N cfg ac = Inr ds"
    using destinations_from_exists [OF assms(2), of N cfg ac] by (auto simp: destinationsFor_def)
  consider (stream) "a_Mode ac = ModeStream" "a_SourceKind ac = KindStream" | (list) "a_Mode ac = ModeStream" "a_SourceKind ac = KindList"
    | (periodic) "a_Mode ac = ModePeriodic" using assms(1) by (auto simp: agent_ok_def)
  then show ?thesis
  proof cases
    case stream
    obtain s w1 where "NewStreamSource R c \<lparr>ref_Name = a_Source ac, ref_Kind = KindStream\<rparr>
      (GroupName (ConsumerGrp (c_Redis cfg)) (a_ID ac)) (ConsumerName (ConsumerNameBase (c_Redis cfg)) (a_ID ac) (InstanceID cfg))
      (a_BatchSize ac) (a_BlockTimeout ac) lg w = (Inr s, w1)"
      using NewStreamSource_ready [OF assms(4)] by blast
    with stream ds show ?thesis by (simp add: buildOne_def sourceFor_def Let_def)
  next
    case list
    with ds show ?thesis by (simp add: buildOne_def sourceFor_def Let_def NewLogDrainAgent_def)
  next
    case periodic
    with ds assms(3) TaskFor_known [of fuel u R ac cfg lg] show ?thesis by (auto simp: buildOne_def Let_def)
  qed
qed

lemma build_all_succeeds:
  assumes "groups_ready R"
    and "\<And>ac. ac \<in> set acs \<Longrightarrow> agent_ok cfg ac \<and> list_all known_destination (a_Destinations ac) \<and>
      (a_Mode ac = ModePeriodic \<longrightarrow> known_task ac)"
  shows "\<exists>as w'. build_all fuel u N R cfg lg c acs w = (Inr as, w')"
  using assms(2)
proof (induction acs arbitrary: w)
  case (Cons ac acs)
  obtain a w1 where 1: "buildOne fuel u N R cfg lg c ac w = (Inr a, w1)"
    using buildOne_succeeds [OF _ _ _ assms(1), of cfg ac fuel u N lg c w] Cons.prems [of ac] by auto
  obtain as w2 where "build_all fuel u N R cfg lg c acs w1 = (Inr as, w2)"
    using Cons.IH [of w1] Cons.prems by auto
  with 1 show ?case by simp
qed simp

lemma built_for_ID: "built_for u R cfg ac a \<Longrightarrow> built_ID a = a_ID ac"
  by (cases a) auto

lemma list_all2_built_IDs: "list_all2 (built_for u R cfg) acs as \<Longrightarrow> map built_ID as = map a_ID acs"
  by (induction rule: list_all2_induct) (simp_all add: built_for_ID)

lemma Validate_agents: "Config_Validate cfg = None \<Longrightarrow> ac \<in> set (Config_Enabled cfg) \<Longrightarrow> agent_ok cfg ac"
  by (simp add: Validate_accepts list_all_iff)

section \<open>Properties of the registry\<close>

text \<open>C18. What building yields: exactly the enabled agents, in the configured order and with their ids;
  each a stream agent, a log drain or a periodic agent as its mode and source kind say, with its own group and
  consumer, its destinations in order and the configured policy. The only commands are one group
  creation per enabled stream agent on a stream: a disabled agent leaves no trace.\<close>

theorem Build_exact:
  assumes "Build fuel u N R cfg lg c w = (Inr as, w')"
  shows "list_all2 (built_for u R cfg) (Config_Enabled cfg) as \<and>
    map built_ID as = map a_ID (Config_Enabled cfg) \<and>
    issued w w' = concat (map (build_cmds cfg) (Config_Enabled cfg))"
  using build_all_Inr [OF assms [unfolded Build_def]] list_all2_built_IDs by blast

text \<open>A validated configuration builds: if in addition every enabled agent names known destinations, every
  periodic one selects a known task (neither of which validation looks at), and the server
  can create the groups or has them, then every agent is built.\<close>

theorem Build_succeeds:
  assumes "Config_Validate cfg = None" and "groups_ready R"
    and "list_all (\<lambda>ac. list_all known_destination (a_Destinations ac) \<and> (a_Mode ac = ModePeriodic \<longrightarrow> known_task ac)) (Config_Enabled cfg)"
  shows "\<exists>as w'. Build fuel u N R cfg lg c w = (Inr as, w')"
  unfolding Build_def
  by (rule build_all_succeeds [OF assms(2)])
     (use Validate_agents [OF assms(1)] assms(3) in \<open>auto simp: list_all_iff\<close>)

lemma example_config_valid: "Config_Validate example_config = None"
proof -
  have "list_all (agent_ok example_config) (Config_Enabled example_config)"
    by (simp add: Config_Enabled_def example_config_def example_agent_cfg_def agent_ok_def)
  then show ?thesis by (simp add: Validate_accepts) (simp add: example_config_def)
qed

lemma quiet_groups_ready: "groups_ready quiet_rdb"
  by (simp add: groups_ready_def quiet_rdb_def still_def)

lemma example_agents_known:
  "list_all (\<lambda>ac. list_all known_destination (a_Destinations ac) \<and> (a_Mode ac = ModePeriodic \<longrightarrow> known_task ac))
     (Config_Enabled example_config)"
  by (simp add: Config_Enabled_def example_config_def example_agent_cfg_def known_destination_def known_task_def)

theorem Build_succeeds_witness:
  "\<exists>as w'. Build 1 (\<lambda>_. Inl []) example_net quiet_rdb example_config (NewLogger ''info'') background example_world = (Inr as, w')"
  by (rule Build_succeeds [OF example_config_valid quiet_groups_ready example_agents_known])

theorem Build_exact_witness:
  "let out = Build 1 (\<lambda>_. Inl []) example_net quiet_rdb example_config (NewLogger ''info'') background example_world
   in \<exists>as. fst out = Inr as \<and> map built_ID as = [''events-ltr'', ''logs'', ''pending-reclaim''] \<and>
      issued example_world (snd out) = [XGROUP_CREATE ''events'' ''conflux:events-ltr'' ''$'']"
proof -
  obtain as w' where b: "Build 1 (\<lambda>_. Inl []) example_net quiet_rdb example_config (NewLogger ''info'') background example_world = (Inr as, w')"
    using build_all_succeeds [OF quiet_groups_ready, of "Config_Enabled example_config" example_config]
      Validate_agents [OF example_config_valid] example_agents_known
    unfolding Build_def list_all_iff by blast
  have e: "Config_Enabled example_config = c_Agents example_config"
    by (simp add: Config_Enabled_def example_config_def example_agent_cfg_def)
  from Build_exact [OF b] show ?thesis
    unfolding b Let_def e by (simp add: example_config_def example_agent_cfg_def build_cmds_def GroupName_def)
qed

end
