(* ===== verification/Process.thy ===== *)
theory Process
  imports Registry
begin

text \<open>
  The wiring of the process (\<open>cmd/conflux/main.go\<close>): start-up from the environment to the running
  agents, and shutdown. The goroutines that run in between are the supervisors of \<open>Runner\<close>, the
  monitor and the operational endpoints of \<open>Monitor\<close>.
\<close>

section \<open>Start-up and shutdown\<close>

record 'n process =
  pc_cfg :: Config
  pc_log :: logger
  pc_agents :: "'n built list"
  pc_runner :: RunnerCfg
  pc_supervisors :: "string \<rightharpoonup> supervisor"
  pc_monitor :: "'n Monitor"

definition run_detector_of :: "'n net \<Rightarrow> Config \<Rightarrow> logger \<Rightarrow> 'n Detector" where
  "run_detector_of N cfg lg =
     NewDetector (NotifyCooldown (c_Anomaly cfg)) (MaxPerHour (c_Anomaly cfg)) (LagSustainedFor (c_Anomaly cfg))
       (Some (Notify N (c_Anomaly cfg) lg)) lg"

definition run_start ::
  "nat \<Rightarrow> json_decoder \<Rightarrow> 'n net \<Rightarrow> 'n rdb \<Rightarrow> (string \<Rightarrow> float64 option) \<Rightarrow> string \<Rightarrow> (string \<Rightarrow> string) \<Rightarrow> ctx \<Rightarrow>
   'n world \<Rightarrow> (gerror + 'n process) \<times> 'n world" where
  "run_start fuel u N R parse_float host get c w =
     (case loadFrom parse_float host get of
        Inl e \<Rightarrow> (Inl (Wrapf ''configuration'' (ErrorString e)), w)
      | Inr cfg \<Rightarrow>
          (let lg = NewLogger (LogLevel cfg);
               w1 = log_at lg LInfo ''starting''
                      [(''component'', AStr ''main''), (''instance_id'', AStr (InstanceID cfg)),
                       (''agents_configured'', AInt (int (length (c_Agents cfg)))),
                       (''agents_enabled'', AInt (int (length (Config_Enabled cfg))))] w
           in case NewClient R (Addr (c_Redis cfg)) (DB (c_Redis cfg)) lg c w1 of
                (Some e, w2) \<Rightarrow> (Inl e, w2)
              | (None, w2) \<Rightarrow>
                  (case Build fuel u N R cfg lg c w2 of
                     (Inl e, w3) \<Rightarrow> (Inl (Wrapf ''building agents'' e), w3)
                   | (Inr as, w3) \<Rightarrow>
                       (let w4 = (if length as = 0
                                  then log_at lg LWarn ''no agents enabled; serving probes only'' [(''component'', AStr ''main'')] w3
                                  else w3);
                            runner = NewRunner lg (ShutdownGrace cfg)
                        in (Inr \<lparr>pc_cfg = cfg, pc_log = lg, pc_agents = as, pc_runner = runner,
                                 pc_supervisors = Start runner (map built_ID as) Map.empty,
                                 pc_monitor = NewMonitor (map monitored as) cfg (run_detector_of N cfg lg)\<rparr>, w4)))))"

text \<open>The end of \<open>run\<close>: \<open>srv\<close> is \<open>None\<close> when the signal came first, and otherwise what the operational
  server reported; \<open>all_done\<close> is the instant all agents have returned, if ever.\<close>

definition run_stop :: "'n process \<Rightarrow> gerror option option \<Rightarrow> time option \<Rightarrow> 'n world \<Rightarrow> 'n world" where
  "run_stop p srv all_done w =
     (let w1 = (case srv of
                  None \<Rightarrow> log_at (pc_log p) LInfo ''signal received; draining''
                    [(''component'', AStr ''main''), (''grace'', ADur (ShutdownGrace (pc_cfg p)))] w
                | Some None \<Rightarrow> w
                | Some (Some e) \<Rightarrow>
                    (if \<not> errors_Is e ContextCanceled
                     then log_at (pc_log p) LError ''operational server failed'' [(''error'', AStr (error_Error e))] w
                     else w));
          w2 = Wait (pc_runner p) all_done w1
      in log_at (pc_log p) LInfo ''stopped'' [(''component'', AStr ''main'')] w2)"

section \<open>Lemmas\<close>

lemma NewClient_issued: "NewClient R addr db lg c w = (e, w') \<Longrightarrow> extends w w' \<and> issued w w' = [PING]"
proof -
  assume n: "NewClient R addr db lg c w = (e, w')"
  obtain q w1 where 1: "call PING (x_Ping R) (with_timeout c (clock w) (5 * second)) w = (q, w1)" by fastforce
  have "trace w' = trace w1" using n 1 by (auto simp: NewClient_def split: option.splits)
  with call_frame(7) [OF 1] show ?thesis by (intro extendsI) simp
qed

lemma run_start_inv:
  assumes "run_start fuel u N R pf host get c w = (Inr p, w')"
  obtains w1 w2 w3 where "loadFrom pf host get = Inr (pc_cfg p)" "trace w1 = trace w"
    "NewClient R (Addr (c_Redis (pc_cfg p))) (DB (c_Redis (pc_cfg p))) (pc_log p) c w1 = (None, w2)"
    "Build fuel u N R (pc_cfg p) (pc_log p) c w2 = (Inr (pc_agents p), w3)" "trace w' = trace w3"
    "pc_log p = NewLogger (LogLevel (pc_cfg p))"
    "pc_runner p = NewRunner (pc_log p) (ShutdownGrace (pc_cfg p))"
    "pc_supervisors p = Start (pc_runner p) (map built_ID (pc_agents p)) Map.empty"
    "pc_monitor p = NewMonitor (map monitored (pc_agents p)) (pc_cfg p) (run_detector_of N (pc_cfg p) (pc_log p))"
proof -
  obtain cfg where 0: "loadFrom pf host get = Inr cfg" using assms by (auto simp: run_start_def split: sum.splits)
  define lg where "lg = NewLogger (LogLevel cfg)"
  define w1 where "w1 = log_at lg LInfo ''starting''
    [(''component'', AStr ''main''), (''instance_id'', AStr (InstanceID cfg)),
     (''agents_configured'', AInt (int (length (c_Agents cfg)))),
     (''agents_enabled'', AInt (int (length (Config_Enabled cfg))))] w"
  obtain w2 where 2: "NewClient R (Addr (c_Redis cfg)) (DB (c_Redis cfg)) lg c w1 = (None, w2)"
    using assms 0 by (auto simp: run_start_def Let_def lg_def w1_def split: prod.splits option.splits)
  obtain as w3 where 3: "Build fuel u N R cfg lg c w2 = (Inr as, w3)"
    using assms 0 2 by (auto simp: run_start_def Let_def lg_def w1_def split: prod.splits sum.splits)
  have p: "p = \<lparr>pc_cfg = cfg, pc_log = lg, pc_agents = as, pc_runner = NewRunner lg (ShutdownGrace cfg),
      pc_supervisors = Start (NewRunner lg (ShutdownGrace cfg)) (map built_ID as) Map.empty,
      pc_monitor = NewMonitor (map monitored as) cfg (run_detector_of N cfg lg)\<rparr>"
    and w': "trace w' = trace w3"
    using assms 0 2 3 by (auto simp: run_start_def Let_def lg_def [symmetric] w1_def [symmetric])
  show ?thesis
    by (rule that [of w1 w2 w3]) (use 0 2 3 p w' in \<open>simp_all add: lg_def w1_def\<close>)
qed

section \<open>What monitoring issues\<close>

text \<open>Commands that read the state of the queue, and mail to support.\<close>

fun monitor_cmd :: "cmd \<Rightarrow> bool" where
  "monitor_cmd (XINFO_GROUPS s) = True"
| "monitor_cmd (XINFO_STREAM s) = True"
| "monitor_cmd (XLEN s) = True"
| "monitor_cmd (LLEN s) = True"
| "monitor_cmd (SMTP_SEND server from to msg) = True"
| "monitor_cmd _ = False"

definition reads_lag :: "'n Monitored \<Rightarrow> bool" where
  "reads_lag a \<longleftrightarrow>
     (case mo_Lag a of None \<Rightarrow> True | Some (lag, kind) \<Rightarrow> (\<forall>c w. emits monitor_cmd w (snd (lag c w))))"

lemma trimmedPastGroup_emits: "trimmedPastGroup R s i c w = (r, w') \<Longrightarrow> emits monitor_cmd w w'"
  by (auto simp: trimmedPastGroup_def Let_def split: prod.splits sum.splits if_splits dest: emits_call [where P = monitor_cmd])

lemma group_lag_emits:
  assumes "group_lag R s g c w = (r, w')"
  shows "emits monitor_cmd w w'"
proof -
  obtain q w1 where 1: "trimmedPastGroup R s (g_LastDeliveredID g) c w = (q, w1)" by fastforce
  note e1 = trimmedPastGroup_emits [OF 1]
  have "w' = w1 \<or> (\<exists>x. call (XLEN (ref_Name (ss_ref s))) (x_XLen R (ref_Name (ss_ref s))) c w1 = (x, w'))"
    using assms 1 by (auto simp: group_lag_def Let_def split: sum.splits prod.splits if_splits)
  then show ?thesis
  proof
    assume "\<exists>x. call (XLEN (ref_Name (ss_ref s))) (x_XLen R (ref_Name (ss_ref s))) c w1 = (x, w')"
    then obtain x where x: "call (XLEN (ref_Name (ss_ref s))) (x_XLen R (ref_Name (ss_ref s))) c w1 = (x, w')" by blast
    show ?thesis by (rule emits_trans [OF e1 emits_call [OF x]]) simp
  qed (use e1 in simp)
qed

lemma StreamSource_Lag_emits:
  assumes "StreamSource_Lag R s c w = (r, w')"
  shows "emits monitor_cmd w w'"
proof -
  obtain q w1 where 1: "call (XINFO_GROUPS (ref_Name (ss_ref s))) (x_XInfoGroups R (ref_Name (ss_ref s))) c w = (q, w1)" by fastforce
  have e1: "emits monitor_cmd w w1" by (rule emits_call [OF 1]) simp
  have "w' = w1 \<or> (\<exists>g. group_lag R s g c w1 = (r, w'))"
    using assms 1 by (auto simp: StreamSource_Lag_def Let_def split: sum.splits option.splits)
  with e1 show ?thesis by (auto intro: emits_trans dest: group_lag_emits)
qed

lemma ListSource_Lag_emits: "ListSource_Lag R s c w = (r, w') \<Longrightarrow> emits monitor_cmd w w'"
  by (auto simp: ListSource_Lag_def Let_def split: prod.splits sum.splits dest: emits_call [where P = monitor_cmd])

lemma built_reads_lag:
  assumes "built_for u R cfg ac a"
  shows "reads_lag (monitored a)"
proof (cases a)
  case (BuiltStream x)
  with assms obtain s where "sa_source x = stream_source u R s" by (auto simp: reads_as_def)
  then show ?thesis
    using BuiltStream by (auto simp: reads_lag_def monitored_def stream_source_def intro: StreamSource_Lag_emits prod.collapse [symmetric])
next
  case (BuiltDrain x agg)
  with assms obtain s where "ld_source x = list_source u R s" by (auto simp: drains_as_def)
  then show ?thesis
    using BuiltDrain by (auto simp: reads_lag_def monitored_def list_source_def intro: ListSource_Lag_emits prod.collapse [symmetric])
qed (simp add: reads_lag_def monitored_def)

lemma send_emits:
  assumes "det_notifier d = Some (Notify N mcfg lg)" and "send d t sc sub b st now f w = (st', w')"
  shows "emits monitor_cmd w w'"
proof (cases "gate d (roll_hour st now) now f")
  case (Some l)
  with assms(2) show ?thesis by (auto simp: send_def Let_def)
next
  case None
  obtain e w1 where n: "Notify N mcfg lg sub b w = (e, w1)" by fastforce
  have "mails_only (issued w w1)" "extends w w1" using email.notify_once [OF n] by blast+
  then have "emits monitor_cmd w w1" by (auto simp: emits_def mails_only_def list_all_iff)
  moreover have "trace w' = trace w1"
    using assms None n by (auto simp: send_def Let_def split: option.splits)
  ultimately show ?thesis by (rule emits_then_same)
qed

lemma Observe_emits:
  assumes "det_notifier d = Some (Notify N mcfg lg)"
  shows "emits monitor_cmd w (snd (Detector_Observe d t s b su dt now w))"
proof -
  have s: "emits monitor_cmd v (snd (send d t sc sub bd st now f v'))" if "trace v' = trace v" for sc sub bd st f v v'
    using send_emits [OF assms, of t sc sub bd st now f v' _ "snd (send d t sc sub bd st now f v')"]
      emits_trans [OF emits_same [OF that]] by (metis prod.collapse)
  show ?thesis
    unfolding Detector_Observe_one observe_one_eq
    by (auto simp: observe_state_def observe_clear_def observe_breach_def Let_def intro!: s)
qed

lemma emits_gauge: "emits P v w \<Longrightarrow> emits P v (gauge_Set m ls x w)"
  by (erule emits_then_same) simp

lemma sample_reading_emits:
  assumes "det_notifier d = Some (Notify N mcfg lg)"
  shows "emits monitor_cmd w (snd (sample_reading cfg a kind r now d w))"
proof -
  have o: "emits monitor_cmd w (snd (Detector_Observe d' t s b su dt now v))"
    if "emits monitor_cmd w v" "det_notifier d' = Some (Notify N mcfg lg)" for d' t s b su dt v
    by (rule emits_trans [OF that(1) Observe_emits [OF that(2)]])
  show ?thesis
    using assms by (auto simp: sample_reading_def Let_def case_prod_unfold intro!: o emits_gauge)
qed

lemma sample_agent_emits:
  assumes "det_notifier d = Some (Notify N mcfg lg)" and "reads_lag a"
  shows "emits monitor_cmd w (snd (snd (sample_agent cfg hs c now a d w)))"
proof (cases "mo_Lag a")
  case (Some lk)
  then obtain lag kind where lk: "mo_Lag a = Some (lag, kind)" by (cases lk) simp
  obtain r w1 where l: "lag (with_timeout c (clock w) (5 * second)) w = (r, w1)" by fastforce
  have e: "emits monitor_cmd w w1"
    using assms(2) lk l by (auto simp: reads_lag_def) (metis snd_conv)
  show ?thesis
  proof (cases r)
    case (Inl err)
    with lk l e emits_trans [OF e Observe_emits [OF assms(1)]] show ?thesis
      by (simp add: sample_agent_def Let_def case_prod_unfold)
  next
    case (Inr rd)
    with lk l e emits_trans [OF e sample_reading_emits [OF assms(1)]] show ?thesis
      by (simp add: sample_agent_def Let_def case_prod_unfold)
  qed
qed (auto simp: sample_agent_def)

lemma sample_agents_emits:
  assumes "det_notifier d = Some (Notify N mcfg lg)" and "list_all reads_lag as"
  shows "emits monitor_cmd w (snd (snd (sample_agents cfg hs c now as snap d w)))"
  using assms
proof (induction as arbitrary: snap d w)
  case (Cons a as)
  obtain h d1 w1 where 1: "sample_agent cfg hs c now a d w = (h, d1, w1)" by (metis prod_cases3)
  have d1: "det_notifier d1 = Some (Notify N mcfg lg)"
    using sample_agent_config(2) [of cfg hs c now a d w] 1 Cons.prems(1) by simp
  have "emits monitor_cmd w w1" using sample_agent_emits [OF Cons.prems(1), of a w cfg hs c now] Cons.prems(2) 1 by simp
  from emits_trans [OF this] Cons.IH [OF d1] Cons.prems(2) show ?case by (simp add: 1)
qed auto

section \<open>The deployed agents\<close>

lemma loadFrom_distinct_ids:
  assumes "loadFrom pf host get = Inr cfg"
  shows "distinct (map a_ID (Config_Enabled cfg))"
proof -
  from loadFrom_Inr [OF assms] have "loadAgents get = Inr (c_Agents cfg)" by blast
  then have "distinct (map a_Key (c_Agents cfg)) \<and> (\<forall>a \<in> set (c_Agents cfg). a_Key a = NormaliseID (a_ID a))"
    by (auto simp: loadAgents_def Let_def split: if_splits dest!: load_ids_ok)
  then have "distinct (map a_ID (c_Agents cfg))" by (auto simp: distinct_map inj_on_def)
  then show ?thesis by (simp add: Config_Enabled_def distinct_map_filter)
qed

lemma run_start_built:
  assumes "run_start fuel u N R pf host get c w = (Inr p, w')"
  shows "list_all2 (built_for u R (pc_cfg p)) (Config_Enabled (pc_cfg p)) (pc_agents p) \<and>
    Config_Validate (pc_cfg p) = None \<and>
    issued w w' = PING # concat (map (build_cmds (pc_cfg p)) (Config_Enabled (pc_cfg p)))"
proof (rule run_start_inv [OF assms])
  fix w1 w2 w3
  assume 0: "loadFrom pf host get = Inr (pc_cfg p)" and t: "trace w1 = trace w" "trace w' = trace w3"
    and 2: "NewClient R (Addr (c_Redis (pc_cfg p))) (DB (c_Redis (pc_cfg p))) (pc_log p) c w1 = (None, w2)"
    and 3: "Build fuel u N R (pc_cfg p) (pc_log p) c w2 = (Inr (pc_agents p), w3)"
  note b = build_all_Inr [OF 3 [unfolded Build_def]]
  have e: "extends w w1" "issued w w1 = []" "extends w3 w'" "issued w3 w' = []" using t same_trace by blast+
  have "extends w w3" "issued w w3 = PING # concat (map (build_cmds (pc_cfg p)) (Config_Enabled (pc_cfg p)))"
    using NewClient_issued [OF 2] b e extends_trans [of w w1 w2] extends_trans [of w w2 w3] by simp_all
  with b loadFrom_Inr [OF 0] e extends_trans [of w w3 w'] show ?thesis by simp
qed

lemma run_start_succeeds:
  assumes "loadFrom pf host get = Inr cfg"
    and "\<And>w. fst (NewClient R (Addr (c_Redis cfg)) (DB (c_Redis cfg)) (NewLogger (LogLevel cfg)) c w) = None"
    and "\<And>w. \<exists>as w'. Build fuel u N R cfg (NewLogger (LogLevel cfg)) c w = (Inr as, w')"
  shows "\<exists>p w'. run_start fuel u N R pf host get c w = (Inr p, w')"
proof -
  define w1 where "w1 = log_at (NewLogger (LogLevel cfg)) LInfo ''starting''
    [(''component'', AStr ''main''), (''instance_id'', AStr (InstanceID cfg)),
     (''agents_configured'', AInt (int (length (c_Agents cfg)))),
     (''agents_enabled'', AInt (int (length (Config_Enabled cfg))))] w"
  obtain w2 where 2: "NewClient R (Addr (c_Redis cfg)) (DB (c_Redis cfg)) (NewLogger (LogLevel cfg)) c w1 = (None, w2)"
    using assms(2) [of w1] by (metis prod.collapse)
  obtain as w3 where 3: "Build fuel u N R cfg (NewLogger (LogLevel cfg)) c w2 = (Inr as, w3)" using assms(3) by blast
  show ?thesis by (simp add: run_start_def assms(1) Let_def w1_def [symmetric] 2 3)
qed

section \<open>An example\<close>

lemma one_entry_groups_ready: "groups_ready one_entry_rdb"
  by (simp add: groups_ready_def one_entry_rdb_def quiet_rdb_def still_def)

lemma example_build:
  obtains as w' where "Build 1 u example_net one_entry_rdb example_config (NewLogger ''info'') background example_world = (Inr as, w')"
  using build_all_succeeds [OF one_entry_groups_ready, of "Config_Enabled example_config" example_config]
    Validate_agents [OF example_config_valid] example_agents_known
  unfolding Build_def list_all_iff by blast

lemma example_build_ids:
  assumes "Build 1 u example_net one_entry_rdb example_config (NewLogger ''info'') background example_world = (Inr as, w')"
  shows "map built_ID as = [''events-ltr'', ''logs'', ''pending-reclaim'']"
proof -
  have "map a_ID (Config_Enabled example_config) = [''events-ltr'', ''logs'', ''pending-reclaim'']"
    by (simp add: Config_Enabled_def example_config_def example_agent_cfg_def)
  then show ?thesis using build_all_Inr [OF assms [unfolded Build_def]] list_all2_built_IDs by metis
qed

end
