(* ===== verification/Json.thy ===== *)
theory Json
  imports Prelude
begin

text \<open>
  The parts of Go's \<open>encoding/json\<close> and \<open>unicode/utf8\<close> that envelopes pass through: the scanner, a state
  machine over bytes with a stack of open brackets, that decides what a JSON value is and where it ends;
  compaction of raw values; and the quoting and unquoting of strings, which also replaces invalid UTF-8.
  Texts are byte strings.
\<close>

abbreviation byte :: "char \<Rightarrow> nat" where "byte c \<equiv> of_char c"
abbreviation dquote :: char where "dquote \<equiv> CHR 0x22"
abbreviation backslash :: char where "backslash \<equiv> CHR 0x5C"

section \<open>UTF-8\<close>

definition cont :: "char \<Rightarrow> bool" where
  "cont c \<longleftrightarrow> 0x80 \<le> byte c \<and> byte c \<le> 0xBF"

text \<open>\<open>utf8.DecodeRune\<close>: the length of the encoded character at the start of the bytes, and 0 where
  the library gives \<open>RuneError\<close> with width 1.\<close>

definition utf8_len :: "bytes \<Rightarrow> nat" where
  "utf8_len s =
     (case s of
        [] \<Rightarrow> 0
      | c # cs \<Rightarrow>
          (let n = byte c in
           if n < 0x80 then 1
           else if 0xC2 \<le> n \<and> n \<le> 0xDF
           then (case cs of d # _ \<Rightarrow> if cont d then 2 else 0 | _ \<Rightarrow> 0)
           else if 0xE0 \<le> n \<and> n \<le> 0xEF
           then (case cs of
                   d # e # _ \<Rightarrow>
                     if cont d \<and> cont e \<and> (n = 0xE0 \<longrightarrow> 0xA0 \<le> byte d) \<and> (n = 0xED \<longrightarrow> byte d \<le> 0x9F) then 3 else 0
                 | _ \<Rightarrow> 0)
           else if 0xF0 \<le> n \<and> n \<le> 0xF4
           then (case cs of
                   d # e # f # _ \<Rightarrow>
                     if cont d \<and> cont e \<and> cont f \<and> (n = 0xF0 \<longrightarrow> 0x90 \<le> byte d) \<and> (n = 0xF4 \<longrightarrow> byte d \<le> 0x8F)
                     then 4 else 0
                 | _ \<Rightarrow> 0)
           else 0))"

abbreviation replacement :: bytes where
  "replacement \<equiv> [CHR 0xEF, CHR 0xBF, CHR 0xBD]"

definition encode_rune :: "nat \<Rightarrow> bytes" where
  "encode_rune r =
     (if r < 0x80 then [char_of r]
      else if r < 0x800 then [char_of (0xC0 + r div 64), char_of (0x80 + r mod 64)]
      else if 0xD800 \<le> r \<and> r < 0xE000 \<or> 0x110000 \<le> r then replacement
      else if r < 0x10000
      then [char_of (0xE0 + r div 4096), char_of (0x80 + r div 64 mod 64), char_of (0x80 + r mod 64)]
      else [char_of (0xF0 + r div 262144), char_of (0x80 + r div 4096 mod 64), char_of (0x80 + r div 64 mod 64),
            char_of (0x80 + r mod 64)])"

section \<open>The scanner\<close>

datatype frame = ObjectKey | ObjectValue | ArrayValue

datatype scan =
    BeginValue | BeginValueOrEmpty | BeginString | BeginStringOrEmpty | EndValue
  | InString | InStringEsc | InStringEscU nat
  | NumNeg | Num1 | Num0 | NumDot | NumDot0 | NumE | NumESign | NumE0
  | Literal string

definition json_space :: "char \<Rightarrow> bool" where
  "json_space c \<longleftrightarrow> c = CHR '' '' \<or> byte c = 9 \<or> byte c = 10 \<or> byte c = 13"

definition hex_val :: "char \<Rightarrow> nat option" where
  "hex_val c =
     (let n = byte c in
      if 48 \<le> n \<and> n \<le> 57 then Some (n - 48)
      else if 97 \<le> n \<and> n \<le> 102 then Some (n - 87)
      else if 65 \<le> n \<and> n \<le> 70 then Some (n - 55)
      else None)"

type_synonym machine = "scan \<times> frame list"

text \<open>After a value, by the innermost open bracket.\<close>

fun step_end :: "frame list \<Rightarrow> char \<Rightarrow> machine option" where
  "step_end [] c = None"
| "step_end (ObjectKey # fs) c =
     (if json_space c then Some (EndValue, ObjectKey # fs)
      else if c = CHR '':'' then Some (BeginValue, ObjectValue # fs) else None)"
| "step_end (ObjectValue # fs) c =
     (if json_space c then Some (EndValue, ObjectValue # fs)
      else if c = CHR '','' then Some (BeginString, ObjectKey # fs)
      else if c = CHR ''}'' then Some (EndValue, fs) else None)"
| "step_end (ArrayValue # fs) c =
     (if json_space c then Some (EndValue, ArrayValue # fs)
      else if c = CHR '','' then Some (BeginValue, ArrayValue # fs)
      else if c = CHR '']'' then Some (EndValue, fs) else None)"

text \<open>The start of a value; \<open>lim\<close> bounds the number of open brackets.\<close>

definition begin_value :: "nat \<Rightarrow> frame list \<Rightarrow> char \<Rightarrow> machine option" where
  "begin_value lim fs c =
     (if json_space c then Some (BeginValue, fs)
      else if c = CHR ''{'' then (if length fs < lim then Some (BeginStringOrEmpty, ObjectKey # fs) else None)
      else if c = CHR ''['' then (if length fs < lim then Some (BeginValueOrEmpty, ArrayValue # fs) else None)
      else if c = dquote then Some (InString, fs)
      else if c = CHR ''-'' then Some (NumNeg, fs)
      else if c = CHR ''0'' then Some (Num0, fs)
      else if c = CHR ''t'' then Some (Literal ''rue'', fs)
      else if c = CHR ''f'' then Some (Literal ''alse'', fs)
      else if c = CHR ''n'' then Some (Literal ''ull'', fs)
      else if is_digit c then Some (Num1, fs)
      else None)"

definition begin_string :: "frame list \<Rightarrow> char \<Rightarrow> machine option" where
  "begin_string fs c =
     (if json_space c then Some (BeginString, fs) else if c = dquote then Some (InString, fs) else None)"

definition is_exp :: "char \<Rightarrow> bool" where
  "is_exp c \<longleftrightarrow> c = CHR ''e'' \<or> c = CHR ''E''"

definition escape_letter :: "char \<Rightarrow> bool" where
  "escape_letter c \<longleftrightarrow> c \<in> {CHR ''b'', CHR ''f'', CHR ''n'', CHR ''r'', CHR ''t'', backslash, CHR ''/'', dquote}"

fun step :: "nat \<Rightarrow> machine \<Rightarrow> char \<Rightarrow> machine option" where
  "step lim (BeginValue, fs) c = begin_value lim fs c"
| "step lim (BeginValueOrEmpty, fs) c =
     (if json_space c then Some (BeginValueOrEmpty, fs)
      else if c = CHR '']'' then step_end fs c else begin_value lim fs c)"
| "step lim (BeginString, fs) c = begin_string fs c"
| "step lim (BeginStringOrEmpty, fs) c =
     (if json_space c then Some (BeginStringOrEmpty, fs)
      else if c = CHR ''}'' then step_end (ObjectValue # tl fs) c else begin_string fs c)"
| "step lim (EndValue, fs) c = step_end fs c"
| "step lim (InString, fs) c =
     (if c = dquote then Some (EndValue, fs)
      else if c = backslash then Some (InStringEsc, fs)
      else if byte c < 32 then None else Some (InString, fs))"
| "step lim (InStringEsc, fs) c =
     (if escape_letter c then Some (InString, fs)
      else if c = CHR ''u'' then Some (InStringEscU 4, fs) else None)"
| "step lim (InStringEscU k, fs) c =
     (if hex_val c = None then None else Some (if k \<le> 1 then InString else InStringEscU (k - 1), fs))"
| "step lim (NumNeg, fs) c =
     (if c = CHR ''0'' then Some (Num0, fs) else if is_digit c then Some (Num1, fs) else None)"
| "step lim (Num1, fs) c =
     (if is_digit c then Some (Num1, fs)
      else if c = CHR ''.'' then Some (NumDot, fs) else if is_exp c then Some (NumE, fs) else step_end fs c)"
| "step lim (Num0, fs) c =
     (if c = CHR ''.'' then Some (NumDot, fs) else if is_exp c then Some (NumE, fs) else step_end fs c)"
| "step lim (NumDot, fs) c = (if is_digit c then Some (NumDot0, fs) else None)"
| "step lim (NumDot0, fs) c =
     (if is_digit c then Some (NumDot0, fs) else if is_exp c then Some (NumE, fs) else step_end fs c)"
| "step lim (NumE, fs) c =
     (if c = CHR ''+'' \<or> c = CHR ''-'' then Some (NumESign, fs)
      else if is_digit c then Some (NumE0, fs) else None)"
| "step lim (NumESign, fs) c = (if is_digit c then Some (NumE0, fs) else None)"
| "step lim (NumE0, fs) c = (if is_digit c then Some (NumE0, fs) else step_end fs c)"
| "step lim (Literal [], fs) c = None"
| "step lim (Literal (l # ls), fs) c =
     (if c = l then Some (if ls = [] then EndValue else Literal ls, fs) else None)"

text \<open>Whether a value can end in a state, and whether a byte continues it.\<close>

fun complete :: "scan \<Rightarrow> bool" where
  "complete EndValue = True" | "complete Num1 = True" | "complete Num0 = True"
| "complete NumDot0 = True" | "complete NumE0 = True" | "complete _ = False"

fun continues :: "scan \<Rightarrow> char \<Rightarrow> bool" where
  "continues Num1 c = (is_digit c \<or> c = CHR ''.'' \<or> is_exp c)"
| "continues Num0 c = (c = CHR ''.'' \<or> is_exp c)"
| "continues NumDot0 c = (is_digit c \<or> is_exp c)"
| "continues NumE0 c = is_digit c"
| "continues _ c = False"

fun run :: "nat \<Rightarrow> machine \<Rightarrow> bytes \<Rightarrow> machine option" where
  "run lim x [] = Some x"
| "run lim x (c # cs) = (case step lim x c of None \<Rightarrow> None | Some y \<Rightarrow> run lim y cs)"

text \<open>The value at the start of the bytes, and the rest.\<close>

definition stops :: "machine \<Rightarrow> bytes \<Rightarrow> bool" where
  "stops x bs \<longleftrightarrow> snd x = [] \<and> complete (fst x) \<and> (bs = [] \<or> \<not> continues (fst x) (hd bs))"

fun value_split :: "nat \<Rightarrow> machine \<Rightarrow> bytes \<Rightarrow> (bytes \<times> bytes) option" where
  "value_split lim x [] = (if stops x [] then Some ([], []) else None)"
| "value_split lim x (c # cs) =
     (if stops x (c # cs) then Some ([], c # cs)
      else case step lim x c of
        None \<Rightarrow> None
      | Some y \<Rightarrow> (case value_split lim y cs of None \<Rightarrow> None | Some (v, r) \<Rightarrow> Some (c # v, r)))"

definition scan_value :: "nat \<Rightarrow> bytes \<Rightarrow> (bytes \<times> bytes) option" where
  "scan_value lim bs = value_split lim (BeginValue, []) bs"

section \<open>Compaction\<close>

fun in_string :: "scan \<Rightarrow> bool" where
  "in_string InString = True" | "in_string InStringEsc = True" | "in_string (InStringEscU _) = True"
| "in_string _ = False"

text \<open>A run over a text with no space between its tokens.\<close>

fun run_tight :: "nat \<Rightarrow> machine \<Rightarrow> bytes \<Rightarrow> machine option" where
  "run_tight lim x [] = Some x"
| "run_tight lim x (c # cs) =
     (if json_space c \<and> \<not> in_string (fst x) then None
      else case step lim x c of None \<Rightarrow> None | Some y \<Rightarrow> run_tight lim y cs)"

text \<open>Space between tokens is dropped; after the value only space may follow.\<close>

fun strip :: "nat \<Rightarrow> machine \<Rightarrow> bytes \<Rightarrow> bytes option" where
  "strip lim x [] = (if stops x [] then Some [] else None)"
| "strip lim x (c # cs) =
     (if stops x (c # cs) then (if list_all json_space (c # cs) then Some [] else None)
      else case step lim x c of
        None \<Rightarrow> None
      | Some y \<Rightarrow>
          (case strip lim y cs of
             None \<Rightarrow> None
           | Some r \<Rightarrow> Some (if json_space c \<and> \<not> in_string (fst x) then r else c # r)))"

definition u_escape :: "nat \<Rightarrow> bytes" where
  "u_escape n = [backslash, CHR ''u'', hex_char (n div 4096), hex_char (n div 256 mod 16), hex_char (n div 16 mod 16), hex_char (n mod 16)]"

definition html_special :: "char \<Rightarrow> bool" where
  "html_special c \<longleftrightarrow> c = CHR ''<'' \<or> c = CHR ''>'' \<or> c = CHR ''&''"

text \<open>U+2028 or U+2029 at the start.\<close>

fun line_separator :: "bytes \<Rightarrow> bool" where
  "line_separator (a # b # c # _) = (byte a = 0xE2 \<and> byte b = 0x80 \<and> (byte c = 0xA8 \<or> byte c = 0xA9))"
| "line_separator _ = False"

function html_escape :: "bytes \<Rightarrow> bytes" where
  "html_escape s =
     (case s of
        [] \<Rightarrow> []
      | c # cs \<Rightarrow>
          if html_special c then u_escape (byte c) @ html_escape cs
          else if line_separator s then u_escape (0x2028 + (byte (s ! 2) - 0xA8)) @ html_escape (drop 3 s)
          else c # html_escape cs)"
  by pat_completeness auto
termination
  by (relation "measure length") auto

definition maxNestingDepth :: nat where "maxNestingDepth = 10000"

definition compact :: "bytes \<Rightarrow> bytes option" where
  "compact s = map_option html_escape (strip maxNestingDepth (BeginValue, []) s)"

section \<open>Strings\<close>

text \<open>\<open>appendString\<close> with HTML escaping, without the quotes.\<close>

definition escape_ascii :: "char \<Rightarrow> bytes" where
  "escape_ascii c =
     (let n = byte c in
      if c = dquote \<or> c = backslash then [backslash, c]
      else if n = 8 then [backslash, CHR ''b''] else if n = 12 then [backslash, CHR ''f'']
      else if n = 10 then [backslash, CHR ''n''] else if n = 13 then [backslash, CHR ''r'']
      else if n = 9 then [backslash, CHR ''t'']
      else if n < 32 \<or> html_special c then u_escape n
      else [c])"

function escape_string :: "bytes \<Rightarrow> bytes" where
  "escape_string s =
     (case s of
        [] \<Rightarrow> []
      | c # cs \<Rightarrow>
          if byte c < 0x80 then escape_ascii c @ escape_string cs
          else if utf8_len s = 0 then u_escape 0xFFFD @ escape_string cs
          else if line_separator s then u_escape (0x2028 + (byte (s ! 2) - 0xA8)) @ escape_string (drop 3 s)
          else take (utf8_len s) s @ escape_string (drop (utf8_len s) s))"
  by pat_completeness auto
termination
  by (relation "measure length") auto

definition quote_string :: "bytes \<Rightarrow> bytes" where
  "quote_string s = dquote # escape_string s @ [dquote]"

text \<open>\<open>getu4\<close> after \<open>\u\<close>.\<close>

fun getu4 :: "bytes \<Rightarrow> (nat \<times> bytes) option" where
  "getu4 (a # b # c # d # r) =
     (case (hex_val a, hex_val b, hex_val c, hex_val d) of
        (Some p, Some q, Some s, Some t) \<Rightarrow> Some (4096 * p + 256 * q + 16 * s + t, r)
      | _ \<Rightarrow> None)"
| "getu4 _ = None"

definition surrogate_pair :: "nat \<Rightarrow> nat \<Rightarrow> nat option" where
  "surrogate_pair a b =
     (if 0xD800 \<le> a \<and> a < 0xDC00 \<and> 0xDC00 \<le> b \<and> b < 0xE000
      then Some ((a - 0xD800) * 1024 + (b - 0xDC00) + 0x10000) else None)"

text \<open>The second half of a surrogate pair, when it follows.\<close>

definition low_surrogate :: "nat \<Rightarrow> bytes \<Rightarrow> (nat \<times> bytes) option" where
  "low_surrogate a s =
     (case s of
        b # u # r \<Rightarrow>
          (if b = backslash \<and> u = CHR ''u''
           then (case getu4 r of
                   None \<Rightarrow> None
                 | Some (n, r1) \<Rightarrow> (case surrogate_pair a n of None \<Rightarrow> None | Some d \<Rightarrow> Some (d, r1)))
           else None)
      | _ \<Rightarrow> None)"

definition unescape :: "char \<Rightarrow> char" where
  "unescape e =
     (if e = CHR ''b'' then CHR 0x08 else if e = CHR ''f'' then CHR 0x0C else if e = CHR ''n'' then CHR 0x0A
      else if e = CHR ''r'' then CHR 0x0D else if e = CHR ''t'' then CHR 0x09 else e)"

text \<open>One character of a literal that the scanner has accepted: what it stands for and the rest.\<close>

definition unquote_one :: "char \<Rightarrow> bytes \<Rightarrow> bytes \<times> bytes" where
  "unquote_one c cs =
     (if c = backslash then
        (case cs of
           [] \<Rightarrow> ([], [])
         | e # r \<Rightarrow>
             if e = CHR ''u'' then
               (case getu4 r of
                  None \<Rightarrow> ([], [])
                | Some (n, r1) \<Rightarrow>
                    if 0xD800 \<le> n \<and> n < 0xE000
                    then (case low_surrogate n r1 of None \<Rightarrow> (replacement, r1) | Some (d, r2) \<Rightarrow> (encode_rune d, r2))
                    else (encode_rune n, r1))
             else if escape_letter e then ([unescape e], r) else ([], []))
      else if byte c < 0x80 then ([c], cs)
      else if utf8_len (c # cs) = 0 then (replacement, cs)
      else (take (utf8_len (c # cs)) (c # cs), drop (utf8_len (c # cs)) (c # cs)))"

lemma getu4_length: "getu4 s = Some (n, r) \<Longrightarrow> length r < length s"
  by (cases s rule: getu4.cases) (auto split: option.splits)

lemma utf8_len_pos: "utf8_len (c # cs) \<noteq> 0 \<Longrightarrow> length (drop (utf8_len (c # cs)) (c # cs)) < Suc (length cs)"
  by simp

lemma unquote_one_length: "length (snd (unquote_one c cs)) < Suc (length cs)"
  by (auto simp: unquote_one_def low_surrogate_def split: list.split option.split dest!: getu4_length)

function unquote :: "bytes \<Rightarrow> bytes" where
  "unquote s =
     (case s of [] \<Rightarrow> [] | c # cs \<Rightarrow> (case unquote_one c cs of (out, r) \<Rightarrow> out @ unquote r))"
  by pat_completeness auto
termination
  by (relation "measure length") (auto, metis snd_conv unquote_one_length)

section \<open>Lemmas on scanning\<close>

declare html_escape.simps [simp del] escape_string.simps [simp del] unquote.simps [simp del]

lemma run_append: "run lim x (xs @ ys) = (case run lim x xs of None \<Rightarrow> None | Some y \<Rightarrow> run lim y ys)"
  by (induction xs arbitrary: x) (auto split: option.split)

lemma run_tight_append: "run_tight lim x (xs @ ys) = (case run_tight lim x xs of None \<Rightarrow> None | Some y \<Rightarrow> run_tight lim y ys)"
  by (induction xs arbitrary: x) (auto split: option.split)

lemma run_tight_run: "run_tight lim x v = Some y \<Longrightarrow> run lim x v = Some y"
  by (induction v arbitrary: x) (auto split: if_splits option.splits)

lemma run_run_tight: "run lim x v = Some y \<Longrightarrow> \<forall>c \<in> set v. \<not> json_space c \<Longrightarrow> run_tight lim x v = Some y"
  by (induction v arbitrary: x) (auto split: option.splits)

lemma run_Cons_Some: "step lim x c = Some y \<Longrightarrow> run lim x (c # cs) = run lim y cs"
  by simp

lemma stops_step: "stops x (c # cs) \<Longrightarrow> step lim x c = None"
  by (cases "(lim, x, c)" rule: step.cases) (auto simp: stops_def)

text \<open>A value that the machine accepts is split off whole, whatever follows, if that does not continue it.\<close>

lemma value_split_run:
  "run lim x v = Some y \<Longrightarrow> stops y rest \<Longrightarrow> value_split lim x (v @ rest) = Some (v, rest)"
proof (induction v arbitrary: x)
  case Nil
  then show ?case by (cases rest) auto
next
  case (Cons c cs)
  then obtain z where z: "step lim x c = Some z" "run lim z cs = Some y" by (auto split: option.splits)
  then have "\<not> stops x (c # cs @ rest)" using stops_step by fastforce
  with z Cons.IH [OF z(2) Cons.prems(2)] show ?case by simp
qed

lemma value_split_append: "value_split lim x bs = Some (v, r) \<Longrightarrow> bs = v @ r"
  by (induction lim x bs arbitrary: v rule: value_split.induct) (auto split: if_splits option.splits)

lemma scan_value_shorter: "scan_value lim bs = Some (v, r) \<Longrightarrow> length r < length bs"
proof -
  assume s: "scan_value lim bs = Some (v, r)"
  have "\<not> stops (BeginValue, []) bs" for bs by (simp add: stops_def)
  with s have "v \<noteq> []" by (cases bs) (auto simp: scan_value_def split: option.splits)
  with value_split_append [OF s [unfolded scan_value_def]] show ?thesis by (cases v) auto
qed

lemma strip_length: "strip lim x bs = Some q \<Longrightarrow> length q \<le> length bs"
  by (induction lim x bs arbitrary: q rule: strip.induct) (auto split: if_splits option.splits intro: le_SucI)

lemma strip_fixed:
  "strip lim x bs = Some bs \<Longrightarrow> \<exists>y. run lim x bs = Some y \<and> stops y []"
proof (induction lim x bs rule: strip.induct)
  case (1 lim x)
  then show ?case by (auto split: if_splits)
next
  case (2 lim x c cs)
  have ns: "\<not> stops x (c # cs)" using "2.prems" by (auto split: if_splits)
  then obtain y r where y: "step lim x c = Some y" "strip lim y cs = Some r"
    and r: "(if json_space c \<and> \<not> in_string (fst x) then r else c # r) = c # cs"
    using "2.prems" by (auto split: option.splits)
  from r have "r = cs \<or> length r > length cs" by (auto split: if_splits)
  with strip_length [OF y(2)] have "r = cs" by auto
  with y(2) "2.IH" [OF ns y(1)] y(1) show ?case by simp
qed

lemma strip_fixed_hd: "strip lim (BeginValue, []) (c # cs) = Some (c # cs) \<Longrightarrow> \<not> json_space c"
proof
  assume s: "strip lim (BeginValue, []) (c # cs) = Some (c # cs)" and c: "json_space c"
  then have "step lim (BeginValue, []) c = Some (BeginValue, [])" by (simp add: begin_value_def)
  with s c obtain r where "strip lim (BeginValue, []) cs = Some r" "r = c # cs"
    by (auto simp: stops_def split: option.splits)
  then show False using strip_length by fastforce
qed

section \<open>Lemmas on strings\<close>

lemma utf8_len_cases:
  assumes "utf8_len s \<noteq> 0"
  obtains (one) c r where "s = c # r" "byte c < 0x80" "utf8_len s = 1"
  | (two) c d r where "s = c # d # r" "0xC2 \<le> byte c" "byte c \<le> 0xDF" "cont d" "utf8_len s = 2"
  | (three) c d e r where "s = c # d # e # r" "0xE0 \<le> byte c" "byte c \<le> 0xEF" "cont d" "cont e" "utf8_len s = 3"
  | (four) c d e f r where "s = c # d # e # f # r" "0xF0 \<le> byte c" "byte c \<le> 0xF4" "cont d" "cont e" "cont f" "utf8_len s = 4"
  using assms unfolding utf8_len_def
  by (auto simp: Let_def split: list.splits if_splits)

lemma utf8_len_prefix:
  assumes "utf8_len s \<noteq> 0"
  shows "utf8_len (take (utf8_len s) s @ t) = utf8_len s \<and> utf8_len s \<le> length s"
  using assms by (cases rule: utf8_len_cases) (auto simp: utf8_len_def Let_def split: if_splits)

lemma utf8_rest_high: "utf8_len s \<noteq> 0 \<Longrightarrow> 0x80 \<le> byte (hd s) \<Longrightarrow> c \<in> set (take (utf8_len s) s) \<Longrightarrow> 0x80 \<le> byte c"
  by (erule utf8_len_cases) (auto simp: cont_def)

text \<open>What the decoder and the encoder make of a text: every byte that is not part of a valid character is
  replaced.\<close>

function utf8_fix :: "bytes \<Rightarrow> bytes" where
  "utf8_fix s =
     (case s of
        [] \<Rightarrow> []
      | c # cs \<Rightarrow>
          if utf8_len s = 0 then replacement @ utf8_fix cs
          else take (utf8_len s) s @ utf8_fix (drop (utf8_len s) s))"
  by pat_completeness auto
termination
  by (relation "measure length") auto

declare utf8_fix.simps [simp del]

lemma string_Nil [simp]: "utf8_fix [] = []" "escape_string [] = []" "unquote [] = []"
  by (simp_all add: utf8_fix.simps escape_string.simps unquote.simps)

lemma unquote_Cons: "unquote (c # cs) = fst (unquote_one c cs) @ unquote (snd (unquote_one c cs))"
  by (subst unquote.simps) (simp add: case_prod_unfold)

lemma byte_char: "byte c = n \<Longrightarrow> c = char_of n"
  by (metis char_of_char)

lemma char_literals:
  "char_of (8 :: nat) = CHR 0x08" "char_of (9 :: nat) = CHR 0x09" "char_of (10 :: nat) = CHR 0x0A"
  "char_of (12 :: nat) = CHR 0x0C" "char_of (13 :: nat) = CHR 0x0D"
  "char_of (0xE2 :: nat) = CHR 0xE2" "char_of (0x80 :: nat) = CHR 0x80" "char_of (0xA8 :: nat) = CHR 0xA8"
  "char_of (0xA9 :: nat) = CHR 0xA9" "char_of (0xEF :: nat) = CHR 0xEF" "char_of (0xBF :: nat) = CHR 0xBF"
  "char_of (0xBD :: nat) = CHR 0xBD"
  by code_simp+

lemma byte_hex_char: "n < 16 \<Longrightarrow> byte (hex_char n) = (if n < 10 then 48 + n else 87 + n)"
  by (simp add: hex_char_def)

lemma hex_val_hex_char: "n < 16 \<Longrightarrow> hex_val (hex_char n) = Some n"
  by (simp add: hex_val_def byte_hex_char)

lemma hex_digits:
  "4096 * (n div 4096) + 256 * (n div 256 mod 16) + 16 * (n div 16 mod 16) + n mod 16 = (n :: nat)"
proof -
  have "n div 16 div 16 = n div 256" "n div 256 div 16 = n div 4096" by (simp_all add: div_mult2_eq [symmetric])
  then have "n = 16 * (n div 16) + n mod 16" "n div 16 = 16 * (n div 256) + n div 16 mod 16"
    "n div 256 = 16 * (n div 4096) + n div 256 mod 16"
    using mult_div_mod_eq [of 16 n] mult_div_mod_eq [of 16 "n div 16"] mult_div_mod_eq [of 16 "n div 256"] by simp_all
  then show ?thesis by linarith
qed

lemma getu4_u_escape:
  assumes "n < 65536"
  shows "getu4 (drop 2 (u_escape n) @ r) = Some (n, r)"
proof -
  have "hex_val (hex_char (n div 4096)) = Some (n div 4096)" "hex_val (hex_char (n div 256 mod 16)) = Some (n div 256 mod 16)"
    "hex_val (hex_char (n div 16 mod 16)) = Some (n div 16 mod 16)" "hex_val (hex_char (n mod 16)) = Some (n mod 16)"
    using assms by (simp_all add: hex_val_hex_char div_less_iff_less_mult)
  moreover have "drop 2 (u_escape n) @ r =
      hex_char (n div 4096) # hex_char (n div 256 mod 16) # hex_char (n div 16 mod 16) # hex_char (n mod 16) # r"
    by (simp only: u_escape_def numeral_2_eq_2 drop_Suc_Cons drop_0 append_Cons append_Nil)
  ultimately have "getu4 (drop 2 (u_escape n) @ r) =
      Some (4096 * (n div 4096) + 256 * (n div 256 mod 16) + 16 * (n div 16 mod 16) + n mod 16, r)"
    by (simp only: getu4.simps option.case prod.case)
  then show ?thesis by (simp only: hex_digits)
qed

lemma unquote_u_escape:
  assumes "n < 65536" and "n < 0xD800 \<or> 0xE000 \<le> n"
  shows "unquote (u_escape n @ r) = encode_rune n @ unquote r"
proof -
  have "u_escape n @ r = backslash # CHR ''u'' # (drop 2 (u_escape n) @ r)" by (simp add: u_escape_def)
  then have "unquote (u_escape n @ r) = unquote (backslash # CHR ''u'' # (drop 2 (u_escape n) @ r))" by (rule arg_cong)
  also have "\<dots> = encode_rune n @ unquote r"
    unfolding unquote_Cons [of backslash]
    using getu4_u_escape [OF assms(1), of r] assms(2) by (auto simp: unquote_one_def)
  finally show ?thesis .
qed

lemma unquote_escape_ascii:
  assumes "byte c < 0x80"
  shows "unquote (escape_ascii c @ r) = c # unquote r"
proof (cases "escape_ascii c = u_escape (byte c)")
  case True
  with assms unquote_u_escape [of "byte c" r] show ?thesis by (simp add: encode_rune_def)
next
  case False
  with assms show ?thesis
    by (auto simp: escape_ascii_def Let_def unquote_Cons unquote_one_def unescape_def escape_letter_def char_literals
        dest: byte_char split: if_splits)
qed

lemma line_separator_parts:
  assumes "line_separator s"
  shows "utf8_len s = 3" "encode_rune (0x2028 + (byte (s ! 2) - 0xA8)) = take 3 s"
    "0x2028 + (byte (s ! 2) - 0xA8) < 65536" "0x2028 + (byte (s ! 2) - 0xA8) < 0xD800"
proof -
  obtain a b c r where s: "s = a # b # c # r" "byte a = 0xE2" "byte b = 0x80" "byte c = 0xA8 \<or> byte c = 0xA9"
    using assms by (cases s rule: line_separator.cases) auto
  then have abc: "a = CHR 0xE2" "b = CHR 0x80" "c = CHR 0xA8 \<or> c = CHR 0xA9"
    using byte_char [of a] byte_char [of b] byte_char [of c "0xA8"] byte_char [of c "0xA9"] by (auto simp: char_literals)
  show "utf8_len s = 3" using s by (auto simp: utf8_len_def cont_def)
  show "encode_rune (0x2028 + (byte (s ! 2) - 0xA8)) = take 3 s" using s(1,4) abc by (auto simp: encode_rune_def char_literals)
  show "0x2028 + (byte (s ! 2) - 0xA8) < 65536" "0x2028 + (byte (s ! 2) - 0xA8) < 0xD800" using s by auto
qed

lemma unquote_high:
  assumes "utf8_len s \<noteq> 0" and "0x80 \<le> byte (hd s)"
  shows "unquote (take (utf8_len s) s @ r) = take (utf8_len s) s @ unquote r"
proof -
  obtain c cs where c: "take (utf8_len s) s = c # cs" "c = hd s" 
    using assms(1) by (cases s; cases "utf8_len s") (auto simp: utf8_len_def)
  have len: "utf8_len (c # cs @ r) = utf8_len s" "utf8_len s = Suc (length cs)"
    using utf8_len_prefix [OF assms(1), of r] c(1) by (auto simp: min_def) (metis length_Cons length_take min.absorb2)
  show ?thesis using assms c len by (auto simp: unquote_Cons unquote_one_def)
qed

text \<open>Quoting and unquoting a text gives the text back, with invalid bytes replaced.\<close>

lemma unquote_escape_string: "unquote (escape_string s) = utf8_fix s"
proof (induction s rule: escape_string.induct)
  case (1 s)
  show ?case
  proof (cases s)
    case (Cons c cs)
    note IH = "1.IH" [OF Cons]
    consider (ascii) "byte c < 0x80" | (bad) "0x80 \<le> byte c" "utf8_len s = 0"
      | (sep) "0x80 \<le> byte c" "utf8_len s \<noteq> 0" "line_separator s" | (high) "0x80 \<le> byte c" "utf8_len s \<noteq> 0" "\<not> line_separator s"
      by linarith
    then show ?thesis
    proof cases
      case ascii
      then have "utf8_len s = 1" by (simp add: utf8_len_def Cons)
      with ascii IH(1) Cons unquote_escape_ascii [OF ascii] show ?thesis
        by (simp add: escape_string.simps [of "c # cs"] utf8_fix.simps [of "c # cs"])
    next
      case bad
      have "encode_rune 0xFFFD = replacement" by (simp add: encode_rune_def char_literals)
      with bad IH(2) Cons unquote_u_escape [of "0xFFFD"] show ?thesis
        by (simp add: escape_string.simps [of "c # cs"] utf8_fix.simps [of "c # cs"])
    next
      case sep
      with IH(3) Cons unquote_u_escape [OF line_separator_parts(3) [OF sep(3)]] line_separator_parts [OF sep(3)] show ?thesis
        by (simp add: escape_string.simps [of "c # cs"] utf8_fix.simps [of "c # cs"])
    next
      case high
      with IH(4) Cons unquote_high [of s] show ?thesis
        by (simp add: escape_string.simps [of "c # cs"] utf8_fix.simps [of "c # cs"])
    qed
  qed simp
qed

text \<open>The scanner reads a quoted text as one value.\<close>

lemma run_u_escape:
  assumes "n < 65536"
  shows "run lim (InString, fs) (u_escape n) = Some (InString, fs)"
proof -
  have "hex_val (hex_char (n div 4096)) \<noteq> None" "hex_val (hex_char (n div 256 mod 16)) \<noteq> None"
    "hex_val (hex_char (n div 16 mod 16)) \<noteq> None" "hex_val (hex_char (n mod 16)) \<noteq> None"
    using assms by (simp_all add: hex_val_hex_char div_less_iff_less_mult)
  moreover have "\<not> escape_letter CHR ''u''" by (simp add: escape_letter_def)
  ultimately show ?thesis by (simp add: u_escape_def)
qed

lemma run_escape_ascii: "byte c < 0x80 \<Longrightarrow> run lim (InString, fs) (escape_ascii c) = Some (InString, fs)"
  using run_u_escape [of "byte c" lim fs] by (auto simp: escape_ascii_def escape_letter_def Let_def)

lemma run_high: "\<forall>c \<in> set cs. 0x80 \<le> byte c \<Longrightarrow> run lim (InString, fs) cs = Some (InString, fs)"
  by (induction cs) auto

text \<open>Inside a string a space is part of the text.\<close>

lemma u_escape_no_space: "n < 65536 \<Longrightarrow> \<forall>c \<in> set (u_escape n). \<not> json_space c"
proof -
  assume "n < 65536"
  then have "n div 4096 < 16" by (simp add: div_less_iff_less_mult)
  moreover have "\<not> json_space (hex_char k)" if "k < 16" for k
    using byte_hex_char [OF that] that by (auto simp: json_space_def split: if_splits)
  ultimately show ?thesis by (auto simp: u_escape_def json_space_def [of backslash] json_space_def [of "CHR ''u''"])
qed

lemma run_tight_u_escape: "n < 65536 \<Longrightarrow> run_tight lim (InString, fs) (u_escape n) = Some (InString, fs)"
  by (simp add: run_run_tight run_u_escape u_escape_no_space)

lemma run_tight_escape_ascii: "byte c < 0x80 \<Longrightarrow> run_tight lim (InString, fs) (escape_ascii c) = Some (InString, fs)"
  using run_tight_u_escape [of "byte c" lim fs] by (auto simp: escape_ascii_def escape_letter_def Let_def)

lemma run_tight_high: "\<forall>c \<in> set cs. 0x80 \<le> byte c \<Longrightarrow> run_tight lim (InString, fs) cs = Some (InString, fs)"
  by (induction cs) auto

lemma run_tight_escape_string: "run_tight lim (InString, fs) (escape_string s) = Some (InString, fs)"
proof (induction s rule: escape_string.induct)
  case (1 s)
  show ?case
  proof (cases s)
    case (Cons c cs)
    note IH = "1.IH" [OF Cons]
    consider (ascii) "byte c < 0x80" | (bad) "0x80 \<le> byte c" "utf8_len s = 0"
      | (sep) "0x80 \<le> byte c" "utf8_len s \<noteq> 0" "line_separator s" | (high) "0x80 \<le> byte c" "utf8_len s \<noteq> 0" "\<not> line_separator s"
      by linarith
    then show ?thesis
    proof cases
      case ascii
      with IH(1) Cons run_tight_escape_ascii [OF ascii] show ?thesis
        by (simp add: escape_string.simps [of "c # cs"] run_tight_append)
    next
      case bad
      with IH(2) Cons run_tight_u_escape [of "0xFFFD"] show ?thesis
        by (simp add: escape_string.simps [of "c # cs"] run_tight_append)
    next
      case sep
      with IH(3) Cons run_tight_u_escape [OF line_separator_parts(3) [OF sep(3)]] show ?thesis
        by (simp add: escape_string.simps [of "c # cs"] run_tight_append)
    next
      case high
      have "run_tight lim (InString, fs) (take (utf8_len s) s) = Some (InString, fs)"
        using utf8_rest_high [OF high(2)] high(1) Cons by (intro run_tight_high) simp
      with high IH(4) Cons show ?thesis
        by (simp add: escape_string.simps [of "c # cs"] run_tight_append)
    qed
  qed simp
qed

lemma run_tight_quote_string: "run_tight lim (BeginValue, fs) (quote_string s) = Some (EndValue, fs)"
  by (simp add: quote_string_def run_tight_append run_tight_escape_string begin_value_def json_space_def)

lemma run_quote_string: "run lim (BeginValue, fs) (quote_string s) = Some (EndValue, fs)"
  by (rule run_tight_run [OF run_tight_quote_string])

lemma stops_EndValue [simp]: "stops (EndValue, []) r"
  by (simp add: stops_def)

lemma scan_quote_string: "scan_value lim (quote_string s @ r) = Some (quote_string s, r)"
  unfolding scan_value_def by (rule value_split_run [OF run_quote_string]) simp

lemma unquote_quote_string: "unquote (butlast (tl (quote_string s))) = utf8_fix s"
  by (simp add: quote_string_def unquote_escape_string)

section \<open>Raw values\<close>

lemma value_split_runs: "value_split lim x bs = Some (v, r) \<Longrightarrow> \<exists>y. run lim x v = Some y \<and> stops y r"
  by (induction lim x bs arbitrary: v rule: value_split.induct) (auto split: if_splits option.splits)

lemma stops_end: "stops y r \<Longrightarrow> stops y []"
  by (simp add: stops_def)

lemma step_lim: "step lim x c = Some y \<Longrightarrow> lim \<le> lim' \<Longrightarrow> step lim' x c = Some y"
  by (cases "(lim, x, c)" rule: step.cases) (auto simp: begin_value_def split: if_splits)

lemma run_lim: "run lim x v = Some y \<Longrightarrow> lim \<le> lim' \<Longrightarrow> run lim' x v = Some y"
  by (induction v arbitrary: x) (auto split: option.splits dest: step_lim)

lemma strip_lim: "strip lim x v = Some q \<Longrightarrow> lim \<le> lim' \<Longrightarrow> strip lim' x v = Some q"
proof (induction lim x v arbitrary: q rule: strip.induct)
  case (2 lim x c cs)
  then show ?case by (auto split: if_splits option.splits dest: step_lim)
qed (auto split: if_splits)

text \<open>Literals hold only letters.\<close>

definition letters :: "machine \<Rightarrow> bool" where
  "letters x \<longleftrightarrow> (case fst x of Literal l \<Rightarrow> list_all (\<lambda>c. 97 \<le> byte c \<and> byte c \<le> 122) l | _ \<Rightarrow> True)"

lemma letters_init [simp]: "letters (BeginValue, fs)"
  by (simp add: letters_def)

lemma step_end_letters: "step_end fs c = Some y \<Longrightarrow> letters y"
  by (cases "(fs, c)" rule: step_end.cases) (auto simp: letters_def split: if_splits)

lemma step_letters: "step lim x c = Some y \<Longrightarrow> letters x \<Longrightarrow> letters y"
  by (cases "(lim, x, c)" rule: step.cases)
     (auto simp: letters_def begin_value_def begin_string_def split: if_splits dest!: step_end_letters)

lemma step_end_space: "json_space c \<Longrightarrow> step_end fs c = Some y \<Longrightarrow> y = (EndValue, fs)"
  by (cases "(fs, c)" rule: step_end.cases) (auto split: if_splits)

lemma space_chars: "json_space c \<Longrightarrow> \<not> is_digit c \<and> \<not> is_exp c \<and> c \<notin> {CHR ''.'', CHR ''+'', CHR ''-'', CHR ''0'', dquote, CHR '']'', CHR ''}''} \<and> byte c < 97"
  by (auto simp: json_space_def is_digit_def is_exp_def)

lemma space_step:
  assumes "step lim x c = Some y" and "json_space c" and "\<not> in_string (fst x)" and "letters x"
  shows "y = x \<or> complete (fst x) \<and> y = (EndValue, snd x)"
  using assms space_chars [OF assms(2)]
  by (cases "(lim, x, c)" rule: step.cases)
     (auto simp: begin_value_def begin_string_def letters_def split: if_splits dest!: step_end_space)

lemma end_step: "complete st \<Longrightarrow> step lim (EndValue, fs) c = Some y \<Longrightarrow> step lim (st, fs) c = Some y"
proof -
  assume st: "complete st" and y: "step lim (EndValue, fs) c = Some y"
  then have "\<not> is_digit c \<and> \<not> is_exp c \<and> c \<noteq> CHR ''.''"
    by (cases "(fs, c)" rule: step_end.cases) (auto simp: is_digit_def is_exp_def json_space_def split: if_splits)
  with y show ?thesis by (cases st) (use st in auto)
qed

lemma end_run:
  assumes "complete st" and "run lim (EndValue, fs) r = Some y" and "stops y []"
  shows "\<exists>z. run lim (st, fs) r = Some z \<and> stops z []"
proof (cases r)
  case Nil
  with assms show ?thesis by (auto simp: stops_def)
next
  case (Cons c cs)
  with assms(2) obtain w where w: "step lim (EndValue, fs) c = Some w" "run lim w cs = Some y"
    by (auto split: option.splits)
  from end_step [OF assms(1) w(1)] have "step lim (st, fs) c = Some w" .
  with Cons w(2) assms(3) show ?thesis by auto
qed

text \<open>Compaction succeeds on every value, and its result is a value.\<close>

lemma strip_run:
  "run lim x v = Some y \<Longrightarrow> stops y [] \<Longrightarrow> letters x \<Longrightarrow>
   \<exists>q z. strip lim x v = Some q \<and> run lim x q = Some z \<and> stops z []"
proof (induction v arbitrary: x)
  case (Cons c cs)
  then obtain z where z: "step lim x c = Some z" "run lim z cs = Some y" by (auto split: option.splits)
  then have ns: "\<not> stops x (c # cs)" using stops_step by fastforce
  obtain r w where r: "strip lim z cs = Some r" "run lim z r = Some w" "stops w []"
    using Cons.IH [OF z(2) Cons.prems(2) step_letters [OF z(1) Cons.prems(3)]] by blast
  show ?case
  proof (cases "json_space c \<and> \<not> in_string (fst x)")
    case False
    with ns z(1) r(1) have "strip lim x (c # cs) = Some (c # r)" by auto
    with z(1) r(2,3) show ?thesis by (intro exI [of _ "c # r"] exI [of _ w]) simp
  next
    case True
    with ns z(1) r(1) have q: "strip lim x (c # cs) = Some r" by simp
    from space_step [OF z(1)] True Cons.prems(3) consider "z = x" | "complete (fst x)" "z = (EndValue, snd x)" by blast
    then show ?thesis
    proof cases
      case 1
      with q r show ?thesis by blast
    next
      case 2
      with end_run [of "fst x" lim "snd x" r w] r(2,3) q show ?thesis by simp
    qed
  qed
qed (cases y; simp)

lemma special_step:
  assumes "step lim x c = Some y" and "letters x" and "html_special c \<or> 0x80 \<le> byte c"
  shows "x = (InString, snd x) \<and> y = x"
proof -
  have no: "\<not> json_space c" "\<not> is_digit c" "\<not> is_exp c" "\<not> escape_letter c" "hex_val c = None"
    "c \<notin> set '':,{}[]-+.0tfnu''" "c \<noteq> dquote" "c \<noteq> backslash" "\<not> (97 \<le> byte c \<and> byte c \<le> 122)"
    using assms(3) by (auto simp: json_space_def is_digit_def is_exp_def escape_letter_def hex_val_def html_special_def)
  have se: "step_end fs c = None" for fs using no by (cases "(fs, c)" rule: step_end.cases) auto
  show ?thesis using assms(1,2) no se
    by (cases "(lim, x, c)" rule: step.cases) (auto simp: begin_value_def begin_string_def letters_def split: if_splits)
qed

lemma line_separator_high: "line_separator s \<Longrightarrow> \<exists>a b c r. s = a # b # c # r \<and> 0x80 \<le> byte a \<and> 0x80 \<le> byte b \<and> 0x80 \<le> byte c"
  by (cases s rule: line_separator.cases) auto

text \<open>The machine does not see HTML escaping: it only touches bytes inside strings.\<close>

lemma run_html_escape: "run lim x s = Some y \<Longrightarrow> letters x \<Longrightarrow> run lim x (html_escape s) = Some y"
proof (induction s arbitrary: x rule: html_escape.induct)
  case (1 s)
  show ?case
  proof (cases s)
    case (Cons c cs)
    then obtain z where z: "step lim x c = Some z" "run lim z cs = Some y" using "1.prems" by (auto split: option.splits)
    consider (special) "html_special c" | (sep) "\<not> html_special c" "line_separator s" | (plain) "\<not> html_special c" "\<not> line_separator s" by blast
    then show ?thesis
    proof cases
      case special
      from special_step [OF z(1) "1.prems"(2)] special have x: "x = (InString, snd x)" "z = x" by simp_all
      have "byte c < 65536" using special by (auto simp: html_special_def)
      from run_u_escape [OF this, of lim "snd x"] x(1) "1.IH"(1) [OF Cons special z(2)] x(2) "1.prems"(2) special Cons
      show ?thesis by (simp add: html_escape.simps [of "c # cs"] run_append)
    next
      case sep
      from line_separator_high [OF sep(2)] obtain a b d r where abd: "s = a # b # d # r" "0x80 \<le> byte a" "0x80 \<le> byte b" "0x80 \<le> byte d" by blast
      with "1.prems"(1) obtain z1 z2 z3 where st: "step lim x a = Some z1" "step lim z1 b = Some z2" "step lim z2 d = Some z3" "run lim z3 r = Some y"
        by (auto split: option.splits)
      note s1 = special_step [OF st(1) "1.prems"(2) disjI2 [OF abd(2)]]
      with st(2) have "step lim x b = Some z2" by simp
      note s2 = special_step [OF this "1.prems"(2) disjI2 [OF abd(3)]]
      with st(3) have "step lim x d = Some z3" by simp
      note s3 = special_step [OF this "1.prems"(2) disjI2 [OF abd(4)]]
      have "run lim x (html_escape (drop 3 s)) = Some y"
        using "1.IH"(2) [OF Cons sep] s3 st(4) "1.prems"(2) abd(1) by simp
      moreover have "run lim x (u_escape (0x2028 + (byte (s ! 2) - 0xA8))) = Some x"
        using run_u_escape [OF line_separator_parts(3) [OF sep(2)], of lim "snd x"] s1 by simp
      ultimately show ?thesis using sep Cons by (simp add: html_escape.simps [of "c # cs"] run_append)
    next
      case plain
      with "1.IH"(3) [OF Cons plain z(2)] step_letters [OF z(1) "1.prems"(2)] z(1) Cons show ?thesis
        by (simp add: html_escape.simps [of "c # cs"])
    qed
  qed (use "1.prems" in \<open>simp add: html_escape.simps\<close>)
qed

lemma html_escape_Nil [simp]: "html_escape [] = []"
  by (simp add: html_escape.simps)

lemma html_escape_Cons: "\<exists>d r. html_escape (c # cs) = d # r \<and> (d = c \<or> d = backslash)"
  by (subst html_escape.simps) (auto simp: u_escape_def)

lemma strip_hd: "strip lim (BeginValue, fs) v = Some q \<Longrightarrow> q \<noteq> [] \<and> \<not> json_space (hd q)"
proof (induction v arbitrary: q)
  case (Cons c cs)
  then obtain y r where y: "step lim (BeginValue, fs) c = Some y" "strip lim y cs = Some r"
    and q: "q = (if json_space c then r else c # r)"
    by (auto simp: stops_def split: option.splits)
  show ?case
  proof (cases "json_space c")
    case True
    with y have "strip lim (BeginValue, fs) cs = Some r" by (simp add: begin_value_def)
    from Cons.IH [OF this] True q show ?thesis by simp
  qed (use q in simp)
qed (simp add: stops_def)

text \<open>A value split off from a text can be compacted, and what comes out is read as one value again.\<close>

lemma compact_scanned:
  assumes "scan_value lim bs = Some (v, r)" and "lim \<le> maxNestingDepth"
  obtains q where "compact v = Some q" "q \<noteq> []" "\<not> json_space (hd q)"
    "\<And>t. \<lbrakk>t = [] \<or> hd t = CHR '','' \<or> hd t = CHR ''}''\<rbrakk> \<Longrightarrow> scan_value lim (q @ t) = Some (q, t)"
proof -
  obtain y where y: "run lim (BeginValue, []) v = Some y" "stops y r"
    using value_split_runs assms(1) unfolding scan_value_def by blast
  obtain p z where p: "strip lim (BeginValue, []) v = Some p" "run lim (BeginValue, []) p = Some z" "stops z []"
    using strip_run [OF y(1) stops_end [OF y(2)]] by auto
  have c: "compact v = Some (html_escape p)"
    using strip_lim [OF p(1) assms(2)] by (simp add: compact_def)
  obtain a as where a: "p = a # as" "\<not> json_space a" using strip_hd [OF p(1)] by (cases p) auto
  have hd: "html_escape p \<noteq> []" "\<not> json_space (hd (html_escape p))"
    using html_escape_Cons [of a as] a by (auto simp: json_space_def)
  have "stops z t" if "t = [] \<or> hd t = CHR '','' \<or> hd t = CHR ''}''" for t
    using p(3) that by (cases "fst z") (auto simp: stops_def is_digit_def is_exp_def)
  then show thesis
    using that [OF c hd] value_split_run [OF run_html_escape [OF p(2) letters_init]] unfolding scan_value_def by blast
qed

section \<open>Decoded text is valid UTF-8\<close>

lemma utf8_fix_char: "utf8_len s \<noteq> 0 \<Longrightarrow> utf8_fix (take (utf8_len s) s @ t) = take (utf8_len s) s @ utf8_fix t"
proof -
  assume s: "utf8_len s \<noteq> 0"
  let ?u = "take (utf8_len s) s @ t"
  have len: "utf8_len ?u = utf8_len s" "utf8_len s \<le> length s" using utf8_len_prefix [OF s] by simp_all
  then have "?u \<noteq> []" using s by auto
  then obtain c cs where u: "?u = c # cs" by (cases ?u) auto
  have "utf8_fix (c # cs) = take (utf8_len s) (c # cs) @ utf8_fix (drop (utf8_len s) (c # cs))"
    using len(1) s by (simp add: utf8_fix.simps [of "c # cs"] u)
  then show ?thesis unfolding u [symmetric] using len(2) by simp
qed

lemma byte_char_of: "n < 256 \<Longrightarrow> byte (char_of n) = n"
  by simp

lemma mod_of_div: "a div k = b \<Longrightarrow> a mod k = a - b * (k :: nat)"
  by (simp add: minus_div_mult_eq_mod [symmetric])

lemma less_mult_of_div: "a div k = b \<Longrightarrow> 0 < k \<Longrightarrow> a < Suc b * (k :: nat)"
  using div_less_iff_less_mult [of k a "Suc b"] by simp

lemma utf8_len_four:
  "0xF0 \<le> byte c \<Longrightarrow> byte c \<le> 0xF4 \<Longrightarrow> cont d \<Longrightarrow> cont e \<Longrightarrow> cont f \<Longrightarrow> (byte c = 0xF0 \<longrightarrow> 0x90 \<le> byte d) \<Longrightarrow>
   (byte c = 0xF4 \<longrightarrow> byte d \<le> 0x8F) \<Longrightarrow> utf8_len (c # d # e # f # r) = 4"
  by (simp add: utf8_len_def)

lemma utf8_len_encode_rune: "utf8_len (encode_rune n @ t) = length (encode_rune n) \<and> encode_rune n \<noteq> []"
proof -
  consider (one) "n < 0x80" | (two) "0x80 \<le> n" "n < 0x800" | (bad) "0x800 \<le> n" "0xD800 \<le> n \<and> n < 0xE000 \<or> 0x110000 \<le> n"
    | (three) "0x800 \<le> n" "n < 0x10000" "n < 0xD800 \<or> 0xE000 \<le> n" | (four) "0x10000 \<le> n" "n < 0x110000" by linarith
  then show ?thesis
  proof cases
    case one
    then show ?thesis by (simp add: encode_rune_def utf8_len_def)
  next
    case two
    then have "2 \<le> n div 64" "n div 64 < 32" by (simp_all add: less_eq_div_iff_mult_less_eq div_less_iff_less_mult)
    with two show ?thesis by (simp add: encode_rune_def utf8_len_def cont_def)
  next
    case bad
    then show ?thesis by (auto simp: encode_rune_def utf8_len_def cont_def)
  next
    case three
    define q where "q = n div 64"
    have q: "32 \<le> q" "q < 1024" "q < 864 \<or> 896 \<le> q" "n div 4096 = q div 64"
      using three by (auto simp: q_def less_eq_div_iff_mult_less_eq div_less_iff_less_mult div_mult2_eq [symmetric])
    then have "q div 64 < 16" "q div 64 = 0 \<longrightarrow> 32 \<le> q mod 64" "q div 64 = 13 \<longrightarrow> q mod 64 < 32"
      using mod_of_div [of q 64 0] mod_of_div [of q 64 13] less_mult_of_div [of q 64 13] by (auto simp: div_less_iff_less_mult)
    with q(4) have b: "n div 4096 < 16" "n div 4096 = 0 \<longrightarrow> 32 \<le> n div 64 mod 64" "n div 4096 = 13 \<longrightarrow> n div 64 mod 64 < 32"
      by (simp_all only: q_def)
    have m: "m mod 64 \<le> 63" for m :: nat using mod_less_divisor [of 64 m] by linarith
    have "n div 4096 = 13 \<longrightarrow> n div 64 mod 64 \<le> 31" using b(3) by auto
    with three b m [of n] m [of "n div 64"] show ?thesis by (auto simp: encode_rune_def utf8_len_def cont_def)
  next
    case four
    define q where "q = n div 4096"
    have q: "16 \<le> q" "q < 272" "n div 262144 = q div 64"
      using four by (auto simp: q_def less_eq_div_iff_mult_less_eq div_less_iff_less_mult div_mult2_eq [symmetric])
    then have "q div 64 \<le> 4" "q div 64 = 0 \<longrightarrow> 16 \<le> q mod 64" "q div 64 = 4 \<longrightarrow> q mod 64 < 16"
      using mod_of_div [of q 64 0] mod_of_div [of q 64 4] div_le_mono [of q 271 64] by auto
    with q(3) have b: "n div 262144 \<le> 4" "n div 262144 = 0 \<longrightarrow> 16 \<le> n div 4096 mod 64" "n div 262144 = 4 \<longrightarrow> n div 4096 mod 64 < 16"
      by (simp_all only: q_def)
    have m: "m mod 64 \<le> 63" for m :: nat using mod_less_divisor [of 64 m] by linarith
    have "n div 262144 = 4 \<longrightarrow> n div 4096 mod 64 \<le> 15" using b(3) by auto
    with b m [of n] m [of "n div 64"] m [of "n div 4096"] have "utf8_len (char_of (0xF0 + n div 262144) # char_of (0x80 + n div 4096 mod 64) #
        char_of (0x80 + n div 64 mod 64) # char_of (0x80 + n mod 64) # t) = 4"
      by (intro utf8_len_four) (simp_all add: cont_def)
    with four show ?thesis by (simp add: encode_rune_def)
  qed
qed

lemma utf8_fix_rune: "utf8_fix (encode_rune n @ t) = encode_rune n @ utf8_fix t"
  using utf8_fix_char [of "encode_rune n" t] utf8_len_encode_rune [of n "[]"] by simp

lemma utf8_fix_replacement: "utf8_fix (replacement @ t) = replacement @ utf8_fix t"
proof -
  have "encode_rune 0xFFFD = replacement" by (simp add: encode_rune_def char_literals)
  then show ?thesis using utf8_fix_rune [of "0xFFFD" t] by simp
qed

lemma utf8_fix_ascii: "byte c < 0x80 \<Longrightarrow> utf8_fix (c # t) = c # utf8_fix t"
  using utf8_fix_char [of "c # t" t] by (simp add: utf8_fix.simps [of "c # t"] utf8_len_def)

lemma utf8_fix_unescape: "escape_letter e \<Longrightarrow> utf8_fix (unescape e # t) = unescape e # utf8_fix t"
  unfolding escape_letter_def by (rule utf8_fix_ascii, elim insertE emptyE) (simp_all add: unescape_def)

lemma utf8_fix_unquote_one: "utf8_fix (fst (unquote_one c cs) @ t) = fst (unquote_one c cs) @ utf8_fix t"
  using utf8_fix_char [of "c # cs" t] utf8_fix_replacement [of t]
  by (auto simp: unquote_one_def utf8_fix_rune utf8_fix_unescape utf8_fix_ascii split: list.split option.split)

lemma utf8_fix_unquote: "utf8_fix (unquote s) = unquote s"
proof (induction s rule: unquote.induct)
  case (1 s)
  show ?case
  proof (cases s)
    case (Cons c cs)
    have "utf8_fix (unquote (snd (unquote_one c cs))) = unquote (snd (unquote_one c cs))"
      using "1.IH" [OF Cons] by (metis prod.collapse)
    with Cons show ?thesis by (simp add: unquote_Cons utf8_fix_unquote_one)
  qed simp
qed

section \<open>Null\<close>

lemma html_escape_plain: "backslash \<notin> set (html_escape p) \<Longrightarrow> html_escape p = p"
proof (induction p rule: html_escape.induct)
  case (1 s)
  show ?case
  proof (cases s)
    case (Cons c cs)
    have plain: "\<not> html_special c" "\<not> line_separator s"
      using "1.prems" Cons by (auto simp: html_escape.simps [of "c # cs"] u_escape_def split: if_splits)
    with "1.IH"(3) [OF Cons plain] "1.prems" Cons show ?thesis by (simp add: html_escape.simps [of "c # cs"])
  qed simp
qed

lemma strip_literal:
  "strip lim (Literal l, []) cs = Some l \<Longrightarrow> l \<noteq> [] \<Longrightarrow> list_all (\<lambda>c. 97 \<le> byte c) l \<Longrightarrow>
   \<exists>r. cs = l @ r \<and> run lim (Literal l, []) l = Some (EndValue, [])"
proof (induction l arbitrary: cs)
  case (Cons a l)
  from Cons.prems(1) obtain c ds where cs: "cs = c # ds" by (cases cs) (auto simp: stops_def split: if_splits)
  with Cons.prems have "c = a" "\<not> json_space a"
    by (auto simp: stops_def json_space_def split: if_splits option.splits)
  then have st: "strip lim (if l = [] then EndValue else Literal l, []) ds = Some l"
    using Cons.prems(1) cs by (auto simp: stops_def split: if_splits option.splits)
  show ?case
  proof (cases "l = []")
    case False
    with Cons.IH [of ds] st Cons.prems(3) cs \<open>c = a\<close> show ?thesis by auto
  qed (use cs \<open>c = a\<close> in auto)
qed simp

lemma run_EndValue: "run lim (EndValue, []) r = Some y \<Longrightarrow> r = []"
  by (cases r) auto

text \<open>Only null is compacted to null.\<close>

lemma compact_null:
  assumes "scan_value lim (c # cs) = Some (v, r)" and "\<not> json_space c" and "compact v = Some ''null''"
  shows "v = ''null''"
proof -
  obtain y where y: "run lim (BeginValue, []) v = Some y"
    using value_split_runs assms(1) unfolding scan_value_def by blast
  from scan_value_shorter [OF assms(1)] value_split_append [OF assms(1) [unfolded scan_value_def]]
  obtain vs where v: "v = c # vs" by (cases v) auto
  from assms(3) obtain p where p: "strip maxNestingDepth (BeginValue, []) v = Some p" "html_escape p = ''null''"
    by (auto simp: compact_def)
  then have "p = ''null''" using html_escape_plain [of p] by simp
  then obtain z where z: "c = CHR ''n''" "strip maxNestingDepth (Literal ''ull'', []) vs = Some ''ull''"
    using p(1) v assms(2) by (auto simp: stops_def begin_value_def json_space_def split: option.splits if_splits)
  from strip_literal [OF z(2)] obtain t where t: "vs = ''ull'' @ t" by auto
  have "run lim (EndValue, []) t = Some y"
    using y v z(1) t by (simp add: begin_value_def json_space_def split: if_splits)
  from run_EndValue [OF this] v z(1) t show ?thesis by simp
qed

section \<open>Compacting twice\<close>

lemma strip_from_end:
  assumes "complete st" and "strip lim (EndValue, fs) r = Some r"
  shows "strip lim (st, fs) r = Some r"
proof (cases r)
  case Nil
  with assms show ?thesis by (auto simp: stops_def split: if_splits)
next
  case (Cons c cs)
  with assms(2) obtain w q where w: "step lim (EndValue, fs) c = Some w" "strip lim w cs = Some q"
    and q: "(if json_space c then q else c # q) = c # cs"
    by (auto split: option.splits if_splits)
  from q strip_length [OF w(2)] have c: "\<not> json_space c" "q = cs" by (auto split: if_splits)
  from end_step [OF assms(1) w(1)] have st: "step lim (st, fs) c = Some w" .
  then have "\<not> stops (st, fs) (c # cs)" using stops_step by fastforce
  with st w(2) c Cons show ?thesis by simp
qed

lemma strip_idem: "strip lim x v = Some q \<Longrightarrow> letters x \<Longrightarrow> strip lim x q = Some q"
proof (induction lim x v arbitrary: q rule: strip.induct)
  case (2 lim x c cs)
  show ?case
  proof (cases "stops x (c # cs)")
    case True
    with "2.prems"(1) have "q = []" by (auto split: if_splits)
    with stops_end [OF True] show ?thesis by simp
  next
    case False
    with "2.prems"(1) obtain y r where y: "step lim x c = Some y" "strip lim y cs = Some r"
      and q: "q = (if json_space c \<and> \<not> in_string (fst x) then r else c # r)"
      by (auto split: option.splits)
    note IH = "2.IH" [OF False y(1,2) step_letters [OF y(1) "2.prems"(2)]]
    show ?thesis
    proof (cases "json_space c \<and> \<not> in_string (fst x)")
      case True
      with q space_step [OF y(1)] "2.prems"(2) consider "q = r" "y = x" | "q = r" "complete (fst x)" "y = (EndValue, snd x)" by auto
      then show ?thesis
      proof cases
        case 1
        then show ?thesis using IH by simp
      next
        case 2
        then show ?thesis using strip_from_end [OF 2(2), of lim "snd x" r] IH by simp
      qed
    next
      case False
      have "\<not> stops x (c # r)" using y(1) stops_step by fastforce
      with False q y(1) IH show ?thesis by auto
    qed
  qed
qed (auto split: if_splits)

lemma strip_u_escape:
  assumes "n < 65536"
  shows "strip lim (InString, fs) (u_escape n @ r) = map_option ((@) (u_escape n)) (strip lim (InString, fs) r)"
proof -
  have h: "hex_val (hex_char (n div 4096)) \<noteq> None" "hex_val (hex_char (n div 256 mod 16)) \<noteq> None"
    "hex_val (hex_char (n div 16 mod 16)) \<noteq> None" "hex_val (hex_char (n mod 16)) \<noteq> None"
    using assms by (simp_all add: hex_val_hex_char div_less_iff_less_mult)
  have "\<not> escape_letter CHR ''u''" by (simp add: escape_letter_def)
  with h show ?thesis by (simp add: u_escape_def stops_def split: option.split)
qed

lemma strip_fixed_step:
  assumes "strip lim x (c # cs) = Some (c # cs)"
  obtains y where "step lim x c = Some y" "strip lim y cs = Some cs" "\<not> (json_space c \<and> \<not> in_string (fst x))"
proof -
  from assms have ns: "\<not> stops x (c # cs)" by (auto split: if_splits)
  with assms obtain y r where y: "step lim x c = Some y" "strip lim y cs = Some r"
    and r: "(if json_space c \<and> \<not> in_string (fst x) then r else c # r) = c # cs"
    by (auto split: option.splits)
  from r strip_length [OF y(2)] have "\<not> (json_space c \<and> \<not> in_string (fst x))" "r = cs" by (auto split: if_splits)
  with y that show thesis by simp
qed

lemma strip_html_escape: "strip lim x p = Some p \<Longrightarrow> letters x \<Longrightarrow> strip lim x (html_escape p) = Some (html_escape p)"
proof (induction p arbitrary: x rule: html_escape.induct)
  case (1 s)
  show ?case
  proof (cases s)
    case (Cons c cs)
    with "1.prems"(1) obtain z where z: "step lim x c = Some z" "strip lim z cs = Some cs"
      and nd: "\<not> (json_space c \<and> \<not> in_string (fst x))"
      using strip_fixed_step by blast
    consider (special) "html_special c" | (sep) "\<not> html_special c" "line_separator s" | (plain) "\<not> html_special c" "\<not> line_separator s" by blast
    then show ?thesis
    proof cases
      case special
      from special_step [OF z(1) "1.prems"(2)] special have x: "x = (InString, snd x)" "z = x" by simp_all
      have "byte c < 65536" using special by (auto simp: html_special_def)
      from strip_u_escape [OF this, of lim "snd x"] x "1.IH"(1) [OF Cons special, of z] z(2) "1.prems"(2) special Cons
      show ?thesis by (simp add: html_escape.simps [of "c # cs"])
    next
      case sep
      from line_separator_high [OF sep(2)] obtain a b d r where abd: "s = a # b # d # r" "0x80 \<le> byte a" "0x80 \<le> byte b" "0x80 \<le> byte d" by blast
      with "1.prems"(1) obtain z1 where st1: "step lim x a = Some z1" "strip lim z1 (b # d # r) = Some (b # d # r)"
        using strip_fixed_step by blast
      note s1 = special_step [OF st1(1) "1.prems"(2) disjI2 [OF abd(2)]]
      with st1(2) obtain z2 where st2: "step lim x b = Some z2" "strip lim z2 (d # r) = Some (d # r)"
        using strip_fixed_step by metis
      note s2 = special_step [OF st2(1) "1.prems"(2) disjI2 [OF abd(3)]]
      with st2(2) obtain z3 where st3: "step lim x d = Some z3" "strip lim z3 r = Some r"
        using strip_fixed_step by metis
      note s3 = special_step [OF st3(1) "1.prems"(2) disjI2 [OF abd(4)]]
      have "strip lim x (html_escape (drop 3 s)) = Some (html_escape (drop 3 s))"
        using "1.IH"(2) [OF Cons sep] s3 st3(2) "1.prems"(2) abd(1) by simp
      then show ?thesis
        using sep Cons s1 strip_u_escape [OF line_separator_parts(3) [OF sep(2)], of lim "snd x"]
        by (simp add: html_escape.simps [of "c # cs"])
    next
      case plain
      have "\<not> stops x (c # html_escape cs)" using z(1) stops_step by fastforce
      with plain "1.IH"(3) [OF Cons plain z(2)] step_letters [OF z(1) "1.prems"(2)] z(1) Cons nd show ?thesis
        by (auto simp: html_escape.simps [of "c # cs"])
    qed
  qed (use "1.prems" in simp)
qed

lemma html_escape_prefix:
  "\<forall>c \<in> set a. byte c < 0x80 \<and> \<not> html_special c \<Longrightarrow> html_escape (a @ r) = a @ html_escape r"
proof (induction a)
  case (Cons c cs)
  have "\<not> line_separator (c # cs @ r)"
    using Cons.prems by (cases "c # cs @ r" rule: line_separator.cases) auto
  with Cons show ?case by (simp add: html_escape.simps [of "c # cs @ r"])
qed simp

lemma u_escape_ascii: "n < 65536 \<Longrightarrow> \<forall>c \<in> set (u_escape n). byte c < 0x80 \<and> \<not> html_special c"
proof -
  assume "n < 65536"
  then have d: "n div 4096 < 16" by (simp add: div_less_iff_less_mult)
  have "byte (hex_char k) < 0x80 \<and> \<not> html_special (hex_char k)" if "k < 16" for k
    using byte_hex_char [OF that] that by (auto simp: html_special_def split: if_splits)
  from this [OF d] this [of "n div 256 mod 16"] this [of "n div 16 mod 16"] this [of "n mod 16"]
  show ?thesis by (auto simp: u_escape_def html_special_def)
qed

lemma escape_ascii_safe: "byte c < 0x80 \<Longrightarrow> \<forall>d \<in> set (escape_ascii c). byte d < 0x80 \<and> \<not> html_special d"
  using u_escape_ascii [of "byte c"] by (auto simp: escape_ascii_def Let_def html_special_def)

lemma html_escape_high: "html_escape s = d # r \<Longrightarrow> 0x80 \<le> byte d \<Longrightarrow> \<exists>s'. s = d # s' \<and> r = html_escape s'"
proof (cases s)
  case (Cons c cs)
  assume "html_escape s = d # r" "0x80 \<le> byte d"
  with Cons show ?thesis by (auto simp: html_escape.simps [of "c # cs"] u_escape_def split: if_splits)
qed simp

lemma html_escape_separator: "line_separator (c # html_escape cs) \<Longrightarrow> line_separator (c # cs)"
proof -
  assume l: "line_separator (c # html_escape cs)"
  then obtain a b r where ab: "html_escape cs = a # b # r" by (cases "c # html_escape cs" rule: line_separator.cases) auto
  with l have b: "byte c = 0xE2" "byte a = 0x80" "byte b = 0xA8 \<or> byte b = 0xA9" by simp_all
  from html_escape_high [OF ab] b obtain s1 where s1: "cs = a # s1" "b # r = html_escape s1" by auto
  from html_escape_high [of s1 b r] s1 b obtain s2 where "s1 = b # s2" by auto
  with s1 b show ?thesis by simp
qed

lemma html_escape_idem: "html_escape (html_escape s) = html_escape s"
proof (induction s rule: html_escape.induct)
  case (1 s)
  show ?case
  proof (cases s)
    case (Cons c cs)
    consider (special) "html_special c" | (sep) "\<not> html_special c" "line_separator s" | (plain) "\<not> html_special c" "\<not> line_separator s" by blast
    then show ?thesis
    proof cases
      case special
      then have "byte c < 65536" by (auto simp: html_special_def)
      from html_escape_prefix [OF u_escape_ascii [OF this]] "1.IH"(1) [OF Cons special] special Cons
      show ?thesis by (simp add: html_escape.simps [of "c # cs"])
    next
      case sep
      with html_escape_prefix [OF u_escape_ascii [OF line_separator_parts(3) [OF sep(2)]]] "1.IH"(2) [OF Cons sep] Cons
      show ?thesis by (simp add: html_escape.simps [of "c # cs"])
    next
      case plain
      then have "\<not> line_separator (c # html_escape cs)" using html_escape_separator Cons by blast
      with plain "1.IH"(3) [OF Cons plain] Cons show ?thesis
        by (simp add: html_escape.simps [of "c # cs"] html_escape.simps [of "c # html_escape cs"])
    qed
  qed simp
qed

lemma compact_idem: "compact p = Some q \<Longrightarrow> compact q = Some q"
  by (auto simp: compact_def strip_html_escape strip_idem html_escape_idem)

section \<open>Texts that compaction leaves as they are\<close>

lemma strip_tight: "run_tight lim x v = Some y \<Longrightarrow> stops y [] \<Longrightarrow> strip lim x v = Some v"
proof (induction v arbitrary: x)
  case (Cons c cs)
  then obtain z where z: "step lim x c = Some z" "run_tight lim z cs = Some y" "\<not> (json_space c \<and> \<not> in_string (fst x))"
    by (auto split: if_splits option.splits)
  then have "\<not> stops x (c # cs)" using stops_step by fastforce
  with z Cons.IH [OF z(2) Cons.prems(2)] show ?case by auto
qed simp

definition web_safe :: "bytes \<Rightarrow> bool" where
  "web_safe v \<longleftrightarrow> (\<forall>r. html_escape (v @ r) = v @ html_escape r)"

lemma web_safe_append: "web_safe a \<Longrightarrow> web_safe b \<Longrightarrow> web_safe (a @ b)"
  by (simp add: web_safe_def)

lemma web_safe_ascii: "\<forall>c \<in> set a. byte c < 0x80 \<and> \<not> html_special c \<Longrightarrow> web_safe a"
  by (simp add: web_safe_def html_escape_prefix)

lemma html_escape_cont: "\<forall>c \<in> set cs. cont c \<Longrightarrow> html_escape (cs @ r) = cs @ html_escape r"
proof (induction cs)
  case (Cons c cs)
  then have "\<not> html_special c" by (auto simp: cont_def html_special_def)
  moreover have "\<not> line_separator (c # cs @ r)"
    using Cons.prems by (cases "c # cs @ r" rule: line_separator.cases) (auto simp: cont_def)
  ultimately show ?case using Cons by (simp add: html_escape.simps [of "c # cs @ r"])
qed simp

lemma web_safe_char:
  assumes "utf8_len s \<noteq> 0" and "0x80 \<le> byte (hd s)" and "\<not> line_separator s"
  shows "web_safe (take (utf8_len s) s)"
proof -
  have lead: "html_escape (c # cs @ r) = c # cs @ html_escape r"
    if "0x80 \<le> byte c" "\<forall>d \<in> set cs. cont d" "\<not> line_separator (c # cs @ r)" for c cs r
    using that html_escape_cont [of cs r] by (auto simp: html_escape.simps [of "c # cs @ r"] html_special_def)
  from assms(1) show ?thesis
  proof (cases rule: utf8_len_cases)
    case (two c d r)
    then have "\<not> line_separator (c # [d] @ t)" for t by (cases "c # [d] @ t" rule: line_separator.cases) auto
    with two lead [of c "[d]"] show ?thesis by (simp add: web_safe_def)
  next
    case (three c d e r)
    with assms(3) have "\<not> line_separator (c # [d, e] @ t)" for t by simp
    with three lead [of c "[d, e]"] show ?thesis by (simp add: web_safe_def numeral_3_eq_3)
  next
    case (four c d e f r)
    then have "\<not> line_separator (c # [d, e, f] @ t)" for t by auto
    with four lead [of c "[d, e, f]"] show ?thesis by (simp add: web_safe_def eval_nat_numeral)
  qed (use assms(2) in simp)
qed

lemma web_safe_escape_string: "web_safe (escape_string s)"
proof (induction s rule: escape_string.induct)
  case (1 s)
  show ?case
  proof (cases s)
    case Nil
    then show ?thesis by (simp add: web_safe_def)
  next
    case (Cons c cs)
    note IH = "1.IH" [OF Cons]
    consider (ascii) "byte c < 0x80" | (bad) "0x80 \<le> byte c" "utf8_len s = 0"
      | (sep) "0x80 \<le> byte c" "utf8_len s \<noteq> 0" "line_separator s" | (high) "0x80 \<le> byte c" "utf8_len s \<noteq> 0" "\<not> line_separator s"
      by linarith
    then show ?thesis
    proof cases
      case ascii
      with IH(1) Cons web_safe_append [OF web_safe_ascii [OF escape_ascii_safe [OF ascii]]] show ?thesis
        by (simp add: escape_string.simps [of "c # cs"])
    next
      case bad
      with IH(2) Cons web_safe_append [OF web_safe_ascii [OF u_escape_ascii [of "0xFFFD"]]] show ?thesis
        by (simp add: escape_string.simps [of "c # cs"])
    next
      case sep
      with IH(3) Cons web_safe_append [OF web_safe_ascii [OF u_escape_ascii [OF line_separator_parts(3) [OF sep(3)]]]] show ?thesis
        by (simp add: escape_string.simps [of "c # cs"])
    next
      case high
      with IH(4) Cons web_safe_append [OF web_safe_char [OF high(2) _ high(3)]] show ?thesis
        by (simp add: escape_string.simps [of "c # cs"])
    qed
  qed
qed

lemma web_safe_quote_string: "web_safe (quote_string s)"
proof -
  have q: "web_safe [dquote]" by (rule web_safe_ascii) (simp add: html_special_def)
  from web_safe_append [OF q web_safe_append [OF web_safe_escape_string [of s] q]]
  show ?thesis by (simp add: quote_string_def)
qed

lemma compact_tight:
  assumes "run_tight maxNestingDepth (BeginValue, []) v = Some y" and "stops y []" and "web_safe v"
  shows "compact v = Some v"
proof -
  have "html_escape v = v" using assms(3) [unfolded web_safe_def, rule_format, of "[]"] by simp
  with strip_tight [OF assms(1,2)] show ?thesis by (simp add: compact_def)
qed

end
