(* ===== verification/TimeText.thy ===== *)
theory TimeText
  imports GoTime StdParse "HOL-Library.Monad_Syntax"
begin

text \<open>
  \<open>Time.UnmarshalJSON\<close> and \<open>Time.MarshalJSON\<close> of Go's \<open>time\<close> package. Reading is \<open>Parse(RFC3339, s)\<close>, which is more
  lenient than RFC 3339: an hour of one digit, a comma before the fraction, and zone offsets of up to 24 hours and 60
  minutes are accepted. Writing refuses a year outside 0 to 9999 and a zone of 24 hours or more. An instant is kept with
  the offset, in seconds, of the zone it was read in, because it is written in that zone.
\<close>

section \<open>Reading\<close>

fun getnum_fixed :: "string \<Rightarrow> (nat \<times> string) option" where
  "getnum_fixed (a # b # r) = (if is_digit a \<and> is_digit b then Some (10 * digit_val a + digit_val b, r) else None)"
| "getnum_fixed _ = None"

fun getnum :: "string \<Rightarrow> (nat \<times> string) option" where
  "getnum [] = None"
| "getnum (a # r) =
     (if \<not> is_digit a then None
      else case r of
        b # r1 \<Rightarrow> if is_digit b then Some (10 * digit_val a + digit_val b, r1) else Some (digit_val a, r)
      | [] \<Rightarrow> Some (digit_val a, r))"

fun expect :: "char \<Rightarrow> string \<Rightarrow> string option" where
  "expect c [] = None"
| "expect c (d # r) = (if d = c then Some r else None)"

definition within :: "nat \<Rightarrow> nat \<Rightarrow> nat \<times> string \<Rightarrow> (nat \<times> string) option" where
  "within lo hi x = (if lo \<le> fst x \<and> fst x \<le> hi then Some x else None)"

definition parse_year :: "string \<Rightarrow> (nat \<times> string) option" where
  "parse_year s =
     (if 4 \<le> length s \<and> list_all is_digit (take 4 s) then Some (digits_val 0 (take 4 s), drop 4 s) else None)"

text \<open>\<open>parseNanoseconds\<close>: digits after the ninth are dropped.\<close>

definition nanoseconds :: "string \<Rightarrow> nat" where
  "nanoseconds ds = digits_val 0 (take 9 ds) * 10 ^ (9 - length (take 9 ds))"

fun parse_fraction :: "string \<Rightarrow> nat \<times> string" where
  "parse_fraction (p # d # r) =
     (if (p = CHR ''.'' \<or> p = CHR '','') \<and> is_digit d
      then (nanoseconds (takeWhile is_digit (d # r)), dropWhile is_digit (d # r)) else (0, p # d # r))"
| "parse_fraction s = (0, s)"

definition zone_sign :: "char \<Rightarrow> int option" where
  "zone_sign c = (if c = CHR ''+'' then Some 1 else if c = CHR ''-'' then Some (- 1) else None)"

definition parse_zone :: "string \<Rightarrow> (int \<times> string) option" where
  "parse_zone s =
     (case s of
        [] \<Rightarrow> None
      | c # r \<Rightarrow>
          if c = CHR ''Z'' then Some (0, r)
          else do {
            sg \<leftarrow> zone_sign c;
            (hr, r1) \<leftarrow> getnum_fixed r \<bind> within 0 24;
            r2 \<leftarrow> expect CHR '':'' r1;
            (mm, r3) \<leftarrow> getnum_fixed r2 \<bind> within 0 60;
            Some (sg * int ((hr * 60 + mm) * 60), r3)
          })"

definition valid_date :: "int \<Rightarrow> nat \<Rightarrow> nat \<Rightarrow> bool" where
  "valid_date y m d \<longleftrightarrow> 1 \<le> d \<and> int d \<le> month_lengths (is_leap y) ! (m - 1)"

text \<open>The instant with its zone.\<close>

definition instant :: "int \<Rightarrow> nat \<Rightarrow> nat \<Rightarrow> nat \<Rightarrow> nat \<Rightarrow> nat \<Rightarrow> nat \<Rightarrow> int \<Rightarrow> time" where
  "instant y mo d h mi s ns off =
     (day_number (y, mo, int d) * 86400 + int (h * 3600 + mi * 60 + s) - off) * second + int ns"

definition Parse_RFC3339 :: "string \<Rightarrow> (time \<times> int) option" where
  "Parse_RFC3339 s0 = do {
     (y, s1) \<leftarrow> parse_year s0;
     (mo, s2) \<leftarrow> expect CHR ''-'' s1 \<bind> getnum_fixed \<bind> within 1 12;
     (d, s3) \<leftarrow> expect CHR ''-'' s2 \<bind> getnum_fixed;
     (h, s4) \<leftarrow> expect CHR ''T'' s3 \<bind> getnum \<bind> within 0 23;
     (mi, s5) \<leftarrow> expect CHR '':'' s4 \<bind> getnum_fixed \<bind> within 0 59;
     (s, s6) \<leftarrow> expect CHR '':'' s5 \<bind> getnum_fixed \<bind> within 0 59;
     let (ns, s7) = parse_fraction s6;
     (off, s8) \<leftarrow> parse_zone s7;
     if s8 = [] \<and> valid_date (int y) mo d then Some (instant (int y) mo d h mi s ns off, off) else None
   }"

section \<open>Writing\<close>

definition zone_text :: "int \<Rightarrow> string" where
  "zone_text off =
     (if off = 0 then ''Z''
      else let z = nat \<bar>off\<bar> div 60
        in (if off < 0 then CHR ''-'' else CHR ''+'') # pad2 (z div 60) @ '':'' @ pad2 (z mod 60))"

definition local_seconds :: "time \<Rightarrow> int \<Rightarrow> int" where
  "local_seconds t off = t div second + off"

definition local_date :: "time \<Rightarrow> int \<Rightarrow> int \<times> nat \<times> int" where
  "local_date t off = date_of (local_seconds t off div 86400)"

definition format_RFC3339Nano :: "time \<Rightarrow> int \<Rightarrow> string" where
  "format_RFC3339Nano t off =
     (let sod = nat (local_seconds t off mod 86400) in
      case local_date t off of
        (y, m, d) \<Rightarrow>
          pad_year y @ ''-'' @ pad2 m @ ''-'' @ pad2 (nat d) @ ''T'' @ pad2 (sod div 3600) @ '':'' @
          pad2 (sod div 60 mod 60) @ '':'' @ pad2 (sod mod 60) @ fmt_frac 9 (nat (t mod second)) False [] @
          zone_text off)"

definition year_error :: string where "year_error = ''year outside of range [0,9999]''"
definition zone_error :: string where "zone_error = ''timezone hour outside of range [0,23]''"

definition time_MarshalText :: "time \<Rightarrow> int \<Rightarrow> string + string" where
  "time_MarshalText t off =
     (let y = fst (local_date t off)
      in if y < 0 \<or> 9999 < y then Inl year_error
         else if 86400 \<le> \<bar>off\<bar> then Inl zone_error
         else Inr (format_RFC3339Nano t off))"

section \<open>Reading back what is written\<close>

lemma is_digit_literals [simp]: "\<not> is_digit CHR ''Z''" "\<not> is_digit CHR ''+''" "\<not> is_digit CHR ''-''" "\<not> is_digit CHR '':''"
  "\<not> is_digit CHR ''.''"
  by (simp_all add: is_digit_def)

lemma pad2_digits: "n < 100 \<Longrightarrow> pad2 n = [digit_char (n div 10), digit_char (n mod 10)] \<and> is_digit (digit_char (n div 10)) \<and>
   is_digit (digit_char (n mod 10)) \<and> 10 * digit_val (digit_char (n div 10)) + digit_val (digit_char (n mod 10)) = n"
  by (simp add: pad2_def div_less_iff_less_mult)

lemma getnum_pad2: "n < 100 \<Longrightarrow> getnum_fixed (pad2 n @ r) = Some (n, r)" "n < 100 \<Longrightarrow> getnum (pad2 n @ r) = Some (n, r)"
  using pad2_digits [of n] by auto

lemma show_nat_length: "n < 10000 \<Longrightarrow> length (show_nat n) \<le> 4"
  by (simp add: show_nat.simps [of n] show_nat.simps [of "n div 10"] show_nat.simps [of "n div 10 div 10"]
      show_nat.simps [of "n div 10 div 10 div 10"] div_less_iff_less_mult)

lemma parse_year_pad_year:
  assumes "0 \<le> y" and "y \<le> 9999"
  shows "parse_year (pad_year y @ r) = Some (nat y, r)"
proof -
  have y: "pad_year y = replicate (4 - length (show_nat (nat y))) CHR ''0'' @ show_nat (nat y)"
    using assms(1) by (simp add: pad_year_def Let_def)
  have len: "length (pad_year y) = 4" using show_nat_length [of "nat y"] assms unfolding y by simp
  have "is_digit CHR ''0''" by (simp add: is_digit_def)
  then have "list_all is_digit (pad_year y)" using show_nat_digits unfolding y list_all_iff by auto
  moreover have "digits_val 0 (pad_year y) = nat y" unfolding y by (simp add: digits_val_zeros)
  ultimately show ?thesis using len by (simp add: parse_year_def)
qed

fun fixed_digits :: "nat \<Rightarrow> nat \<Rightarrow> string" where
  "fixed_digits 0 v = []"
| "fixed_digits (Suc k) v = fixed_digits k (v div 10) @ [digit_char (v mod 10)]"

lemma fixed_digits_props [simp]: "length (fixed_digits k v) = k" "list_all is_digit (fixed_digits k v)"
  by (induction k arbitrary: v) auto

lemma mod_ten_Suc: "v mod 10 ^ Suc k = 10 * (v div 10 mod 10 ^ k) + v mod (10 :: nat)"
  by (simp add: mod_mult2_eq)

lemma digits_val_fixed: "digits_val 0 (fixed_digits k v) = v mod 10 ^ k"
  by (induction k arbitrary: v) (simp_all add: digits_val_append mod_ten_Suc del: power_Suc)

lemma fmt_frac_printed: "fmt_frac k v True acc = CHR ''.'' # fixed_digits k v @ acc"
  by (induction k arbitrary: v acc) (simp_all add: Let_def)

lemma fmt_frac_zero: "v mod 10 ^ k = 0 \<Longrightarrow> fmt_frac k v False [] = []"
  by (induction k arbitrary: v) (simp_all add: mod_ten_Suc Let_def del: power_Suc)

lemma fmt_frac_nonzero:
  "v mod 10 ^ k \<noteq> 0 \<Longrightarrow>
   \<exists>j < k. fmt_frac k v False [] = CHR ''.'' # fixed_digits (k - j) (v div 10 ^ j) \<and> v mod 10 ^ j = 0"
proof (induction k arbitrary: v)
  case (Suc k)
  show ?case
  proof (cases "v mod 10 = 0")
    case True
    then have "v div 10 mod 10 ^ k \<noteq> 0" using Suc.prems by (simp add: mod_ten_Suc del: power_Suc)
    from Suc.IH [OF this] obtain j where j: "j < k"
      "fmt_frac k (v div 10) False [] = CHR ''.'' # fixed_digits (k - j) (v div 10 div 10 ^ j)" "v div 10 mod 10 ^ j = 0"
      by (elim exE conjE) (rule that; assumption)
    have "v mod 10 ^ Suc j = 0" using True j(3) by (simp add: mod_ten_Suc del: power_Suc)
    moreover have "fmt_frac (Suc k) v False [] = CHR ''.'' # fixed_digits (Suc k - Suc j) (v div 10 ^ Suc j)"
      using True j(2) by (simp add: div_mult2_eq)
    ultimately show ?thesis using j(1) by (intro exI [of _ "Suc j"]) simp
  next
    case False
    then show ?thesis by (intro exI [of _ 0]) (simp add: Let_def fmt_frac_printed)
  qed
qed simp

lemma nanoseconds_digits:
  assumes "n < 10 ^ 9" and "n mod 10 ^ j = 0" and "j < 9"
  shows "nanoseconds (fixed_digits (9 - j) (n div 10 ^ j)) = n"
proof -
  have "n div 10 ^ j < 10 ^ (9 - j)"
    using assms(1,3) by (simp add: div_less_iff_less_mult power_add [symmetric])
  moreover have "n = n div 10 ^ j * 10 ^ j" using assms(2) by auto
  ultimately show ?thesis using assms(3) by (simp add: nanoseconds_def digits_val_fixed)
qed

lemma takeWhile_all: "list_all P xs \<Longrightarrow> \<not> P c \<Longrightarrow> takeWhile P (xs @ c # cs) = xs" "list_all P xs \<Longrightarrow> \<not> P c \<Longrightarrow> dropWhile P (xs @ c # cs) = c # cs"
  by (induction xs) auto

lemma parse_fraction_fmt_frac:
  assumes "n < 10 ^ 9" and "\<not> is_digit z" and "z \<noteq> CHR ''.''" and "z \<noteq> CHR '',''"
  shows "parse_fraction (fmt_frac 9 n False [] @ z # zs) = (n, z # zs)"
proof (cases "n = 0")
  case True
  then have "fmt_frac 9 n False [] = []" by (simp add: fmt_frac_zero)
  with True assms(3,4) show ?thesis by (cases zs) simp_all
next
  case False
  with assms(1) have "n mod 10 ^ 9 \<noteq> 0" by simp
  from fmt_frac_nonzero [OF this] obtain j where j: "j < 9"
    "fmt_frac 9 n False [] = CHR ''.'' # fixed_digits (9 - j) (n div 10 ^ j)" "n mod 10 ^ j = 0"
    by (elim exE conjE) (rule that; assumption)
  let ?ds = "fixed_digits (9 - j) (n div 10 ^ j)"
  obtain d ds where d: "?ds = d # ds" using j(1) fixed_digits_props(1) [of "9 - j" "n div 10 ^ j"] by (cases ?ds) auto
  have all: "list_all is_digit ?ds" by simp
  then have "is_digit d" unfolding d by simp
  then have "parse_fraction (CHR ''.'' # ?ds @ z # zs) = (nanoseconds (takeWhile is_digit (?ds @ z # zs)), dropWhile is_digit (?ds @ z # zs))"
    unfolding d by simp
  also have "\<dots> = (n, z # zs)"
    using takeWhile_all [OF all assms(2)] nanoseconds_digits [OF assms(1) j(3,1)] by simp
  finally show ?thesis using j(2) by simp
qed

lemma parse_zone_text:
  assumes "\<bar>off\<bar> < 86400" and "off mod 60 = 0"
  shows "parse_zone (zone_text off) = Some (off, [])"
proof (cases "off = 0")
  case False
  define z where "z = nat \<bar>off\<bar> div 60"
  have "z div 60 < 24" using assms(1) unfolding z_def by (simp add: div_less_iff_less_mult)
  moreover have "3600 * int (z div 60) + int (z mod 60) * 60 = \<bar>off\<bar>"
  proof -
    have "(60 :: int) dvd \<bar>off\<bar>" using assms(2) by auto
    then have "nat \<bar>off\<bar> mod 60 = 0" by (metis abs_ge_zero dvd_imp_mod_0 int_dvd_int_iff int_nat_eq of_nat_numeral)
    then have "z * 60 = nat \<bar>off\<bar>" unfolding z_def by (metis add.right_neutral div_mult_mod_eq)
    then have "int z * 60 = \<bar>off\<bar>" by (metis abs_ge_zero int_nat_eq of_nat_mult of_nat_numeral)
    moreover have "int z = 60 * int (z div 60) + int (z mod 60)"
      by (metis mult_div_mod_eq of_nat_add of_nat_mult of_nat_numeral)
    ultimately show ?thesis by linarith
  qed
  ultimately show ?thesis
    using False getnum_pad2(1) [of "z div 60" "CHR '':'' # pad2 (z mod 60)"] getnum_pad2(1) [of "z mod 60" "[]"]
      less_trans [OF mod_less_divisor [of 60 z], of 100]
    by (auto simp: zone_text_def Let_def z_def [symmetric] parse_zone_def zone_sign_def within_def less_imp_le)
qed (simp add: zone_text_def parse_zone_def)

lemma zone_text_Cons: "\<exists>z zs. zone_text off = z # zs \<and> \<not> is_digit z \<and> z \<noteq> CHR ''.'' \<and> z \<noteq> CHR '',''"
  by (simp add: zone_text_def Let_def)

text \<open>Calendar dates are valid, and the years 0 to 9999 are an interval of days.\<close>

lemma div_Suc_step: "0 < k \<Longrightarrow> (z + 1) div k = z div k + (if (z + 1) mod k = 0 then 1 else 0 :: int)"
proof -
  assume k: "0 < k"
  define q r where "q = z div k" and "r = z mod k"
  have z: "z = k * q + r" "0 \<le> r" "r < k" using k by (simp_all add: q_def r_def)
  show ?thesis
  proof (cases "r + 1 = k")
    case True
    then have "z + 1 = k * (q + 1)" using z(1) by (simp add: algebra_simps)
    with k show ?thesis unfolding q_def [symmetric] by simp
  next
    case False
    with z have "(z + 1) div k = q" "(z + 1) mod k = r + 1"
      by (auto simp: add.assoc intro: div_pos_pos_trivial mod_pos_pos_trivial)
    with z show ?thesis unfolding q_def [symmetric] by simp
  qed
qed

lemma is_leap_dvd: "is_leap y \<longleftrightarrow> 4 dvd y \<and> (\<not> 100 dvd y \<or> 400 dvd y)"
  by (simp add: is_leap_def dvd_eq_mod_eq_0)

lemma div_step: "0 < k \<Longrightarrow> y div k = (y - 1) div k + (if k dvd y then 1 else 0 :: int)"
  using div_Suc_step [of k "y - 1"] by (simp only: diff_add_cancel dvd_eq_mod_eq_0)

lemma leap_sum:
  fixes y :: int
  assumes "A' = A + (if p then 1 else 0)" and "B' = B + (if q then 1 else 0)" and "C' = C + (if r then 1 else 0)"
    and "r \<longrightarrow> q" and "q \<longrightarrow> p"
  shows "365 * y + A' - B' + C' = 365 * (y - 1) + A - B + C + (if p \<and> (\<not> q \<or> r) then 366 else 365)"
  unfolding assms(1-3) using assms(4,5) by (cases p; cases q; cases r) simp_all

lemma days_before_next_year: "days_before_year (y + 1) = days_before_year y + (if is_leap y then 366 else 365)"
proof -
  have "400 dvd y \<longrightarrow> 100 dvd y" "100 dvd y \<longrightarrow> 4 dvd y"
    using dvd_trans [of 100 400 y] dvd_trans [of 4 100 y] by simp_all
  from leap_sum [OF div_step [of 4 y] div_step [of 100 y] div_step [of 400 y] this, of y]
  show ?thesis unfolding days_before_year_def is_leap_dvd Let_def by (simp only: add_diff_cancel_right' zero_less_numeral)
qed

lemma days_before_year_mono: "y \<le> z \<Longrightarrow> days_before_year y \<le> days_before_year z"
proof (induction "nat (z - y)" arbitrary: z)
  case (Suc n)
  then have "days_before_year y \<le> days_before_year (z - 1)" by simp
  with days_before_next_year [of "z - 1"] show ?case by (simp split: if_splits)
qed simp

lemma year_yday_in_year: "case year_yday d of (y, yd) \<Rightarrow> yd < (if is_leap y then 366 else 365)"
proof -
  define a r where "a = d div 146097" and "r = d mod 146097"
  define b r1 where "b = min 3 (r div 36524)" and "r1 = r - 36524 * b"
  define c r2 where "c = r1 div 1461" and "r2 = r1 mod 1461"
  define e where "e = min 3 (r2 div 365)"
  have r: "0 \<le> r" "r < 146097" by (simp_all add: r_def)
  have b: "0 \<le> b" "b \<le> 3" "0 \<le> r1" "r1 \<le> 36524" "b < 3 \<longrightarrow> r1 < 36524" using r unfolding b_def r1_def by (auto simp: min_def)
  have c: "r1 = 1461 * c + r2" "0 \<le> r2" "r2 < 1461" "0 \<le> c" "c \<le> 24"
    using b(3,4) unfolding c_def r2_def by auto
  have e: "0 \<le> e" "e \<le> 3" "r2 - 365 * e \<le> 365" "r2 - 365 * e = 365 \<longrightarrow> e = 3 \<and> r2 = 1460"
    using c(2,3) unfolding e_def by (auto simp: min_def)
  have y: "year_yday d = (1 + 400 * a + 100 * b + 4 * c + e, r2 - 365 * e)"
    unfolding year_yday_def Let_def a_def [symmetric] r_def [symmetric] b_def [symmetric] r1_def [symmetric]
      c_def [symmetric] r2_def [symmetric] e_def [symmetric] by simp
  have "is_leap (1 + 400 * a + 100 * b + 4 * c + e)" if "r2 - 365 * e = 365"
  proof -
    from that e have e3: "e = 3" "r2 = 1460" by auto
    then have four: "1 + 400 * a + 100 * b + 4 * c + e = 4 * (100 * a + 25 * b + c + 1)" by simp
    show ?thesis
    proof (cases "c = 24")
      case True
      with c(1) e3 b(2,5) have "b = 3" by auto
      with True e3 have "1 + 400 * a + 100 * b + 4 * c + e = 400 * (a + 1)" by simp
      then have "400 dvd 1 + 400 * a + 100 * b + 4 * c + e" by (simp only: dvd_triv_left)
      then show ?thesis unfolding is_leap_dvd using dvd_trans [of "4 :: int" 400] by simp
    next
      case False
      have "1 + 400 * a + 100 * b + 4 * c + e = 100 * (4 * a + b) + 4 * (c + 1)" using e3 by simp
      moreover have "\<not> 100 dvd 4 * (c + 1)" using False c(4,5) by (auto dest: zdvd_imp_le)
      ultimately have "\<not> 100 dvd 1 + 400 * a + 100 * b + 4 * c + e" by (simp only: dvd_add_right_iff [OF dvd_triv_left] not_False_eq_True)
      with four show ?thesis unfolding is_leap_dvd by simp
    qed
  qed
  with e show ?thesis unfolding y by auto
qed

lemma month_day_valid:
  "0 \<le> d \<Longrightarrow> d < sum_list ls \<Longrightarrow>
   case month_day m ls d of (m', d') \<Rightarrow> m \<le> m' \<and> m' < m + length ls \<and> 1 \<le> d' \<and> d' \<le> ls ! (m' - m)"
proof (induction m ls d rule: month_day.induct)
  case (2 m l ls d)
  show ?case
  proof (cases "d < l")
    case False
    obtain m' d' where md: "month_day (Suc m) ls (d - l) = (m', d')" by fastforce
    from "2.prems" False have "0 \<le> d - l" "d - l < sum_list ls" by simp_all
    from "2.IH" [OF False this] md have b: "Suc m \<le> m'" "m' < Suc m + length ls" "1 \<le> d'" "d' \<le> ls ! (m' - Suc m)" by simp_all
    then have "(l # ls) ! (m' - m) = ls ! (m' - Suc m)" by (simp add: nth_Cons')
    with b False md show ?thesis by simp
  next
    case True
    with "2.prems" show ?thesis by simp
  qed
qed simp

lemma date_of_valid:
  assumes "date_of n = (y, m, d)"
  shows "1 \<le> m" "m \<le> 12" "1 \<le> d" "d \<le> 31" "valid_date y m (nat d)" "days_before_year y \<le> n" "n < days_before_year (y + 1)"
proof -
  obtain yd where y: "year_yday n = (y, yd)" and m: "month_day 1 (month_lengths (is_leap y)) yd = (m, d)"
    using assms by (auto simp: date_of_def split: prod.splits)
  have yd: "0 \<le> yd" "yd < (if is_leap y then 366 else 365)" "days_before_year y + yd = n"
    using year_yday_inverse [of n] year_yday_in_year [of n] y by simp_all
  then show "days_before_year y \<le> n" "n < days_before_year (y + 1)" by (simp_all add: days_before_next_year)
  have "sum_list (month_lengths l) = (if l then 366 else 365)" "length (month_lengths l) = 12" for l
    by (simp_all add: month_lengths_def)
  with month_day_valid [of yd "month_lengths (is_leap y)" 1] m yd
  have md: "1 \<le> m" "m \<le> 12" "1 \<le> d" "d \<le> month_lengths (is_leap y) ! (m - 1)" by auto
  then show "1 \<le> m" "m \<le> 12" "1 \<le> d" "valid_date y m (nat d)" by (auto simp: valid_date_def)
  have "list_all (\<lambda>l. l \<le> 31) (month_lengths l)" for l by (simp add: month_lengths_def)
  moreover have "m - 1 < length (month_lengths (is_leap y))" using md(1,2) by (simp add: month_lengths_def)
  ultimately have "month_lengths (is_leap y) ! (m - 1) \<le> 31" by (simp add: list_all_length)
  with md(4) show "d \<le> 31" by simp
qed

lemma clock_of: "h < 86400 \<Longrightarrow> h div 3600 * 3600 + h div 60 mod 60 * 60 + h mod 60 = (h :: nat)"
proof -
  have "h div 60 div 60 = h div 3600" by (simp add: div_mult2_eq [symmetric])
  with div_mult_mod_eq [of "h div 60" 60] have "(h div 3600 * 60 + h div 60 mod 60) * 60 + h mod 60 = h div 60 * 60 + h mod 60" by simp
  then show ?thesis by (simp add: algebra_simps)
qed

lemma instant_local:
  assumes "local_date t off = (y, m, d)" and "h = nat (local_seconds t off mod 86400)"
  shows "instant y m (nat d) (h div 3600) (h div 60 mod 60) (h mod 60) (nat (t mod second)) off = t"
proof -
  have dn: "day_number (y, m, int (nat d)) = local_seconds t off div 86400"
    using assms(1) date_of_valid(3) [of "local_seconds t off div 86400" y m d] day_number_date_of [of "local_seconds t off div 86400"] by (simp add: local_date_def)
  have "h < 86400" "int h = local_seconds t off mod 86400" using assms(2) by simp_all
  then have "day_number (y, m, int (nat d)) * 86400 + int (h div 3600 * 3600 + h div 60 mod 60 * 60 + h mod 60) - off = t div second"
    unfolding dn by (simp only: clock_of) (simp add: local_seconds_def)
  then show ?thesis unfolding instant_def by (simp only: div_mult_mod_eq nat_0_le)
qed

text \<open>An instant that can be written is read back, with its zone.\<close>

lemma Parse_MarshalText:
  assumes "time_MarshalText t off = Inr s" and "off mod 60 = 0"
  shows "Parse_RFC3339 s = Some (t, off)"
proof -
  obtain y m d where ld: "local_date t off = (y, m, d)" by (metis prod_cases3)
  define h where "h = nat (local_seconds t off mod 86400)"
  from assms(1) ld have y: "0 \<le> y" "y \<le> 9999" and off: "\<bar>off\<bar> < 86400" and s: "s = format_RFC3339Nano t off"
    by (auto simp: time_MarshalText_def Let_def split: if_splits)
  note v = date_of_valid [OF ld [unfolded local_date_def]]
  have h: "h < 86400" by (simp add: h_def)
  define mi se where "mi = h div 60 mod 60" and "se = h mod 60"
  have lt: "m < 100" "nat d < 100" "h div 3600 < 24" "mi < 60" "se < 60"
    using v h by (simp_all add: div_less_iff_less_mult mi_def se_def)
  obtain z zs where z: "zone_text off = z # zs" "\<not> is_digit z" "z \<noteq> CHR ''.''" "z \<noteq> CHR '',''"
    using zone_text_Cons by blast
  have ns: "nat (t mod second) < 10 ^ 9" by simp
  note frac = parse_fraction_fmt_frac [OF ns z(2-4), of zs, folded z(1)]
  note inst = instant_local [OF ld h_def, folded mi_def se_def]
  show ?thesis
    unfolding s format_RFC3339Nano_def Let_def h_def [symmetric] ld prod.case Parse_RFC3339_def mi_def [symmetric] se_def [symmetric]
    using y v(1,2,5) lt frac inst parse_zone_text [OF off assms(2)]
    by (simp add: parse_year_pad_year getnum_pad2 within_def)
qed

lemma sum_months_le: "m \<le> 12 \<Longrightarrow> 1 \<le> m \<Longrightarrow> valid_date y m d \<Longrightarrow>
   sum_list (take (m - 1) (month_lengths (is_leap y))) + int d \<le> (if is_leap y then 366 else 365)"
proof -
  let ?ls = "month_lengths (is_leap y)"
  assume m: "m \<le> 12" "1 \<le> m" and v: "valid_date y m d"
  have len: "m - 1 < length ?ls" and pos: "\<forall>l \<in> set ?ls. 0 \<le> l" and tot: "sum_list ?ls = (if is_leap y then 366 else 365)"
    using m by (simp_all add: month_lengths_def)
  have "sum_list ?ls = sum_list (take (m - 1) ?ls) + ?ls ! (m - 1) + sum_list (drop m ?ls)"
    using len id_take_nth_drop [OF len] m by (metis Suc_diff_1 add.assoc less_le_trans sum_list.Cons sum_list_append zero_less_one)
  moreover have "0 \<le> sum_list (drop m ?ls)" using pos by (intro sum_list_nonneg) (auto dest: in_set_dropD)
  ultimately show ?thesis using v tot by (simp add: valid_date_def)
qed

lemma day_number_in_year:
  assumes "1 \<le> m" and "m \<le> 12" and "valid_date y m d"
  shows "days_before_year y \<le> day_number (y, m, int d)" "day_number (y, m, int d) < days_before_year (y + 1)"
proof -
  have "0 \<le> sum_list (take (m - 1) (month_lengths (is_leap y)))"
    by (rule sum_list_nonneg) (auto simp: month_lengths_def dest!: in_set_takeD)
  moreover have "1 \<le> d" using assms(3) by (simp add: valid_date_def)
  ultimately show "days_before_year y \<le> day_number (y, m, int d)" "day_number (y, m, int d) < days_before_year (y + 1)"
    using sum_months_le [OF assms(2,1,3)] by (simp_all add: day_number_def days_before_next_year)
qed

text \<open>The year of a day is determined by the intervals of the years.\<close>

lemma year_unique: "days_before_year y \<le> n \<Longrightarrow> n < days_before_year (y + 1) \<Longrightarrow> fst (date_of n) = y"
proof -
  assume n: "days_before_year y \<le> n" "n < days_before_year (y + 1)"
  obtain z m d where z: "date_of n = (z, m, d)" by (metis prod_cases3)
  note v = date_of_valid(6,7) [OF z]
  have "\<not> z < y" using days_before_year_mono [of "z + 1" y] n v by auto
  moreover have "\<not> y < z" using days_before_year_mono [of "y + 1" z] n v by auto
  ultimately show ?thesis using z by simp
qed

lemma digits_val_bound: "list_all is_digit ds \<Longrightarrow> digits_val a ds < (a + 1) * 10 ^ length ds"
proof (induction ds arbitrary: a)
  case (Cons c cs)
  then have "is_digit c" by simp
  then have "digit_val c \<le> 9" unfolding digit_val_def is_digit_def by linarith
  then have "(10 * a + digit_val c + 1) * 10 ^ length cs \<le> (10 * a + 10) * 10 ^ length cs" by (intro mult_le_mono1) simp
  moreover have "list_all is_digit cs" using Cons.prems by simp
  ultimately have "digits_val (10 * a + digit_val c) cs < (10 * a + 10) * 10 ^ length cs"
    using Cons.IH [of "10 * a + digit_val c"] by simp
  then show ?case by (simp add: algebra_simps)
qed simp

lemma parse_year_bound: "parse_year s = Some (y, r) \<Longrightarrow> y \<le> 9999"
  using digits_val_bound [of "take 4 s" 0] by (auto simp: parse_year_def split: if_splits)

lemma nanoseconds_bound: "list_all is_digit ds \<Longrightarrow> nanoseconds ds < 10 ^ 9"
proof -
  assume ds: "list_all is_digit ds"
  let ?k = "length (take 9 ds)"
  have "list_all is_digit (take 9 ds)" using ds by (auto simp: list_all_iff dest: in_set_takeD)
  from digits_val_bound [OF this, of 0] have "digits_val 0 (take 9 ds) * 10 ^ (9 - ?k) < 10 ^ ?k * 10 ^ (9 - ?k)" by simp
  also have "\<dots> = 10 ^ 9" by (simp only: power_add [symmetric]) simp
  finally show ?thesis by (simp only: nanoseconds_def)
qed

lemma parse_fraction_bound: "ns = fst (parse_fraction s) \<Longrightarrow> ns < 10 ^ 9"
proof (cases s rule: parse_fraction.cases)
  case (1 p d u)
  assume "ns = fst (parse_fraction s)"
  moreover have "list_all is_digit (takeWhile is_digit (d # u))" by (auto simp: list_all_iff dest: set_takeWhileD)
  ultimately show ?thesis using nanoseconds_bound 1 by (fastforce split: if_splits)
qed simp_all

lemma parse_zone_bound: "parse_zone s = Some (off, r) \<Longrightarrow> off mod 60 = 0 \<and> \<bar>off\<bar> \<le> 90000"
proof (cases s)
  case (Cons c u)
  assume p: "parse_zone s = Some (off, r)"
  show ?thesis
  proof (cases "c = CHR ''Z''")
    case False
    with p Cons obtain hr mm where b: "hr \<le> 24" "mm \<le> 60"
      and off: "off = 3600 * int hr + int mm * 60 \<or> off = - (3600 * int hr) - int mm * 60"
      by (auto simp: parse_zone_def within_def zone_sign_def Option.bind_eq_Some_conv split: if_splits)
    have "3600 * int hr + int mm * 60 = 60 * (60 * int hr + int mm)" "- (3600 * int hr) - int mm * 60 = 60 * - (60 * int hr + int mm)"
      by simp_all
    with off have "off mod 60 = 0" by (metis mod_mult_self1_is_0)
    with off b show ?thesis by auto
  qed (use p Cons in \<open>simp add: parse_zone_def\<close>)
qed (simp add: parse_zone_def)

lemma Parse_RFC3339_parts:
  assumes "Parse_RFC3339 s = Some (t, off)"
  obtains y m d h mi se ns where "y \<le> 9999" "1 \<le> m" "m \<le> 12" "valid_date (int y) m d" "h \<le> 23" "mi \<le> 59" "se \<le> 59" "ns < 10 ^ 9"
    "t = instant (int y) m d h mi se ns off" "off mod 60 = 0" "\<bar>off\<bar> \<le> 90000"
proof -
  from assms obtain y s1 m s2 d s3 h s4 mi s5 se s6 ns s7 s8 where
    p: "parse_year s = Some (y, s1)" "1 \<le> m" "m \<le> 12" "h \<le> 23" "mi \<le> 59" "se \<le> 59" "ns = fst (parse_fraction s6)"
    "parse_zone s7 = Some (off, s8)" "valid_date (int y) m d" "t = instant (int y) m d h mi se ns off"
    by (auto simp: Parse_RFC3339_def within_def Let_def Option.bind_eq_Some_conv case_prod_beta split: if_splits)
  show thesis
    by (rule that [OF parse_year_bound [OF p(1)] p(2,3,9,4-6) parse_fraction_bound [OF p(7)] p(10)])
       (use parse_zone_bound [OF p(8)] in simp_all)
qed

text \<open>An instant that was read lies in a year that can be written, in the zone it was read in.\<close>

lemma Parse_RFC3339_year:
  assumes "Parse_RFC3339 s = Some (t, off)"
  shows "off mod 60 = 0" "\<bar>off\<bar> \<le> 90000" "0 \<le> fst (local_date t off)" "fst (local_date t off) \<le> 9999"
proof -
  obtain y m d h mi se ns where p: "y \<le> 9999" "1 \<le> m" "m \<le> 12" "valid_date (int y) m d" "h \<le> 23" "mi \<le> 59" "se \<le> 59" "ns < 10 ^ 9"
    "t = instant (int y) m d h mi se ns off" "off mod 60 = 0" "\<bar>off\<bar> \<le> 90000"
    using Parse_RFC3339_parts [OF assms] by blast
  show "off mod 60 = 0" "\<bar>off\<bar> \<le> 90000" by (fact p)+
  define n where "n = day_number (int y, m, int d)"
  have "t div second = n * 86400 + int (h * 3600 + mi * 60 + se) - off"
    unfolding p(9) instant_def n_def [symmetric] using p(8) by (subst mult.commute) simp
  moreover have "int (h * 3600 + mi * 60 + se) < 86400" using p(5-7) by simp
  ultimately have "local_seconds t off div 86400 = n" unfolding local_seconds_def by simp
  with year_unique [OF day_number_in_year [OF p(2-4)]] have "fst (local_date t off) = int y" by (simp add: local_date_def n_def)
  with p(1) show "0 \<le> fst (local_date t off)" "fst (local_date t off) \<le> 9999" by simp_all
qed

lemma MarshalText_parsed:
  "Parse_RFC3339 s = Some (t, off) \<Longrightarrow>
   time_MarshalText t off = (if \<bar>off\<bar> < 86400 then Inr (format_RFC3339Nano t off) else Inl zone_error)"
  using Parse_RFC3339_year [of s t off] by (simp add: time_MarshalText_def)

end
