(* ===== verification/Codec.thy ===== *)
theory Codec
  imports Json TimeText Envelope
begin

text \<open>
  How an envelope crosses the wire: \<open>json.Unmarshal\<close> into \<open>envelope.Envelope\<close>, as \<open>Parse\<close> calls it, and \<open>json.Marshal\<close> of an
  envelope, as the HTTP destinations call it, both driven by the struct's field tags. Only whether decoding fails is
  modelled, not the wording of the error, which is the argument \<open>explain\<close>.
\<close>

section \<open>The fields of the struct\<close>

datatype json_field = F_event_id | F_gateway_id | F_received_at | F_retry_count | F_stream_name | F_event_header | F_payload

fun json_name :: "json_field \<Rightarrow> string" where
  "json_name F_event_id = ''event_id''"
| "json_name F_gateway_id = ''gateway_id''"
| "json_name F_received_at = ''received_at''"
| "json_name F_retry_count = ''retry_count''"
| "json_name F_stream_name = ''stream_name''"
| "json_name F_event_header = ''event_header''"
| "json_name F_payload = ''payload''"

abbreviation json_fields :: "json_field list" where
  "json_fields \<equiv> [F_event_id, F_gateway_id, F_received_at, F_retry_count, F_stream_name, F_event_header, F_payload]"

text \<open>\<open>foldName\<close>: keys match whatever their case. Besides the ASCII letters only U+017F and U+212A fold to an ASCII letter.\<close>

definition fold_char :: "char \<Rightarrow> char" where
  "fold_char c = (if 97 \<le> byte c \<and> byte c \<le> 122 then char_of (byte c - 32) else c)"

fun fold_name :: "bytes \<Rightarrow> bytes" where
  "fold_name (a # b # c # r) =
     (if byte a = 0xC5 \<and> byte b = 0xBF then CHR ''S'' # fold_name (c # r)
      else if byte a = 0xE2 \<and> byte b = 0x84 \<and> byte c = 0xAA then CHR ''K'' # fold_name r
      else fold_char a # fold_name (b # c # r))"
| "fold_name [a, b] = (if byte a = 0xC5 \<and> byte b = 0xBF then ''S'' else [fold_char a, fold_char b])"
| "fold_name [a] = [fold_char a]"
| "fold_name [] = []"

definition field_of_key :: "bytes \<Rightarrow> json_field option" where
  "field_of_key k = find (\<lambda>f. fold_name k = fold_name (json_name f)) json_fields"

section \<open>Decoding\<close>

abbreviation skip_space :: "bytes \<Rightarrow> bytes" where "skip_space \<equiv> dropWhile json_space"

text \<open>The text of a string literal.\<close>

abbreviation literal_body :: "bytes \<Rightarrow> bytes" where "literal_body v \<equiv> butlast (tl v)"

definition store_string :: "bytes \<Rightarrow> (string \<Rightarrow> Envelope \<Rightarrow> Envelope) \<Rightarrow> Envelope \<Rightarrow> Envelope option" where
  "store_string v set_field e =
     (if v = ''null'' then Some e
      else if hd v = dquote then Some (set_field (unquote (literal_body v)) e) else None)"

definition store_time :: "bytes \<Rightarrow> Envelope \<Rightarrow> Envelope option" where
  "store_time v e =
     (if v = ''null'' then Some e
      else if length v < 2 \<or> hd v \<noteq> dquote \<or> last v \<noteq> dquote then None
      else case Parse_RFC3339 (literal_body v) of
        None \<Rightarrow> None
      | Some (t, off) \<Rightarrow> Some (e\<lparr>ReceivedAt := t, ReceivedZone := off\<rparr>))"

definition store_int :: "bytes \<Rightarrow> Envelope \<Rightarrow> Envelope option" where
  "store_int v e =
     (if v = ''null'' then Some e
      else if hd v = CHR ''-'' \<or> is_digit (hd v)
      then (case ParseInt v of (n, None) \<Rightarrow> Some (e\<lparr>RetryCount := n\<rparr>) | _ \<Rightarrow> None)
      else None)"

fun store_field :: "json_field \<Rightarrow> bytes \<Rightarrow> Envelope \<Rightarrow> Envelope option" where
  "store_field F_event_id v e = store_string v (\<lambda>s. EventID_update (\<lambda>_. s)) e"
| "store_field F_gateway_id v e = store_string v (\<lambda>s. GatewayID_update (\<lambda>_. s)) e"
| "store_field F_received_at v e = store_time v e"
| "store_field F_retry_count v e = store_int v e"
| "store_field F_stream_name v e = store_string v (\<lambda>s. StreamName_update (\<lambda>_. s)) e"
| "store_field F_event_header v e = Some (e\<lparr>EventHeader := v\<rparr>)"
| "store_field F_payload v e = Some (e\<lparr>Payload := v\<rparr>)"

text \<open>One member after the other, so that of a key that occurs twice the last value stays; an unknown key is skipped.\<close>

definition store_member :: "bytes \<times> bytes \<Rightarrow> Envelope \<Rightarrow> Envelope option" where
  "store_member m e = (case field_of_key (fst m) of None \<Rightarrow> Some e | Some f \<Rightarrow> store_field f (snd m) e)"

fun store_members :: "(bytes \<times> bytes) list \<Rightarrow> Envelope \<Rightarrow> Envelope option" where
  "store_members [] e = Some e"
| "store_members (m # ms) e = (case store_member m e of None \<Rightarrow> None | Some e' \<Rightarrow> store_members ms e')"

text \<open>A member of the outermost object: its key, unquoted, its value as it stands, and the rest.\<close>

definition inner :: nat where "inner = maxNestingDepth - 1"

definition member :: "bytes \<Rightarrow> ((bytes \<times> bytes) \<times> bytes) option" where
  "member s =
     (if skip_space s = [] \<or> hd (skip_space s) \<noteq> dquote then None
      else case scan_value inner (skip_space s) of
        None \<Rightarrow> None
      | Some (k, r) \<Rightarrow>
          (if skip_space r = [] \<or> hd (skip_space r) \<noteq> CHR '':'' then None
           else case scan_value inner (skip_space (tl (skip_space r))) of
             None \<Rightarrow> None
           | Some (v, r1) \<Rightarrow> Some ((unquote (literal_body k), v), r1)))"

lemma skip_space_length: "length (skip_space s) \<le> length s"
  by (rule length_dropWhile_le)

lemma member_shorter: "member s = Some (m, r) \<Longrightarrow> length r < length s"
proof -
  assume "member s = Some (m, r)"
  then obtain k r1 v where "scan_value inner (skip_space s) = Some (k, r1)"
    "scan_value inner (skip_space (tl (skip_space r1))) = Some (v, r)"
    by (auto simp: member_def split: if_splits option.splits)
  from this [THEN scan_value_shorter] skip_space_length [of s] skip_space_length [of r1] skip_space_length [of "tl (skip_space r1)"]
  show ?thesis by simp
qed

function members :: "bytes \<Rightarrow> ((bytes \<times> bytes) list \<times> bytes) option" where
  "members s =
     (case member s of
        None \<Rightarrow> None
      | Some (m, r) \<Rightarrow>
          (case skip_space r of
             [] \<Rightarrow> None
           | c # r1 \<Rightarrow>
               if c = CHR '','' then (case members r1 of None \<Rightarrow> None | Some (ms, r2) \<Rightarrow> Some (m # ms, r2))
               else if c = CHR ''}'' then Some ([m], r1) else None))"
  by pat_completeness auto
termination
proof (relation "measure length", goal_cases)
  case (2 s x m r c r1)
  then have "length r < length s" "length (c # r1) \<le> length r" using member_shorter [of s m r] skip_space_length [of r] by auto
  then show ?case by simp
qed simp

declare members.simps [simp del]

text \<open>After the opening brace.\<close>

definition object_members :: "bytes \<Rightarrow> ((bytes \<times> bytes) list \<times> bytes) option" where
  "object_members s =
     (case skip_space s of
        c # r \<Rightarrow> if c = CHR ''}'' then Some ([], r) else members s
      | [] \<Rightarrow> None)"

definition decode :: "bytes \<Rightarrow> Envelope option" where
  "decode raw =
     (case skip_space raw of
        [] \<Rightarrow> None
      | c # r \<Rightarrow>
          if c = CHR ''{''
          then (case object_members r of
                  None \<Rightarrow> None
                | Some (ms, rest) \<Rightarrow> if list_all json_space rest then store_members ms zero_Envelope else None)
          else (case scan_value maxNestingDepth (c # r) of
                  Some (v, rest) \<Rightarrow> if v = ''null'' \<and> list_all json_space rest then Some zero_Envelope else None
                | None \<Rightarrow> None))"

definition Unmarshal :: "(bytes \<Rightarrow> string) \<Rightarrow> json_decoder" where
  "Unmarshal explain raw = (case decode raw of None \<Rightarrow> Inl (explain raw) | Some e \<Rightarrow> Inr e)"

section \<open>Encoding\<close>

text \<open>\<open>RawMessage.MarshalJSON\<close>, whose result the encoder compacts; an empty raw value is a nil one.\<close>

definition raw_value :: "bytes \<Rightarrow> bytes option" where
  "raw_value p = (if p = [] then Some ''null'' else compact p)"

text \<open>\<open>Time.MarshalJSON\<close>; the text holds no byte that compaction would change.\<close>

definition time_text :: "time \<Rightarrow> int \<Rightarrow> string + bytes" where
  "time_text t off = map_sum (\<lambda>x. x) (\<lambda>s. dquote # s @ [dquote]) (time_MarshalText t off)"

definition member_text :: "json_field \<Rightarrow> bytes \<Rightarrow> bytes" where
  "member_text f v = dquote # json_name f @ [dquote, CHR '':''] @ v"

definition optional :: "bool \<Rightarrow> 'a \<Rightarrow> 'a list" where
  "optional absent x = (if absent then [] else [x])"

definition Marshal :: "(bytes \<Rightarrow> string) \<Rightarrow> Envelope \<Rightarrow> gerror + bytes" where
  "Marshal explain e =
     (case time_text (ReceivedAt e) (ReceivedZone e) of
        Inl err \<Rightarrow> Inl (ErrorString (''json: error calling MarshalJSON for type time.Time: Time.MarshalJSON: '' @ err))
      | Inr at \<Rightarrow>
          (case (if EventHeader e = [] then Some [] else raw_value (EventHeader e)) of
             None \<Rightarrow> Inl (ErrorString (explain (EventHeader e)))
           | Some header \<Rightarrow>
               (case raw_value (Payload e) of
                  None \<Rightarrow> Inl (ErrorString (explain (Payload e)))
                | Some body \<Rightarrow>
                    Inr (''{'' @ strings_Join '','' (map (\<lambda>(f, v). member_text f v)
                      ([(F_event_id, quote_string (EventID e)), (F_gateway_id, quote_string (GatewayID e)), (F_received_at, at),
                        (F_retry_count, strconv_Itoa (RetryCount e))] @
                       optional (StreamName e = []) (F_stream_name, quote_string (StreamName e)) @
                       optional (EventHeader e = []) (F_event_header, header) @
                       [(F_payload, body)])) @ ''}''))))"

section \<open>Plain text\<close>

definition plain :: "char \<Rightarrow> bool" where
  "plain c \<longleftrightarrow> 32 \<le> byte c \<and> byte c < 0x80 \<and> c \<noteq> dquote \<and> c \<noteq> backslash \<and> \<not> html_special c"

lemma escape_plain: "list_all plain s \<Longrightarrow> escape_string s = s"
proof (induction s)
  case (Cons c cs)
  then have "escape_ascii c = [c]" by (auto simp: plain_def escape_ascii_def)
  with Cons show ?case by (simp add: escape_string.simps [of "c # cs"] plain_def)
qed simp

lemma utf8_fix_plain: "list_all plain s \<Longrightarrow> utf8_fix s = s"
  by (induction s) (simp_all add: plain_def utf8_fix_ascii)

lemma json_name_plain: "list_all plain (json_name f)"
  by (cases f) (simp_all add: plain_def html_special_def)

lemma member_text_quoted: "member_text f v = quote_string (json_name f) @ CHR '':'' # v"
  by (simp add: member_text_def quote_string_def escape_plain [OF json_name_plain])

lemma fold_names:
  "fold_name ''event_id'' = ''EVENT_ID''" "fold_name ''gateway_id'' = ''GATEWAY_ID''" "fold_name ''received_at'' = ''RECEIVED_AT''"
  "fold_name ''retry_count'' = ''RETRY_COUNT''" "fold_name ''stream_name'' = ''STREAM_NAME''"
  "fold_name ''event_header'' = ''EVENT_HEADER''" "fold_name ''payload'' = ''PAYLOAD''"
  by code_simp+

fun folded :: "json_field \<Rightarrow> string" where
  "folded F_event_id = ''EVENT_ID''"
| "folded F_gateway_id = ''GATEWAY_ID''"
| "folded F_received_at = ''RECEIVED_AT''"
| "folded F_retry_count = ''RETRY_COUNT''"
| "folded F_stream_name = ''STREAM_NAME''"
| "folded F_event_header = ''EVENT_HEADER''"
| "folded F_payload = ''PAYLOAD''"

lemma fold_json_name: "fold_name (json_name f) = folded f"
  by (cases f) (simp_all only: json_name.simps folded.simps fold_names)

lemma folded_inj: "folded f = folded g \<longleftrightarrow> f = g"
  by (cases f; cases g) simp_all

lemma field_of_key_name: "field_of_key (json_name f) = Some f"
  unfolding field_of_key_def fold_json_name folded_inj by (cases f) simp_all

section \<open>Values that can follow a key\<close>

definition followers :: "bytes \<Rightarrow> bool" where
  "followers t \<longleftrightarrow> t = [] \<or> hd t = CHR '','' \<or> hd t = CHR ''}''"

definition value_text :: "bytes \<Rightarrow> bool" where
  "value_text v \<longleftrightarrow> v \<noteq> [] \<and> \<not> json_space (hd v) \<and> (\<forall>t. followers t \<longrightarrow> scan_value inner (v @ t) = Some (v, t))"

lemma skip_space_id: "v \<noteq> [] \<Longrightarrow> \<not> json_space (hd v) \<Longrightarrow> skip_space (v @ t) = v @ t"
  by (cases v) simp_all

lemma value_text_quote: "value_text (quote_string s)"
  by (auto simp: value_text_def scan_quote_string) (simp_all add: quote_string_def json_space_def)

lemma member_quoted:
  assumes "value_text v" and "followers t"
  shows "member (quote_string k @ CHR '':'' # v @ t) = Some ((utf8_fix k, v), t)"
proof -
  have k: "quote_string k \<noteq> []" "hd (quote_string k) = dquote" "\<not> json_space dquote" by (simp_all add: quote_string_def json_space_def)
  have c: "\<not> json_space CHR '':''" by (simp add: json_space_def)
  have "skip_space (quote_string k @ CHR '':'' # v @ t) = quote_string k @ CHR '':'' # v @ t" using k by (intro skip_space_id) simp_all
  moreover have "skip_space (v @ t) = v @ t" using assms(1) by (intro skip_space_id) (simp_all add: value_text_def)
  ultimately show ?thesis
    using assms k c by (simp add: member_def scan_quote_string value_text_def unquote_quote_string)
qed

lemma members_quoted:
  assumes "ms \<noteq> []" and "\<forall>(k, v) \<in> set ms. value_text v"
  shows "members (strings_Join '','' (map (\<lambda>(k, v). quote_string k @ CHR '':'' # v) ms) @ CHR ''}'' # r) =
    Some (map (\<lambda>(k, v). (utf8_fix k, v)) ms, r)"
  using assms
proof (induction ms)
  case (Cons m ms)
  obtain k v where m: "m = (k, v)" by fastforce
  with Cons.prems have v: "value_text v" by simp
  show ?case
  proof (cases "ms = []")
    case True
    have "member (quote_string k @ CHR '':'' # v @ CHR ''}'' # r) = Some ((utf8_fix k, v), CHR ''}'' # r)"
      by (rule member_quoted [OF v]) (simp add: followers_def)
    with True m show ?thesis by (subst members.simps) (simp add: json_space_def)
  next
    case False
    define t where "t = strings_Join '','' (map (\<lambda>(k, v). quote_string k @ CHR '':'' # v) ms) @ CHR ''}'' # r"
    have eq: "strings_Join '','' (map (\<lambda>(k, v). quote_string k @ CHR '':'' # v) (m # ms)) @ CHR ''}'' # r =
        quote_string k @ CHR '':'' # v @ CHR '','' # t"
      using False m by (cases ms) (simp_all add: t_def)
    have "member (quote_string k @ CHR '':'' # v @ CHR '','' # t) = Some ((utf8_fix k, v), CHR '','' # t)"
      by (rule member_quoted [OF v]) (simp add: followers_def)
    moreover have "members t = Some (map (\<lambda>(k, v). (utf8_fix k, v)) ms, r)"
      using Cons False unfolding t_def by simp
    ultimately show ?thesis unfolding eq using m by (subst members.simps) (simp add: json_space_def)
  qed
qed simp

lemma members_join:
  assumes "ms \<noteq> []" and "\<forall>(f, v) \<in> set ms. value_text v"
  shows "members (strings_Join '','' (map (\<lambda>(f, v). member_text f v) ms) @ CHR ''}'' # r) =
    Some (map (\<lambda>(f, v). (json_name f, v)) ms, r)"
proof -
  let ?named = "map (\<lambda>(f, v). (json_name f, v)) ms"
  have quoted: "map (\<lambda>(f, v). member_text f v) ms = map (\<lambda>(k, v). quote_string k @ CHR '':'' # v) ?named"
    by (auto simp: member_text_quoted)
  have fixed: "map (\<lambda>(k, v). (utf8_fix k, v)) ?named = ?named" by (auto simp: utf8_fix_plain json_name_plain)
  have "?named \<noteq> []" "\<forall>(k, v) \<in> set ?named. value_text v" using assms by auto
  from members_quoted [OF this, of r] show ?thesis by (simp only: quoted fixed)
qed

lemma run_plain: "list_all plain s \<Longrightarrow> run lim (InString, fs) s = Some (InString, fs)"
  by (induction s) (auto simp: plain_def)

lemma value_text_run:
  assumes "run inner (BeginValue, []) v = Some y" and "v \<noteq> []" and "\<not> json_space (hd v)"
    and "snd y = []" and "complete (fst y)"
  shows "value_text v"
proof -
  have "stops y t" if "followers t" for t
    using that assms(4,5) by (cases "fst y") (auto simp: stops_def followers_def is_digit_def is_exp_def)
  with assms(1-3) show ?thesis
    by (auto simp: value_text_def scan_value_def intro: value_split_run)
qed

lemma value_text_literal: "list_all plain s \<Longrightarrow> value_text (dquote # s @ [dquote])"
  by (rule value_text_run [of _ "(EndValue, [])"]) (simp_all add: run_append run_plain begin_value_def json_space_def)

lemma run_digits: "list_all is_digit ds \<Longrightarrow> run lim (Num1, fs) ds = Some (Num1, fs)"
  by (induction ds) auto

lemma show_nat_no_leading_zero: "0 < n \<Longrightarrow> \<exists>c cs. show_nat n = c # cs \<and> is_digit c \<and> c \<noteq> CHR ''0'' \<and> list_all is_digit cs"
proof (induction n rule: show_nat.induct)
  case (1 n)
  show ?case
  proof (cases "n < 10")
    case True
    have "digit_char n \<noteq> CHR ''0''"
    proof
      assume "digit_char n = CHR ''0''"
      then have "digit_val (digit_char n) = 0" by (simp add: digit_val_def)
      with True 1 show False by simp
    qed
    with True show ?thesis by (simp add: show_nat.simps [of n])
  next
    case False
    then have "0 < n div 10" by (simp add: div_greater_zero_iff)
    from "1.IH" [OF False this] False show ?thesis by (auto simp: show_nat.simps [of n])
  qed
qed

lemma digit_chars: "is_digit c \<Longrightarrow> \<not> json_space c \<and> c \<notin> {CHR ''{'', CHR ''['', dquote, CHR ''-'', CHR ''t'', CHR ''f'', CHR ''n''}"
  by (auto simp: is_digit_def json_space_def)

lemma run_number: "st = BeginValue \<or> st = NumNeg \<Longrightarrow> \<exists>y. run lim (st, fs) (show_nat n) = Some (y, fs) \<and> complete y"
proof (cases "n = 0")
  case True
  assume "st = BeginValue \<or> st = NumNeg"
  moreover have "show_nat 0 = ''0''" by (subst show_nat.simps) (simp add: digit_char_def, code_simp)
  ultimately show ?thesis using True by (auto simp: begin_value_def json_space_def)
next
  case False
  assume st: "st = BeginValue \<or> st = NumNeg"
  from False show_nat_no_leading_zero [of n] obtain c cs where
    c: "show_nat n = c # cs" "is_digit c" "c \<noteq> CHR ''0''" "list_all is_digit cs" by auto
  with st digit_chars [OF c(2)] show ?thesis by (auto simp: begin_value_def run_digits)
qed

lemma run_Itoa: "\<exists>y. run lim (BeginValue, fs) (strconv_Itoa i) = Some (y, fs) \<and> complete y"
proof (cases "i < 0")
  case True
  have "run lim (BeginValue, fs) (strconv_Itoa i) = run lim (NumNeg, fs) (show_nat (nat (- i)))"
    using True by (simp add: strconv_Itoa_def begin_value_def json_space_def)
  then show ?thesis using run_number [of NumNeg lim fs "nat (- i)"] by simp
next
  case False
  then show ?thesis using run_number [of BeginValue lim fs "nat i"] by (simp add: strconv_Itoa_def)
qed

lemma value_text_Itoa: "value_text (strconv_Itoa i)"
proof -
  obtain y where y: "run inner (BeginValue, []) (strconv_Itoa i) = Some (y, [])" "complete y" using run_Itoa by blast
  obtain d ds where "show_nat (nat i) = d # ds" "is_digit d" using show_nat_hd by blast
  then have "strconv_Itoa i \<noteq> [] \<and> \<not> json_space (hd (strconv_Itoa i))"
    using digit_chars by (simp add: strconv_Itoa_def json_space_def)
  with y show ?thesis by (intro value_text_run [of _ "(y, [])"]) simp_all
qed

lemma ParseInt_Itoa: "in64 i \<Longrightarrow> ParseInt (strconv_Itoa i) = (i, None)"
proof (cases "i < 0")
  case True
  assume "in64 i"
  then have "- i \<le> 2 ^ 63" by (simp add: in64_def minInt64_def)
  then have "nat (- i) \<le> 2 ^ 63" by (simp add: nat_le_iff)
  moreover have "parse_uint 0 (show_nat (nat (- i))) = (nat (- i), None)"
    using \<open>nat (- i) \<le> 2 ^ 63\<close> by (subst parse_uint_digits) (simp_all add: show_nat_digits)
  ultimately show ?thesis using True by (simp add: strconv_Itoa_def ParseInt_def ParseUint_def)
next
  case False
  assume "in64 i"
  then have "nat i < 2 ^ 63" using False by (simp add: in64_def maxInt64_def nat_less_iff)
  with False ParseInt_show_nat [of "nat i"] show ?thesis by (simp add: strconv_Itoa_def)
qed

lemma digit_plain: "is_digit c \<Longrightarrow> plain c"
  by (auto simp: is_digit_def plain_def html_special_def)

lemma plain_marks [simp]: "plain CHR ''-''" "plain CHR '':''" "plain CHR ''T''" "plain CHR ''Z''" "plain CHR ''+''" "plain CHR ''.''" "plain CHR ''0''"
  by (simp_all add: plain_def html_special_def)

lemma pad2_plain: "n < 100 \<Longrightarrow> list_all plain (pad2 n)"
  using pad2_digits [of n] digit_plain by auto

lemma fmt_frac_plain: "list_all plain (fmt_frac k v False [])"
proof (cases "v mod 10 ^ k = 0")
  case False
  from fmt_frac_nonzero [OF this] obtain j where j: "fmt_frac k v False [] = CHR ''.'' # fixed_digits (k - j) (v div 10 ^ j)"
    by (elim exE conjE) (rule that; assumption)
  have "list_all is_digit (fixed_digits (k - j) (v div 10 ^ j))" by simp
  then show ?thesis unfolding j using digit_plain by (auto simp: list_all_iff)
qed (simp add: fmt_frac_zero)

lemma zone_text_plain: "\<bar>off\<bar> < 86400 \<Longrightarrow> list_all plain (zone_text off)"
proof -
  assume "\<bar>off\<bar> < 86400"
  then have "nat \<bar>off\<bar> div 60 div 60 < 100" by (simp add: div_less_iff_less_mult)
  moreover have "nat \<bar>off\<bar> div 60 mod 60 < 100" by (rule less_trans [of _ 60]) simp_all
  ultimately show ?thesis by (simp add: zone_text_def Let_def pad2_plain)
qed

lemma time_text_plain:
  assumes "time_MarshalText t off = Inr s"
  shows "list_all plain s"
proof -
  obtain y m d where ld: "local_date t off = (y, m, d)" by (metis prod_cases3)
  define h where "h = nat (local_seconds t off mod 86400)"
  from assms ld have y: "0 \<le> y" and off: "\<bar>off\<bar> < 86400" and s: "s = format_RFC3339Nano t off"
    by (auto simp: time_MarshalText_def Let_def split: if_splits)
  have lt: "m < 100" "nat d < 100" using date_of_valid [OF ld [unfolded local_date_def]] by simp_all
  have "h < 86400" by (simp add: h_def)
  then have "h div 3600 < 100" by (simp add: div_less_iff_less_mult)
  moreover have "k mod 60 < 100" for k :: nat by (rule less_trans [of _ 60]) simp_all
  moreover have "list_all plain (pad_year y)"
    using y show_nat_digits digit_plain by (auto simp: pad_year_def Let_def list_all_iff)
  ultimately show ?thesis
    unfolding s format_RFC3339Nano_def Let_def h_def [symmetric] ld prod.case
    using lt by (simp add: pad2_plain fmt_frac_plain zone_text_plain [OF off])
qed

section \<open>What decoding guarantees\<close>

definition raw_ok :: "bytes \<Rightarrow> bool" where
  "raw_ok p \<longleftrightarrow> p = [] \<or> \<not> json_space (hd p) \<and> scan_value inner p = Some (p, [])"

text \<open>The invariant of decoded envelopes: texts are valid UTF-8, the counter fits in an \<open>int\<close>, the instant lies in a year that
  can be written in its zone, and the raw fields are empty or hold exactly one JSON value.\<close>

definition wire_ok :: "Envelope \<Rightarrow> bool" where
  "wire_ok e \<longleftrightarrow>
     utf8_fix (EventID e) = EventID e \<and> utf8_fix (GatewayID e) = GatewayID e \<and> utf8_fix (StreamName e) = StreamName e \<and>
     in64 (RetryCount e) \<and> ReceivedZone e mod 60 = 0 \<and>
     0 \<le> fst (local_date (ReceivedAt e) (ReceivedZone e)) \<and> fst (local_date (ReceivedAt e) (ReceivedZone e)) \<le> 9999 \<and>
     raw_ok (EventHeader e) \<and> raw_ok (Payload e)"

lemma wire_ok_zero: "wire_ok zero_Envelope"
proof -
  have "local_date 0 0 = (1, 1, 1)"
    by (simp add: local_date_def local_seconds_def date_of_def year_yday_def month_lengths_def)
  then show ?thesis by (simp add: wire_ok_def zero_Envelope_def raw_ok_def in64_def minInt64_def maxInt64_def zero_time_def)
qed

lemma scan_value_whole: "scan_value lim bs = Some (v, r) \<Longrightarrow> scan_value lim v = Some (v, [])"
proof -
  assume s: "scan_value lim bs = Some (v, r)"
  then obtain y where "run lim (BeginValue, []) v = Some y" "stops y []"
    using value_split_runs stops_end unfolding scan_value_def by blast
  from value_split_run [OF this] show ?thesis by (simp add: scan_value_def)
qed

lemma store_string_ok:
  "store_string v f e = Some e' \<Longrightarrow> e' = e \<or> (\<exists>s. utf8_fix s = s \<and> e' = f s e)"
  using utf8_fix_unquote by (auto simp: store_string_def split: if_splits)

lemma store_field_ok:
  assumes "store_field f v e = Some e'" and "wire_ok e" and "raw_ok v"
  shows "wire_ok e'"
proof (cases f)
  case F_received_at
  then show ?thesis using assms Parse_RFC3339_year
    by (auto simp: store_time_def wire_ok_def split: if_splits option.splits)
next
  case F_retry_count
  have "in64 (fst (ParseInt v))" by (rule ParseInt_in64)
  with F_retry_count show ?thesis using assms
    by (auto simp: store_int_def wire_ok_def split: if_splits option.splits prod.splits)
qed (use assms in \<open>auto simp: wire_ok_def dest!: store_string_ok\<close>)

lemma member_raw_ok: "member s = Some (m, r) \<Longrightarrow> raw_ok (snd m)"
proof -
  assume "member s = Some (m, r)"
  then obtain t where t: "scan_value inner (skip_space t) = Some (snd m, r)"
    by (auto simp: member_def split: if_splits option.splits)
  note v = value_split_append [OF t [unfolded scan_value_def]] scan_value_shorter [OF t]
  have "\<not> json_space (hd (snd m))"
    using v hd_dropWhile [of json_space t] by (cases "snd m") (auto simp: dropWhile_eq_Nil_conv)
  with scan_value_whole [OF t] show ?thesis by (simp add: raw_ok_def)
qed

lemma members_raw_ok: "members s = Some (ms, r) \<Longrightarrow> m \<in> set ms \<Longrightarrow> raw_ok (snd m)"
proof (induction s arbitrary: ms r rule: members.induct)
  case (1 s)
  from "1.prems"(1) obtain m0 r0 c r1 where m0: "member s = Some (m0, r0)" "skip_space r0 = c # r1"
    and rest: "c = CHR '','' \<and> (\<exists>ms'. members r1 = Some (ms', r) \<and> ms = m0 # ms') \<or> c = CHR ''}'' \<and> ms = [m0]"
    by (subst (asm) members.simps) (auto split: option.splits list.splits if_splits)
  from rest show ?case
  proof (elim disjE conjE exE)
    fix ms' assume "c = CHR '',''" "members r1 = Some (ms', r)" "ms = m0 # ms'"
    then show ?thesis using "1.IH" [OF m0(1) refl m0(2)] "1.prems"(2) member_raw_ok [OF m0(1)] by auto
  next
    assume "ms = [m0]"
    then show ?thesis using "1.prems"(2) member_raw_ok [OF m0(1)] by simp
  qed
qed

lemma store_members_ok: "store_members ms e = Some e' \<Longrightarrow> wire_ok e \<Longrightarrow> \<forall>m \<in> set ms. raw_ok (snd m) \<Longrightarrow> wire_ok e'"
  by (induction ms arbitrary: e) (auto simp: store_member_def split: option.splits dest: store_field_ok)

lemma decode_cases:
  assumes "decode raw = Some e"
  obtains (null) "e = zero_Envelope"
  | (object) ms r rest where "object_members r = Some (ms, rest)" "store_members ms zero_Envelope = Some e"
proof (cases "skip_space raw")
  case (Cons c r)
  show thesis
  proof (cases "c = CHR ''{''")
    case True
    with assms Cons show thesis using object by (auto simp: decode_def split: option.splits if_splits)
  next
    case False
    with assms Cons show thesis using null by (auto simp: decode_def split: option.splits if_splits)
  qed
next
  case Nil
  from assms show thesis unfolding decode_def Nil by simp
qed

lemma decode_wire_ok: "decode raw = Some e \<Longrightarrow> wire_ok e"
proof (erule decode_cases)
  fix ms r rest
  assume o: "object_members r = Some (ms, rest)" and s: "store_members ms zero_Envelope = Some e"
  then have "\<forall>m \<in> set ms. raw_ok (snd m)"
    using members_raw_ok by (auto simp: object_members_def split: list.splits if_splits)
  then show ?thesis using store_members_ok [OF s wire_ok_zero] by blast
qed (simp add: wire_ok_zero)

section \<open>Encoding and decoding again\<close>

text \<open>What a raw field is after one hop.\<close>

definition compacted :: "bytes \<Rightarrow> bytes" where
  "compacted p = (case raw_value p of None \<Rightarrow> p | Some q \<Rightarrow> q)"

definition rewritten :: "Envelope \<Rightarrow> Envelope" where
  "rewritten e =
     e\<lparr>EventHeader := (if EventHeader e = [] then [] else compacted (EventHeader e)), Payload := compacted (Payload e)\<rparr>"

lemma raw_value_ok:
  assumes "raw_ok p"
  shows "raw_value p = Some (compacted p) \<and> value_text (compacted p) \<and> (compacted p = ''null'' \<longrightarrow> p = [] \<or> p = ''null'')"
proof (cases "p = []")
  case True
  have "value_text ''null''"
    by (rule value_text_run [of _ "(EndValue, [])"]) (simp_all add: begin_value_def json_space_def)
  with True show ?thesis by (simp add: raw_value_def compacted_def)
next
  case False
  with assms have p: "scan_value inner p = Some (p, [])" "\<not> json_space (hd p)" by (auto simp: raw_ok_def)
  have "inner \<le> maxNestingDepth" by (simp add: inner_def)
  from compact_scanned [OF p(1) this] obtain q where q: "compact p = Some q" "q \<noteq> []" "\<not> json_space (hd q)"
    and s: "\<And>t. \<lbrakk>t = [] \<or> hd t = CHR '','' \<or> hd t = CHR ''}''\<rbrakk> \<Longrightarrow> scan_value inner (q @ t) = Some (q, t)" by blast
  from q s have "value_text q" by (simp add: value_text_def followers_def)
  moreover have "q = ''null'' \<longrightarrow> p = ''null''"
    using False p q(1) compact_null [of inner "hd p" "tl p" p "[]"] by auto
  ultimately show ?thesis using False q(1) by (simp add: raw_value_def compacted_def)
qed

fun store_fields :: "(json_field \<times> bytes) list \<Rightarrow> Envelope \<Rightarrow> Envelope option" where
  "store_fields [] e = Some e"
| "store_fields ((f, v) # ms) e = (case store_field f v e of None \<Rightarrow> None | Some e' \<Rightarrow> store_fields ms e')"

lemma store_names: "store_members (map (\<lambda>(f, v). (json_name f, v)) ms) e = store_fields ms e"
  by (induction ms e rule: store_fields.induct) (simp_all add: store_member_def field_of_key_name split: option.split)

lemma store_quoted: "utf8_fix s = s \<Longrightarrow> store_string (quote_string s) f e = Some (f s e)"
proof -
  assume "utf8_fix s = s"
  moreover have "quote_string s \<noteq> ''null''" "hd (quote_string s) = dquote" by (simp_all add: quote_string_def)
  ultimately show ?thesis by (simp add: store_string_def unquote_quote_string)
qed

lemma store_time_text:
  assumes "time_text t off = Inr v" and "off mod 60 = 0"
  shows "store_time v e = Some (e\<lparr>ReceivedAt := t, ReceivedZone := off\<rparr>)" "value_text v"
proof -
  from assms(1) obtain s where s: "time_MarshalText t off = Inr s" "v = dquote # s @ [dquote]"
    by (cases "time_MarshalText t off") (auto simp: time_text_def)
  then show "value_text v" using value_text_literal time_text_plain by simp
  show "store_time v e = Some (e\<lparr>ReceivedAt := t, ReceivedZone := off\<rparr>)"
    using s Parse_MarshalText [OF s(1) assms(2)] by (simp add: store_time_def)
qed

lemma store_Itoa: "in64 i \<Longrightarrow> store_int (strconv_Itoa i) e = Some (e\<lparr>RetryCount := i\<rparr>)"
proof -
  assume i: "in64 i"
  obtain d ds where d: "show_nat (nat i) = d # ds" "is_digit d" using show_nat_hd by blast
  obtain c cs where c: "strconv_Itoa i = c # cs" "c = CHR ''-'' \<or> is_digit c"
  proof (cases "i < 0")
    case True
    then show thesis using that by (simp add: strconv_Itoa_def)
  qed (use d that in \<open>simp add: strconv_Itoa_def\<close>)
  then have "strconv_Itoa i \<noteq> ''null''" by (auto simp: is_digit_def)
  moreover have "hd (strconv_Itoa i) = CHR ''-'' \<or> is_digit (hd (strconv_Itoa i))" using c by simp
  ultimately show ?thesis unfolding store_int_def ParseInt_Itoa [OF i] by simp
qed

definition marshal_fields :: "Envelope \<Rightarrow> bytes \<Rightarrow> (json_field \<times> bytes) list" where
  "marshal_fields e at =
     [(F_event_id, quote_string (EventID e)), (F_gateway_id, quote_string (GatewayID e)), (F_received_at, at),
      (F_retry_count, strconv_Itoa (RetryCount e))] @
     optional (StreamName e = []) (F_stream_name, quote_string (StreamName e)) @
     optional (EventHeader e = []) (F_event_header, compacted (EventHeader e)) @
     [(F_payload, compacted (Payload e))]"

lemma Marshal_text:
  assumes "wire_ok e" and "time_text (ReceivedAt e) (ReceivedZone e) = Inr at"
  shows "Marshal explain e = Inr (''{'' @ strings_Join '','' (map (\<lambda>(f, v). member_text f v) (marshal_fields e at)) @ ''}'')"
proof -
  have "raw_value (EventHeader e) = Some (compacted (EventHeader e))" "raw_value (Payload e) = Some (compacted (Payload e))"
    using assms(1) raw_value_ok by (simp_all add: wire_ok_def)
  with assms(2) show ?thesis by (simp add: Marshal_def marshal_fields_def optional_def)
qed

lemma store_marshal_fields:
  assumes "wire_ok e" and "time_text (ReceivedAt e) (ReceivedZone e) = Inr at"
  shows "store_members (map (\<lambda>(f, v). (json_name f, v)) (marshal_fields e at)) zero_Envelope = Some (rewritten e)"
proof -
  from assms(1) have ok: "utf8_fix (EventID e) = EventID e" "utf8_fix (GatewayID e) = GatewayID e"
    "utf8_fix (StreamName e) = StreamName e" "in64 (RetryCount e)" "ReceivedZone e mod 60 = 0"
    by (simp_all add: wire_ok_def)
  note st = store_quoted [OF ok(1)] store_quoted [OF ok(2)] store_quoted [OF ok(3)] store_Itoa [OF ok(4)] store_time_text(1) [OF assms(2) ok(5)]
  show ?thesis
    unfolding store_names marshal_fields_def optional_def
    by (simp add: st rewritten_def zero_Envelope_def)
qed

lemma marshal_fields_values:
  assumes "wire_ok e" and "time_text (ReceivedAt e) (ReceivedZone e) = Inr at"
  shows "\<forall>(f, v) \<in> set (marshal_fields e at). value_text v"
proof -
  have "value_text (compacted (EventHeader e))" "value_text (compacted (Payload e))" "value_text at"
    using assms raw_value_ok store_time_text(2) by (auto simp: wire_ok_def)
  then show ?thesis by (simp add: marshal_fields_def optional_def value_text_quote value_text_Itoa)
qed

lemma decode_Marshal:
  assumes "wire_ok e" and "Marshal explain e = Inr body"
  shows "decode body = Some (rewritten e)"
proof -
  from assms(2) obtain at where at: "time_text (ReceivedAt e) (ReceivedZone e) = Inr at"
    by (auto simp: Marshal_def split: sum.splits)
  define t where "t = strings_Join '','' (map (\<lambda>(f, v). member_text f v) (marshal_fields e at)) @ CHR ''}'' # []"
  from assms(2) Marshal_text [OF assms(1) at, of explain] have body: "body = CHR ''{'' # t" by (simp add: t_def)
  have m: "members t = Some (map (\<lambda>(f, v). (json_name f, v)) (marshal_fields e at), [])"
    unfolding t_def by (rule members_join [OF _ marshal_fields_values [OF assms(1) at]]) (simp add: marshal_fields_def)
  have "\<exists>u. t = dquote # u" by (simp add: t_def marshal_fields_def optional_def member_text_def)
  then have "object_members t = members t" by (auto simp: object_members_def json_space_def)
  with m store_marshal_fields [OF assms(1) at] show ?thesis
    unfolding body by (simp add: decode_def json_space_def)
qed

lemma Marshal_succeeds:
  assumes "wire_ok e"
  shows "(\<exists>body. Marshal explain e = Inr body) \<longleftrightarrow> \<bar>ReceivedZone e\<bar> < 86400"
proof -
  have "(\<exists>at. time_text (ReceivedAt e) (ReceivedZone e) = Inr at) \<longleftrightarrow> \<bar>ReceivedZone e\<bar> < 86400"
    using assms by (auto simp: time_text_def time_MarshalText_def wire_ok_def)
  moreover have "(\<exists>body. Marshal explain e = Inr body) \<longleftrightarrow> (\<exists>at. time_text (ReceivedAt e) (ReceivedZone e) = Inr at)"
    using Marshal_text [OF assms, of _ explain] by (cases "time_text (ReceivedAt e) (ReceivedZone e)") (auto simp: Marshal_def)
  ultimately show ?thesis by simp
qed

lemma rewritten_well_formed: "wire_ok e \<Longrightarrow> well_formed e \<Longrightarrow> well_formed (rewritten e)"
  using raw_value_ok [of "Payload e"] by (auto simp: well_formed_def rewritten_def wire_ok_def value_text_def)

lemma rewritten_wire_ok: "wire_ok e \<Longrightarrow> Marshal explain e = Inr body \<Longrightarrow> wire_ok (rewritten e)"
  using decode_Marshal decode_wire_ok by blast

lemma Parse_Unmarshal: "Parse (Unmarshal explain) raw = (e, None) \<longleftrightarrow> decode raw = Some e \<and> well_formed e"
  by (auto simp: Parse_def Unmarshal_def split: option.splits)

lemma compacted_idem: "raw_ok p \<Longrightarrow> compacted (compacted p) = compacted p"
proof (cases "p = []")
  case True
  have "compact ''null'' = Some ''null''" by code_simp
  with True show ?thesis by (simp add: compacted_def raw_value_def)
next
  case False
  assume "raw_ok p"
  with raw_value_ok [of p] False have "compact p = Some (compacted p)" "compacted p \<noteq> []"
    by (simp_all add: raw_value_def value_text_def)
  then show ?thesis using compact_idem by (simp add: compacted_def [of "compacted p"] raw_value_def)
qed

text \<open>A second hop changes nothing: what was decoded is encoded to the very bytes it came from.\<close>

lemma Marshal_rewritten:
  assumes "wire_ok e" and "Marshal explain e = Inr body"
  shows "Marshal explain (rewritten e) = Inr body"
proof -
  from assms(2) obtain at where at: "time_text (ReceivedAt e) (ReceivedZone e) = Inr at"
    by (auto simp: Marshal_def split: sum.splits)
  have raw: "raw_ok (EventHeader e)" "raw_ok (Payload e)" using assms(1) by (simp_all add: wire_ok_def)
  have "compacted (EventHeader e) \<noteq> []" using raw_value_ok [OF raw(1)] by (simp add: value_text_def)
  then have "marshal_fields (rewritten e) at = marshal_fields e at"
    using compacted_idem [OF raw(1)] compacted_idem [OF raw(2)]
    by (simp add: marshal_fields_def rewritten_def optional_def)
  moreover have "time_text (ReceivedAt (rewritten e)) (ReceivedZone (rewritten e)) = Inr at" using at by (simp add: rewritten_def)
  ultimately show ?thesis
    using Marshal_text [OF assms(1) at, of explain] Marshal_text [OF rewritten_wire_ok [OF assms], of at explain] assms(2) by simp
qed

section \<open>Properties\<close>

text \<open>An event as the gateway sends it, with space in its payload and a character that JSON encoders for the web escape.\<close>

definition example_raw :: bytes where
  "example_raw = ''{\"event_id\":\"e\",\"gateway_id\":\"g\",\"payload\": {\"a\": \"<\"}}''"

definition example_event :: Envelope where
  "example_event = zero_Envelope\<lparr>EventID := ''e'', GatewayID := ''g'', Payload := ''{\"a\": \"<\"}''\<rparr>"

lemma json_space_chars: "json_space c \<longleftrightarrow> c = CHR '' '' \<or> c = CHR 0x09 \<or> c = CHR 0x0A \<or> c = CHR 0x0D"
  using byte_char [of c 9] byte_char [of c 10] byte_char [of c 13] by (auto simp: json_space_def char_literals)

lemmas scan_defs = member_def scan_value_def stops_def json_space_chars begin_value_def begin_string_def unquote_Cons unquote_one_def

lemma example_members:
  "member ''\"event_id\":\"e\",\"gateway_id\":\"g\",\"payload\": {\"a\": \"<\"}}'' =
     Some ((''event_id'', ''\"e\"''), '',\"gateway_id\":\"g\",\"payload\": {\"a\": \"<\"}}'')"
  "member ''\"gateway_id\":\"g\",\"payload\": {\"a\": \"<\"}}'' = Some ((''gateway_id'', ''\"g\"''), '',\"payload\": {\"a\": \"<\"}}'')"
  "member ''\"payload\": {\"a\": \"<\"}}'' = Some ((''payload'', ''{\"a\": \"<\"}''), ''}'')"
  by (simp_all add: scan_defs inner_def maxNestingDepth_def)

lemma example_decoded: "decode example_raw = Some example_event"
proof -
  have "members ''\"event_id\":\"e\",\"gateway_id\":\"g\",\"payload\": {\"a\": \"<\"}}'' =
      Some (map (\<lambda>(f, v). (json_name f, v)) [(F_event_id, ''\"e\"''), (F_gateway_id, ''\"g\"''), (F_payload, ''{\"a\": \"<\"}'')], [])"
    by (subst members.simps, simp add: example_members json_space_chars)+
  then have "object_members ''\"event_id\":\"e\",\"gateway_id\":\"g\",\"payload\": {\"a\": \"<\"}}'' =
      Some (map (\<lambda>(f, v). (json_name f, v)) [(F_event_id, ''\"e\"''), (F_gateway_id, ''\"g\"''), (F_payload, ''{\"a\": \"<\"}'')], [])"
    by (simp add: object_members_def json_space_chars)
  moreover have "store_fields [(F_event_id, ''\"e\"''), (F_gateway_id, ''\"g\"''), (F_payload, ''{\"a\": \"<\"}'')] zero_Envelope = Some example_event"
    by (simp add: store_string_def unquote_Cons unquote_one_def example_event_def)
  ultimately show ?thesis unfolding store_names [symmetric] by (simp add: decode_def example_raw_def json_space_chars)
qed

text \<open>
  C28. Whatever bytes arrive, an envelope that decodes has fields of the form the rest of the service relies on: its texts are valid
  UTF-8, its retry count fits in an \<open>int\<close>, its instant has a year from 0 to 9999 in its zone, which is of whole minutes, and its
  header and payload are each empty - the field was absent - or exactly one JSON value with nothing around it. The
  zone itself is not bounded: it may be a day or more from UTC, and then the instant cannot be encoded again.
\<close>

theorem Unmarshal_typed:
  assumes "Unmarshal explain raw = Inr e"
  shows "wire_ok e"
  using assms decode_wire_ok by (auto simp: Unmarshal_def split: option.splits)

theorem Unmarshal_typed_witness: "wire_ok example_event"
  using Unmarshal_typed [of "\<lambda>_. []" example_raw example_event] by (simp add: Unmarshal_def example_decoded)

text \<open>
  C27. An event that was accepted can be encoded for a destination exactly if the zone of its timestamp is less than a day from UTC.
  The destination that decodes the body accepts it too, and reads the same event: every field is the same but for header and
  payload, whose bytes are those of the compacted, HTML-escaped JSON. Encoding the event it has read gives the same body again,
  so bytes change on the first hop only.
\<close>

theorem wire_roundtrip:
  assumes "Parse (Unmarshal explain) raw = (env, None)"
  shows "((\<exists>body. Marshal explain env = Inr body) \<longleftrightarrow> \<bar>ReceivedZone env\<bar> < 24 * 60 * 60) \<and>
    (\<forall>body. Marshal explain env = Inr body \<longrightarrow>
       Parse (Unmarshal explain) body = (rewritten env, None) \<and> Marshal explain (rewritten env) = Inr body)"
proof -
  from assms have e: "wire_ok env" "well_formed env" using decode_wire_ok by (auto simp: Parse_Unmarshal)
  show ?thesis
    using Marshal_succeeds [OF e(1), of explain] decode_Marshal [OF e(1)] Marshal_rewritten [OF e(1)] rewritten_well_formed [OF e]
    by (auto simp: Parse_Unmarshal)
qed

lemma example_accepted: "Parse (Unmarshal explain) example_raw = (example_event, None)"
  using example_decoded by (simp add: Parse_Unmarshal) (simp add: well_formed_def example_event_def zero_Envelope_def)

theorem wire_roundtrip_witness:
  "\<exists>body. Marshal (\<lambda>_. []) example_event = Inr body \<and> Parse (Unmarshal (\<lambda>_. [])) body = (rewritten example_event, None)"
  using wire_roundtrip [OF example_accepted, of "\<lambda>_. []"] by (auto simp: example_event_def zero_Envelope_def)

text \<open>The payload of such an event is not what the destination receives.\<close>

theorem payload_not_byte_for_byte:
  "Parse (Unmarshal explain) example_raw = (example_event, None) \<and>
   (\<exists>body. Marshal explain example_event = Inr body \<and> decode body = Some (rewritten example_event)) \<and>
   Payload example_event = ''{\"a\": \"<\"}'' \<and> Payload (rewritten example_event) = ''{\"a\":\"'' @ u_escape 60 @ ''\"}''"
proof -
  have "compact ''{\"a\": \"<\"}'' = Some (''{\"a\":\"'' @ u_escape 60 @ ''\"}'')" by code_simp
  then have p: "Payload (rewritten example_event) = ''{\"a\":\"'' @ u_escape 60 @ ''\"}''"
    by (simp add: rewritten_def example_event_def compacted_def raw_value_def)
  have ok: "wire_ok example_event" using example_decoded decode_wire_ok by blast
  have "\<bar>ReceivedZone example_event\<bar> < 86400" by (simp add: example_event_def zero_Envelope_def)
  then obtain body where body: "Marshal explain example_event = Inr body" using Marshal_succeeds [OF ok] by blast
  have "Payload example_event = ''{\"a\": \"<\"}''" by (simp add: example_event_def)
  with p example_accepted body decode_Marshal [OF ok body] show ?thesis by blast
qed

end
