(* ===== verification/Wire.thy ===== *)
theory Wire
  imports Codec Stub
begin

text \<open>
  Ingestion and dispatch composed over the encoding: the bytes that \<open>envelope.Parse\<close> accepts from a source, and the bytes that
  the HTTP destinations post for the envelope made of them. The encoder of \<open>net\<close> is here the one of \<open>Codec\<close>.
\<close>

text \<open>What a dispatch of an envelope that can be encoded puts on the wire, to one destination and to several.\<close>

lemma sent_on_the_wire:
  assumes "n_Marshal N env = Inr body" and "n_NewRequest N (hd_url d) = None"
    and "Policy_Do p c (http_destination N d) env obs w = (Ret (n, e), w')" and "1 \<le> MaxAttempts p" and "counting obs"
  shows "issued w w' = map (\<lambda>i. HTTP_POST (attempt_request d env body i)) [1..n]"
proof -
  have "trace w' = trace w @ map (\<lambda>k. HTTP_POST (attempt_request d env body k)) [1..n]"
    using Do_from_wire [OF assms(1,2,5) assms(3) [unfolded Policy_Do_def] assms(4)] by simp
  then show ?thesis using extendsI by blast
qed

definition posts :: "Envelope \<Rightarrow> bytes \<Rightarrow> (HTTPDestination \<times> int) list \<Rightarrow> cmd list" where
  "posts env body xs = concat (map (\<lambda>(d, n). map (\<lambda>i. HTTP_POST (attempt_request d env body i)) [1..n]) xs)"

lemma send_all_wire:
  assumes "n_Marshal N env = Inr body" and "\<forall>x \<in> set ds. n_NewRequest N (hd_url x) = None" and "1 \<le> MaxAttempts (policy d)"
    and "send_all d c env (map (http_destination N) ds) w = (Ret outs, w')"
  shows "\<exists>ns. length ns = length ds \<and> (\<forall>n \<in> set ns. 1 \<le> n) \<and> trace w' = trace w @ posts env body (zip ds ns)"
  using assms(2,4)
proof (induction ds arbitrary: w outs)
  case (Cons x ds)
  let ?x = "http_destination N x"
  obtain r1 w1 where one: "send_one d c env ?x w = (r1, w1)" by fastforce
  with Cons.prems(2) obtain out where out: "r1 = Ret out" by (cases r1) auto
  with one Cons.prems(2) obtain outs2 where rest: "send_all d c env (map (http_destination N) ds) w1 = (Ret outs2, w')"
    by (auto split: gores.splits prod.splits)
  obtain n e w0 where run: "Policy_Do (policy d) c ?x env (attempts_observer d ?x) w = (Ret (n, e), w0)"
    using one out by (auto simp: send_one_def split: gores.splits prod.splits)
  have "n_NewRequest N (hd_url x) = None" using Cons.prems(1) by simp
  from Do_from_wire [OF assms(1) this counting_attempts(1) run [unfolded Policy_Do_def] assms(3)]
  have t: "trace w0 = trace w @ map (\<lambda>i. HTTP_POST (attempt_request x env body i)) [1..n]" "1 \<le> n" by simp_all
  have "trace w1 = trace w0"
    using one run by (auto simp: send_one_def Let_def split: option.splits)
  moreover obtain ns where "length ns = length ds" "\<forall>n \<in> set ns. 1 \<le> n" "trace w' = trace w1 @ posts env body (zip ds ns)"
    using Cons.IH [OF _ rest] Cons.prems(1) by auto
  ultimately show ?case using t by (intro exI [of _ "n # ns"]) (simp add: posts_def)
qed (simp add: posts_def)

text \<open>
  C23. From an accepted entry to the wire: a dispatch, to a URL that parses, that reports \<open>n\<close> attempts has sent \<open>n\<close> requests with one
  and the same body. The destination that parses this body with the service's own rules accepts it and reads the event in which
  header and payload are replaced by their compacted, HTML-escaped JSON and every other field is as it was accepted. That is the
  accepted event itself exactly if header and payload had this form already: header and payload are not passed on byte for
  byte, as the contract of the service has it. An event whose timestamp is in a zone a day or more from UTC is accepted, but
  given up after one attempt, with nothing sent.
\<close>

theorem accepted_on_the_wire:
  assumes "Parse (Unmarshal explain) raw = (env, None)"
    and "n_Marshal N = Marshal explain" and "n_NewRequest N (hd_url d) = None"
    and "Policy_Do p c (http_destination N d) env obs w = (Ret (n, e), w')"
    and "1 \<le> MaxAttempts p" and "counting obs"
  shows "if \<bar>ReceivedZone env\<bar> < 24 * 60 * 60
    then \<exists>body. Parse (Unmarshal explain) body = (rewritten env, None) \<and>
           (rewritten env = env \<longleftrightarrow> (EventHeader env = [] \<or> compacted (EventHeader env) = EventHeader env) \<and>
              compacted (Payload env) = Payload env) \<and>
           issued w w' = map (\<lambda>i. HTTP_POST (attempt_request d env body i)) [1..n]
    else n = 1 \<and> e \<noteq> None \<and> issued w w' = []"
proof -
  from assms(1) have ok: "wire_ok env" "well_formed env" using decode_wire_ok by (auto simp: Parse_Unmarshal)
  show ?thesis
  proof (cases "Marshal explain env")
    case (Inl err)
    with Marshal_succeeds [OF ok(1), of explain] have "\<not> \<bar>ReceivedZone env\<bar> < 24 * 60 * 60" by simp
    moreover have "n = 1 \<and> e \<noteq> None \<and> trace w' = trace w"
      using refused_attempt [OF _ assms(5,6,4)] Inl assms(2) by simp
    ultimately show ?thesis using same_trace [of w' w] by simp
  next
    case (Inr body)
    with Marshal_succeeds [OF ok(1), of explain] have "\<bar>ReceivedZone env\<bar> < 24 * 60 * 60" by auto
    moreover have "Parse (Unmarshal explain) body = (rewritten env, None)"
      using decode_Marshal [OF ok(1) Inr] rewritten_well_formed [OF ok] by (simp add: Parse_Unmarshal)
    moreover have "issued w w' = map (\<lambda>k. HTTP_POST (attempt_request d env body k)) [1..n]"
      using sent_on_the_wire [OF _ assms(3,4,5,6)] Inr assms(2) by simp
    moreover have "rewritten env = env \<longleftrightarrow>
        (EventHeader env = [] \<or> compacted (EventHeader env) = EventHeader env) \<and> compacted (Payload env) = Payload env"
      by (cases env) (auto simp: rewritten_def)
    ultimately show ?thesis by auto
  qed
qed

definition wire_net :: "unit net" where
  "wire_net = example_net\<lparr>n_Marshal := Marshal (\<lambda>_. [])\<rparr>"

theorem accepted_on_the_wire_witness:
  "\<exists>n e w' body. Policy_Do example_policy background (http_destination wire_net (NewLTR ''http://ltr'' ''a''))
       example_event None example_world = (Ret (n, e), w') \<and>
     Parse (Unmarshal (\<lambda>_. [])) body = (rewritten example_event, None) \<and> int (length (issued example_world w')) = n"
proof -
  obtain n e w' where run: "Policy_Do example_policy background
      (http_destination wire_net (NewLTR ''http://ltr'' ''a'')) example_event None example_world = (Ret (n, e), w')" and "1 \<le> n"
    using Policy_Do_total [OF http_dest.destination_axioms example_policy_ok counting_attempts(2)] by metis
  have net: "n_Marshal wire_net = Marshal (\<lambda>_. [])" "n_NewRequest wire_net (hd_url (NewLTR ''http://ltr'' ''a'')) = None"
    by (simp_all add: wire_net_def example_net_def)
  have "\<bar>ReceivedZone example_event\<bar> < 24 * 60 * 60" by (simp add: example_event_def zero_Envelope_def)
  with accepted_on_the_wire [OF example_accepted net run example_policy_ok(1) counting_attempts(2)] obtain body where
    "Parse (Unmarshal (\<lambda>_. [])) body = (rewritten example_event, None)"
    "issued example_world w' = map (\<lambda>i. HTTP_POST (attempt_request (NewLTR ''http://ltr'' ''a'') example_event body i)) [1..n]"
    by (auto simp: if_P)
  with run \<open>1 \<le> n\<close> show ?thesis by (intro exI [of _ n] exI [of _ e] exI [of _ w'] exI [of _ body]) simp
qed

end
