(* ===== verification/Metrics.thy ===== *)
theory Metrics
  imports Process
begin

text \<open>
  The instruments of \<open>internal/observability/metrics.go\<close>: what \<open>NewMetrics\<close> registers, by kind, name and label names (help
  texts and histogram buckets are left out). \<open>WithLabelValues\<close> of the Prometheus client panics when the number of values
  differs from the number of labels, so the place where labels are declared and the many places where values are given
  have to agree; that they do is the property at the end.
\<close>

section \<open>The instruments\<close>

datatype instrument_kind = GaugeVec | CounterVec | HistogramVec

record instrument =
  ins_kind :: instrument_kind
  ins_name :: string
  ins_labels :: "string list"

definition gauge_vec :: "string \<Rightarrow> string list \<Rightarrow> instrument" where
  "gauge_vec n ls = \<lparr>ins_kind = GaugeVec, ins_name = n, ins_labels = ls\<rparr>"

definition counter_vec :: "string \<Rightarrow> string list \<Rightarrow> instrument" where
  "counter_vec n ls = \<lparr>ins_kind = CounterVec, ins_name = n, ins_labels = ls\<rparr>"

definition histogram_vec :: "string \<Rightarrow> string list \<Rightarrow> instrument" where
  "histogram_vec n ls = \<lparr>ins_kind = HistogramVec, ins_name = n, ins_labels = ls\<rparr>"

definition NewMetrics :: "instrument list" where
  "NewMetrics =
     [gauge_vec ''conflux_agent_lag_entries'' [''agent'', ''source''],
      gauge_vec ''conflux_agent_lag_approximate'' [''agent'', ''source''],
      counter_vec ''conflux_events_processed_total'' [''agent'', ''source''],
      counter_vec ''conflux_events_unprocessable_total'' [''agent'', ''source'', ''reason''],
      counter_vec ''conflux_dispatch_attempts_total'' [''agent'', ''destination'', ''outcome''],
      counter_vec ''conflux_dispatch_dropped_total'' [''agent'', ''destination'', ''reason''],
      histogram_vec ''conflux_dispatch_duration_seconds'' [''agent'', ''destination''],
      counter_vec ''conflux_agent_runs_total'' [''agent'', ''outcome''],
      histogram_vec ''conflux_agent_run_duration_seconds'' [''agent''],
      counter_vec ''conflux_agent_panics_total'' [''agent''],
      gauge_vec ''conflux_pending_entries'' [''agent'', ''source''],
      counter_vec ''conflux_entries_reclaimed_total'' [''agent'', ''source''],
      gauge_vec ''conflux_anomalies_active'' [''type''],
      counter_vec ''conflux_notifications_sent_total'' [''type'', ''result''],
      gauge_vec ''conflux_log_list_depth'' [''source'']]"

text \<open>A series belongs to an instrument of its kind and has a value for each of its labels.\<close>

definition declared :: "instrument_kind \<Rightarrow> series \<Rightarrow> bool" where
  "declared k s \<longleftrightarrow>
     list_ex (\<lambda>i. ins_kind i = k \<and> ins_name i = fst s \<and> length (ins_labels i) = length (snd s)) NewMetrics"

definition only_declared :: "'n world \<Rightarrow> 'n world \<Rightarrow> bool" where
  "only_declared w w' \<longleftrightarrow>
     (\<forall>s. counters w' s \<noteq> counters w s \<longrightarrow> declared CounterVec s) \<and>
     (\<forall>s. gauges w' s \<noteq> gauges w s \<longrightarrow> declared GaugeVec s) \<and>
     (\<forall>s. histograms w' s \<noteq> histograms w s \<longrightarrow> declared HistogramVec s)"

section \<open>Lemmas\<close>

lemma declared_series [simp]:
  "declared GaugeVec (''conflux_agent_lag_entries'', [a, b])"
  "declared GaugeVec (''conflux_agent_lag_approximate'', [a, b])"
  "declared CounterVec (''conflux_events_processed_total'', [a, b])"
  "declared CounterVec (''conflux_events_unprocessable_total'', [a, b, d])"
  "declared CounterVec (''conflux_dispatch_attempts_total'', [a, b, d])"
  "declared CounterVec (''conflux_dispatch_dropped_total'', [a, b, d])"
  "declared HistogramVec (''conflux_dispatch_duration_seconds'', [a, b])"
  "declared CounterVec (''conflux_agent_runs_total'', [a, b])"
  "declared HistogramVec (''conflux_agent_run_duration_seconds'', [a])"
  "declared CounterVec (''conflux_agent_panics_total'', [a])"
  "declared GaugeVec (''conflux_pending_entries'', [a, b])"
  "declared CounterVec (''conflux_entries_reclaimed_total'', [a, b])"
  "declared GaugeVec (''conflux_anomalies_active'', [a])"
  "declared CounterVec (''conflux_notifications_sent_total'', [a, b])"
  "declared GaugeVec (''conflux_log_list_depth'', [a])"
  by (simp_all add: declared_def NewMetrics_def gauge_vec_def counter_vec_def histogram_vec_def)

lemma only_declared_refl [simp]: "only_declared w w"
  by (simp add: only_declared_def)

lemma only_declared_trans [trans]: "only_declared w w1 \<Longrightarrow> only_declared w1 w2 \<Longrightarrow> only_declared w w2"
  by (simp add: only_declared_def) metis

lemma only_declared_quiet: "quiet w w' \<Longrightarrow> only_declared w w'"
  by (simp add: only_declared_def quiet_def)

lemma only_declared_log: "only_declared v w \<Longrightarrow> only_declared v (log_at lg lv msg as w)"
  by (simp add: only_declared_def log_at_def)

lemma only_declared_Inc: "only_declared v w \<Longrightarrow> declared CounterVec (m, ls) \<Longrightarrow> only_declared v (counter_Inc m ls w)"
  by (auto simp: only_declared_def counter_Inc_def)

lemma only_declared_Set: "only_declared v w \<Longrightarrow> declared GaugeVec (m, ls) \<Longrightarrow> only_declared v (gauge_Set m ls x w)"
  by (auto simp: only_declared_def gauge_Set_def)

lemma only_declared_Observe:
  "only_declared v w \<Longrightarrow> declared HistogramVec (m, ls) \<Longrightarrow> only_declared v (histogram_Observe m ls x w)"
  by (auto simp: only_declared_def histogram_Observe_def)

lemmas metric_intros = only_declared_log only_declared_Inc only_declared_Set only_declared_Observe

lemma only_declared_then_quiet: "only_declared v w \<Longrightarrow> quiet w w' \<Longrightarrow> only_declared v w'"
  using only_declared_trans only_declared_quiet by blast

section \<open>Dispatch\<close>

lemma observe_declared: "only_declared v w \<Longrightarrow> only_declared v (observe (attempts_observer d dest) i s w)"
  by (simp add: observe_def attempts_observer_def metric_intros)

lemma Do_declared:
  assumes "destination dest"
  shows "Do_from p c dest env (attempts_observer d dest) i b l w = (r, w') \<Longrightarrow> only_declared w w'"
proof (induction "nat (MaxAttempts p + 1 - i)" arbitrary: i b l w rule: less_induct)
  case less
  let ?obs = "attempts_observer d dest"
  have att: "only_declared w (observe ?obs j s w1)" if "dest_Dispatch dest (attempt_ctx p c i w) env w = (x, w1)" for x w1 j s
    using destination.Dispatch_quiet [OF assms that] only_declared_quiet observe_declared by blast
  show ?case
  proof (cases "i \<le> MaxAttempts p")
    case True
    from less.prems True show ?thesis
    proof (cases rule: Do_from_cases)
      case (Panicked w1 err m)
      show ?thesis
        by (rule only_declared_then_quiet [OF att [OF Panicked(1)] conjunct1 [OF rand_quiet [OF Panicked(4)]]])
    next
      case (Cancelled w1 err wait w3 e)
      note 1 = only_declared_then_quiet [OF att [OF Cancelled(1)] conjunct1 [OF rand_quiet [OF Cancelled(4)]]]
      show ?thesis by (rule only_declared_then_quiet [OF 1 conjunct1 [OF select_quiet [OF Cancelled(5)]]])
    next
      case (Retry w1 err wait w3 w4)
      note 1 = only_declared_then_quiet [OF att [OF Retry(1)] conjunct1 [OF rand_quiet [OF Retry(4)]]]
      have "only_declared w w4" by (rule only_declared_then_quiet [OF 1 conjunct1 [OF select_quiet [OF Retry(5)]]])
      moreover have "only_declared w4 w'" using less.hyps [OF _ Retry(6)] True by simp
      ultimately show ?thesis by (rule only_declared_trans)
    qed (use att in auto)
  next
    case False
    with less.prems show ?thesis by (subst (asm) Do_from.simps) simp
  qed
qed

lemma send_one_declared: "destination dest \<Longrightarrow> send_one d c env dest w = (r, w') \<Longrightarrow> only_declared w w'"
  by (auto simp: send_one_def Policy_Do_def Let_def intro!: metric_intros dest!: Do_declared
      split: prod.splits gores.splits option.splits)

lemma send_all_declared: "\<forall>x \<in> set xs. destination x \<Longrightarrow> send_all d c env xs w = (r, w') \<Longrightarrow> only_declared w w'"
proof (induction xs arbitrary: w r)
  case (Cons x xs)
  obtain r1 w1 where 1: "send_one d c env x w = (r1, w1)" by fastforce
  then have "only_declared w w1" using Cons.prems(1) send_one_declared by auto
  with Cons 1 only_declared_trans show ?case by (fastforce split: gores.splits prod.splits)
qed simp

definition sound_dispatcher :: "'n Dispatcher \<Rightarrow> bool" where
  "sound_dispatcher d \<longleftrightarrow> (\<forall>x \<in> set (dests d). destination x)"

lemma Send_declared: "sound_dispatcher d \<Longrightarrow> Send d c env w = (r, w') \<Longrightarrow> only_declared w w'"
  unfolding sound_dispatcher_def Send_def by (rule send_all_declared)

section \<open>Agents\<close>

definition acks_quietly :: "'n Delivery \<Rightarrow> bool" where
  "acks_quietly d \<longleftrightarrow> (\<forall>c v e v'. Ack d c v = (e, v') \<longrightarrow> quiet v v')"

lemma Ack_declared: "acks_quietly d \<Longrightarrow> only_declared w v \<Longrightarrow> Ack d c v = (e, v') \<Longrightarrow> only_declared w v'"
  unfolding acks_quietly_def using only_declared_then_quiet by blast

lemma handle_declared:
  assumes "sound_dispatcher (sa_dispatcher a)" and "acks_quietly d" and "handle a c d w = (r, w')"
  shows "only_declared w w'"
proof -
  have unp: "only_declared w (handle_unprocessable a c d reason w)" for reason
  proof -
    define w2 where "w2 = counter_Inc ''conflux_events_unprocessable_total'' [sa_id a, ref_Name (d_Source d), ''parse'']
      (log_at (sa_log a) LError ''unprocessable entry''
         [(''source'', AStr (ref_Name (d_Source d))), (''position'', AStr (d_Position d)),
          (''reason'', AStr (error_Error reason)), (''raw'', AStr (raw_text d))] w)"
    obtain e w3 where ack: "Ack d c w2 = (e, w3)" by fastforce
    have "only_declared w w2" unfolding w2_def by (intro metric_intros) simp_all
    from Ack_declared [OF assms(2) this ack] show ?thesis
      unfolding handle_unprocessable_def Let_def w2_def [symmetric] ack by (cases e) (auto intro: metric_intros)
  qed
  from assms(3) show ?thesis
  proof (cases rule: handle_cases)
    case (Unprocessable reason)
    with unp show ?thesis by simp
  next
    case (Panicked m)
    with Send_declared [OF assms(1)] show ?thesis by blast
  next
    case (AckFailed outs w1 w2 err)
    with Ack_declared [OF assms(2) Send_declared [OF assms(1)]] show ?thesis by (auto intro: metric_intros)
  next
    case (Acked outs w1 w2)
    with Ack_declared [OF assms(2) Send_declared [OF assms(1)]] show ?thesis by (auto intro!: metric_intros)
  qed
qed

lemma handle_batch_declared:
  assumes "sound_dispatcher (sa_dispatcher a)"
  shows "\<forall>d \<in> set ds. acks_quietly d \<Longrightarrow> handle_batch a c ds w = (r, w') \<Longrightarrow> only_declared w w'"
proof (induction ds arbitrary: w r)
  case (Cons d ds)
  obtain r1 w1 where 1: "handle a c d w = (r1, w1)" by fastforce
  then have "only_declared w w1" using Cons.prems(1) handle_declared [OF assms] by (meson list.set_intros(1))
  with Cons 1 only_declared_trans show ?case by (fastforce split: gores.splits if_splits)
qed simp

definition quiet_source :: "'n Source \<Rightarrow> bool" where
  "quiet_source src \<longleftrightarrow>
     (\<forall>c w r w'. src_Read src c w = (r, w') \<longrightarrow> quiet w w' \<and> (\<forall>ds. r = Inr ds \<longrightarrow> (\<forall>d \<in> set ds. acks_quietly d)))"

lemma source_quiet: "source src cmds \<Longrightarrow> quiet_source src"
  unfolding quiet_source_def acks_quietly_def using source.Read_quiet source.Ack_quiet by metis

lemma stream_loop_declared:
  assumes "sound_dispatcher (sa_dispatcher a)" and "quiet_source (sa_source a)"
  shows "stream_loop fuel a c w = Some (r, w') \<Longrightarrow> only_declared w w'"
proof (induction fuel arbitrary: w)
  case (Suc fuel)
  show ?case
  proof (cases "ctx_Err c w = None")
    case True
    obtain q w1 where 1: "src_Read (sa_source a) c w = (q, w1)" by fastforce
    then have w1: "only_declared w w1" using assms(2) only_declared_quiet unfolding quiet_source_def by blast
    show ?thesis
    proof (cases q)
      case (Inl err)
      with Suc.prems True 1 w1 show ?thesis by auto
    next
      case (Inr ds)
      obtain b w2 where 2: "handle_batch a c ds w1 = (b, w2)" by fastforce
      have "\<forall>d \<in> set ds. acks_quietly d" using 1 Inr assms(2) unfolding quiet_source_def by blast
      then have w2: "only_declared w w2" using handle_batch_declared [OF assms(1) _ 2] w1 only_declared_trans by blast
      show ?thesis
      proof (cases b)
        case (Ret fin)
        with Suc.prems True 1 2 Inr w2 Suc.IH [of w2] only_declared_trans show ?thesis by (cases fin) auto
      next
        case (Panic m)
        with Suc.prems True 1 2 Inr w2 show ?thesis by auto
      qed
    qed
  next
    case False
    with Suc.prems show ?thesis by auto
  qed
qed simp

lemma StreamAgent_Run_declared:
  "sound_dispatcher (sa_dispatcher a) \<Longrightarrow> quiet_source (sa_source a) \<Longrightarrow> StreamAgent_Run fuel a c w = Some (r, w') \<Longrightarrow>
   only_declared w w'"
  unfolding StreamAgent_Run_def by (rule only_declared_trans [OF only_declared_log [OF only_declared_refl] stream_loop_declared])

lemma emit_closed_declared:
  assumes "\<forall>d. ld_dispatcher a = Some d \<longrightarrow> sound_dispatcher d" and "emit_closed marshal a c so w = (r, w')"
  shows "only_declared w w'"
proof (cases so)
  case (Some s)
  define w1 where "w1 = Emit marshal (ld_log a) s w"
  have 1: "only_declared w w1" unfolding w1_def Emit_def Let_def by (intro metric_intros only_declared_refl)
  show ?thesis
  proof (cases "ld_dispatcher a")
    case None
    with 1 assms(2) Some show ?thesis by (simp add: emit_closed_def emit_def w1_def Let_def)
  next
    case (Some d)
    show ?thesis
    proof (cases "marshal s")
      case (Inr body)
      obtain q w2 where 2: "Send d c (summary_envelope a s body) w1 = (q, w2)" by fastforce
      have "only_declared w w2" using Send_declared [OF _ 2] assms(1) Some 1 only_declared_trans by blast
      with assms(2) Some \<open>so = Some s\<close> Inr 2 show ?thesis
        by (cases q) (simp_all add: emit_closed_def emit_def w1_def Let_def)
    qed (use 1 assms(2) Some \<open>so = Some s\<close> in \<open>simp add: emit_closed_def emit_def w1_def Let_def\<close>)
  qed
qed (use assms(2) in \<open>simp add: emit_closed_def\<close>)

lemma drain_one_declared:
  assumes "\<forall>d. ld_dispatcher a = Some d \<longrightarrow> sound_dispatcher d" and "acks_quietly d"
    and "drain_one marshal a c d agg w = (r, agg', w')"
  shows "only_declared w w'"
proof (cases "d_Unprocessable d")
  case (Some reason)
  with assms(3) show ?thesis by (auto simp: drain_one_def Let_def intro!: metric_intros)
next
  case None
  obtain so agg1 where o: "Observe agg (d_Envelope d) (clock w) = (so, agg1)" by fastforce
  obtain q w1 where 1: "emit_closed marshal a c so w = (q, w1)" by fastforce
  have w1: "only_declared w w1" by (rule emit_closed_declared [OF assms(1) 1])
  define w2 where "w2 = counter_Inc ''conflux_events_processed_total'' [ld_id a, ref_Name (d_Source d)] w1"
  obtain e w3 where 3: "Ack d c w2 = (e, w3)" by fastforce
  have "only_declared w w2" unfolding w2_def by (intro metric_intros w1) simp
  from Ack_declared [OF assms(2) this 3] have "only_declared w w3" .
  with w1 assms(3) None o 1 3 show ?thesis by (cases q) (auto simp: drain_one_def Let_def w2_def)
qed

lemma drain_batch_declared:
  assumes "\<forall>d. ld_dispatcher a = Some d \<longrightarrow> sound_dispatcher d"
  shows "\<forall>d \<in> set ds. acks_quietly d \<Longrightarrow> drain_batch marshal a c ds agg w = (r, agg', w') \<Longrightarrow> only_declared w w'"
proof (induction ds arbitrary: w r agg)
  case (Cons d ds)
  obtain r1 agg1 w1 where 1: "drain_one marshal a c d agg w = (r1, agg1, w1)" by (metis prod_cases3)
  have "acks_quietly d" using Cons.prems(1) by simp
  from drain_one_declared [OF assms this 1] have w1: "only_declared w w1" .
  show ?case
  proof (cases r1)
    case (Ret x)
    with Cons 1 have "only_declared w1 w'" by auto
    with w1 show ?thesis by (rule only_declared_trans)
  qed (use Cons.prems 1 w1 in auto)
qed simp

lemma poll_select_quiet: "poll_select c tick w = (p, w') \<Longrightarrow> quiet w w'"
  by (auto simp: poll_select_def Let_def quiet_def split: if_splits)

lemma drain_loop_declared:
  assumes "\<forall>d. ld_dispatcher a = Some d \<longrightarrow> sound_dispatcher d" and "quiet_source (ld_source a)"
  shows "drain_loop fuel marshal a c tick agg w = Some (r, agg', w') \<Longrightarrow> only_declared w w'"
proof (induction fuel arbitrary: tick agg w)
  case (Suc fuel)
  obtain p w0 where 0: "poll_select c tick w = (p, w0)" by fastforce
  note w0 = only_declared_quiet [OF poll_select_quiet [OF 0]]
  show ?case
  proof (cases "p = PollDone")
    case True
    with 0 w0 Suc.prems show ?thesis by simp
  next
    case False
    obtain r1 agg1 w1 where 1: "poll_tick marshal a c p agg w0 = (r1, agg1, w1)" by (metis prod_cases3)
    have w1: "only_declared w w1"
    proof (cases "p = PollTick")
      case True
      obtain so agg2 where t: "Tick agg (clock w0) = (so, agg2)" by fastforce
      obtain q v where e: "emit_closed marshal a c so w0 = (q, v)" by fastforce
      have "v = w1" using 1 t e True by (simp add: poll_tick_def)
      with emit_closed_declared [OF assms(1) e] w0 only_declared_trans show ?thesis by blast
    qed (use 1 w0 in \<open>simp add: poll_tick_def\<close>)
    show ?thesis
    proof (cases r1)
      case (Panic m)
      with Suc.prems False 0 1 w1 show ?thesis by auto
    next
      case (Ret x)
      obtain q w2 where 2: "src_Read (ld_source a) c w1 = (q, w2)" by fastforce
      then have w2: "only_declared w w2"
        using assms(2) w1 only_declared_then_quiet unfolding quiet_source_def by blast
      show ?thesis
      proof (cases q)
        case (Inl err)
        with Suc.prems False 0 1 2 w2 Ret show ?thesis by auto
      next
        case (Inr ds)
        obtain b agg3 w3 where 3: "drain_batch marshal a c ds agg1 w2 = (b, agg3, w3)" by (metis prod_cases3)
        have "\<forall>d \<in> set ds. acks_quietly d" using 2 Inr assms(2) unfolding quiet_source_def by blast
        from drain_batch_declared [OF assms(1) this 3] w2 have w3: "only_declared w w3" using only_declared_trans by blast
        show ?thesis
        proof (cases b)
          case (Ret y)
          with Suc.prems False 0 1 2 3 Inr \<open>r1 = Ret x\<close>
          have "drain_loop fuel marshal a c (if p = PollTick then next_tick tick (clock w0) else tick) agg3 w3 = Some (r, agg', w')"
            by (simp add: Let_def)
          from only_declared_trans [OF w3 Suc.IH [OF this]] show ?thesis .
        next
          case (Panic m)
          with Suc.prems False 0 1 2 3 Inr \<open>r1 = Ret x\<close> w3 show ?thesis by auto
        qed
      qed
    qed
  qed
qed simp

lemma LogDrain_Run_declared:
  "\<forall>d. ld_dispatcher a = Some d \<longrightarrow> sound_dispatcher d \<Longrightarrow> quiet_source (ld_source a) \<Longrightarrow>
   LogDrain_Run fuel marshal a c agg w = Some (r, agg', w') \<Longrightarrow> only_declared w w'"
  unfolding LogDrain_Run_def
  by (rule only_declared_trans [OF only_declared_log [OF only_declared_refl] drain_loop_declared])

section \<open>Anomalies and the monitor\<close>

lemma Notify_declared: "Notify N cfg lg s b w = (e, w') \<Longrightarrow> only_declared w w'"
  by (auto simp: Notify_def Let_def intro!: metric_intros only_declared_refl split: if_splits prod.splits option.splits
      dest!: call_quiet only_declared_quiet)

lemma send_declared:
  assumes "det_notifier d = Some (Notify N mcfg lg)" and "only_declared v w"
  shows "only_declared v (snd (send d t scope subject body st now force w))"
proof (cases "gate d (roll_hour st now) now force")
  case None
  obtain e w1 where 1: "Notify N mcfg lg subject body w = (e, w1)" by fastforce
  have "only_declared v w1" using assms(2) Notify_declared [OF 1] only_declared_trans by blast
  with None assms(1) 1 show ?thesis
    by (cases e) (auto simp: send_def Let_def notified_def intro!: metric_intros)
qed (use assms(2) in \<open>auto simp: send_def Let_def notified_def intro!: metric_intros\<close>)

lemma Observe_declared:
  assumes "det_notifier d = Some (Notify N mcfg lg)" and "only_declared v w"
  shows "only_declared v (snd (Detector_Observe d t s b su dt now w))"
  using assms(2) unfolding Detector_Observe_def Let_def case_prod_unfold
  by (auto simp: observe_clear_def observe_breach_def Let_def case_prod_unfold intro!: send_declared [OF assms(1)] metric_intros)

lemma Observe_notifier: "det_notifier (fst (Detector_Observe d t s b su dt now w)) = det_notifier d"
  by (simp add: Detector_Observe_def Let_def case_prod_unfold)

lemma sample_reading_declared:
  assumes "det_notifier d = Some (Notify N mcfg lg)" and "only_declared v w"
  shows "only_declared v (snd (sample_reading cfg a kind r now d w))"
  using assms by (auto simp: sample_reading_def Let_def case_prod_unfold Observe_notifier intro!: Observe_declared metric_intros)

definition quiet_lag :: "'n Monitored \<Rightarrow> bool" where
  "quiet_lag a \<longleftrightarrow> (\<forall>lag k c w r w'. mo_Lag a = Some (lag, k) \<longrightarrow> lag c w = (r, w') \<longrightarrow> quiet w w')"

lemma sample_agent_declared:
  assumes "det_notifier d = Some (Notify N mcfg lg)" and "quiet_lag a"
  shows "only_declared w (snd (snd (sample_agent cfg hs c now a d w)))"
proof (cases "mo_Lag a")
  case (Some lk)
  then obtain lag kind where lk: "mo_Lag a = Some (lag, kind)" by (cases lk) simp
  obtain r w1 where l: "lag (with_timeout c (clock w) (5 * second)) w = (r, w1)" by fastforce
  have "only_declared w w1" using assms(2) lk l only_declared_quiet unfolding quiet_lag_def by blast
  then show ?thesis using lk l Observe_declared [OF assms(1)] sample_reading_declared [OF assms(1)]
    by (cases r) (simp_all add: sample_agent_def Let_def case_prod_unfold)
qed (simp add: sample_agent_def)

lemma sample_agents_declared:
  assumes "det_notifier d = Some (Notify N mcfg lg)" and "\<forall>a \<in> set as. quiet_lag a"
  shows "only_declared w (snd (snd (sample_agents cfg hs c now as snap d w)))"
  using assms
proof (induction as arbitrary: snap d w)
  case (Cons a as)
  obtain h d1 w1 where 1: "sample_agent cfg hs c now a d w = (h, d1, w1)" by (metis prod_cases3)
  have d1: "det_notifier d1 = Some (Notify N mcfg lg)"
    using sample_agent_config(2) [of cfg hs c now a d w] 1 Cons.prems(1) by simp
  have "only_declared w w1" using sample_agent_declared [OF Cons.prems(1), of a w cfg hs c now] Cons.prems(2) 1 by simp
  from only_declared_trans [OF this] Cons.IH [OF d1] Cons.prems(2) show ?case by (simp add: 1)
qed simp

definition sound_monitor :: "'n Monitor \<Rightarrow> bool" where
  "sound_monitor m \<longleftrightarrow>
     (\<exists>N mcfg lg. det_notifier (mn_detector m) = Some (Notify N mcfg lg)) \<and> (\<forall>a \<in> set (mn_agents m). quiet_lag a)"

lemma Monitor_sample_declared:
  assumes "sound_monitor m" and "Monitor_sample hs c m w = (m', w')"
  shows "only_declared w w' \<and> sound_monitor m'"
proof -
  from assms(1) obtain N mcfg lg where n: "det_notifier (mn_detector m) = Some (Notify N mcfg lg)"
    and l: "\<forall>a \<in> set (mn_agents m). quiet_lag a" by (auto simp: sound_monitor_def)
  obtain snap d1 w1 where r: "sample_agents (mn_cfg m) hs c (clock w) (mn_agents m) Map.empty (mn_detector m) w = (snap, d1, w1)"
    by (metis prod_cases3)
  have "det_notifier d1 = Some (Notify N mcfg lg)"
    using sample_agents_config(2) [of "mn_cfg m" hs c "clock w" "mn_agents m" Map.empty "mn_detector m" w] r n by simp
  moreover have "only_declared w w1"
    using sample_agents_declared [OF n l, of w "mn_cfg m" hs c "clock w" Map.empty] r by simp
  moreover have "m' = m\<lparr>mn_detector := d1, mn_latest := snap\<rparr>" "w' = w1"
    using assms(2) r by (simp_all add: Monitor_sample_def sample_def)
  ultimately show ?thesis using l by (auto simp: sound_monitor_def)
qed

lemma monitor_loop_declared:
  "sound_monitor m \<Longrightarrow> monitor_loop fuel health c tick m w k = Some (m', w') \<Longrightarrow> only_declared w w'"
proof (induction fuel arbitrary: tick m w k)
  case (Suc fuel)
  obtain b w1 where 1: "select_done_after c (tick - clock w) w = (b, w1)" by fastforce
  have w1: "only_declared w w1" using only_declared_quiet select_quiet [OF 1] by blast
  obtain m1 w2 where 2: "Monitor_sample (health k) c m w1 = (m1, w2)" by fastforce
  note s = Monitor_sample_declared [OF Suc.prems(1) 2]
  show ?case
  proof (cases b)
    case False
    with Suc.prems(2) 1 2
    have "monitor_loop fuel health c (following_tick (CheckInterval (c_Anomaly (mn_cfg m))) tick (clock w1)) m1 w2 (Suc k) = Some (m', w')"
      by simp
    from Suc.IH [OF _ this] s only_declared_trans [OF w1] only_declared_trans show ?thesis by blast
  qed (use Suc.prems(2) 1 w1 in simp)
qed simp

lemma Monitor_Run_declared:
  assumes "sound_monitor m" and "Monitor_Run fuel health c m w = Some (r, m', w')"
  shows "only_declared w w'"
proof -
  obtain m1 w1 where 1: "Monitor_sample (health 0) c m w = (m1, w1)" by fastforce
  note s = Monitor_sample_declared [OF assms(1) 1]
  from assms(2) 1 consider "w' = w1" | tick m2 where "monitor_loop fuel health c tick m1 w1 1 = Some (m2, w')"
    by (auto simp: Monitor_Run_def Let_def split: if_splits option.splits)
  then show ?thesis using s monitor_loop_declared only_declared_trans by cases blast+
qed

section \<open>Periodic tasks\<close>

lemma Reclaim_from_declared:
  "Reclaim_from fuel u R ref g con idle n c cur out w = Some ((ds, e), w') \<Longrightarrow> only_declared w w'"
proof (induction fuel arbitrary: cur out w)
  case (Suc fuel)
  obtain q w1 where 1: "call (XAUTOCLAIM (ref_Name ref) g con idle cur n) (x_XAutoClaim R (ref_Name ref) g con idle cur n) c w = (q, w1)"
    by fastforce
  have w1: "only_declared w w1" using call_quiet [OF 1] only_declared_quiet by blast
  show ?case
  proof (cases q)
    case (Inr p)
    with Suc.prems 1 w1 show ?thesis
      by (auto simp: Let_def split: prod.splits if_splits dest!: Suc.IH elim: only_declared_trans)
  qed (use Suc.prems 1 w1 in auto)
qed simp

lemma note_reclaimed_declared: "only_declared w (note_reclaimed t ref d w)"
  by (auto simp: note_reclaimed_def Let_def intro!: metric_intros split: option.split)

lemma ack_reclaimed_declared:
  "\<forall>d \<in> set ds. acks_quietly d \<Longrightarrow> ack_reclaimed t ref c ds w = (e, w') \<Longrightarrow> only_declared w w'"
proof (induction ds arbitrary: w)
  case (Cons d ds)
  obtain x w1 where ack: "Ack d c (note_reclaimed t ref d w) = (x, w1)" by fastforce
  have "acks_quietly d" using Cons.prems(1) by simp
  from Ack_declared [OF this note_reclaimed_declared ack] have w1: "only_declared w w1" .
  show ?case
  proof (cases x)
    case None
    define w2 where "w2 = counter_Inc ''conflux_entries_reclaimed_total'' [rt_agentID t, ref_Name ref] w1"
    have "only_declared w w2" unfolding w2_def by (intro metric_intros w1) simp
    moreover have "only_declared w2 w'" using Cons ack None by (simp add: w2_def)
    ultimately show ?thesis by (rule only_declared_trans)
  qed (use Cons.prems ack w1 in auto)
qed simp

lemma retire_loop_declared: "retire_loop R s g idle lg c k cons w = ((n, e), w') \<Longrightarrow> only_declared w w'"
proof (induction cons arbitrary: k w)
  case (Cons con cons)
  show ?case
  proof (cases "retirable idle con")
    case True
    obtain q w1 where 1: "call (XGROUP_DELCONSUMER s g (con_Name con)) (x_XGroupDelConsumer R s g (con_Name con)) c w = (q, w1)"
      by fastforce
    have w1: "only_declared w w1" using call_quiet [OF 1] only_declared_quiet by blast
    show ?thesis
    proof (cases q)
      case None
      with Cons.prems True 1 Cons.IH only_declared_trans [OF only_declared_log [OF w1]] show ?thesis by fastforce
    qed (use Cons.prems True 1 w1 in auto)
  qed (use Cons in auto)
qed simp

lemma retire_after_declared: "retire_after R t ref c w = (e, w') \<Longrightarrow> only_declared w w'"
proof -
  assume a: "retire_after R t ref c w = (e, w')"
  obtain n q w1 where 1: "RetireConsumers R (ref_Name ref) (rt_group t) (rt_retireIdle t) (rt_log t) c w = ((n, q), w1)"
    by (metis prod.collapse)
  obtain x w0 where 0: "call (XINFO_CONSUMERS (ref_Name ref) (rt_group t)) (x_XInfoConsumers R (ref_Name ref) (rt_group t)) c w = (x, w0)"
    by fastforce
  have "only_declared w w0" using call_quiet [OF 0] only_declared_quiet by blast
  then have "only_declared w w1" using 0 1 retire_loop_declared only_declared_trans
    by (cases x) (simp add: RetireConsumers_def, fastforce simp: RetireConsumers_def)
  with a 1 show ?thesis by (cases q) (auto simp: retire_after_def intro: metric_intros)
qed

lemma Client_Pending_quiet: "Client_Pending R s g c w = (r, w') \<Longrightarrow> quiet w w'"
  by (auto simp: Client_Pending_def split: prod.splits sum.splits dest: call_quiet)

lemma acks_in_quiet: "acks_in R ref g d \<Longrightarrow> acks_quietly d"
  using xack_quiet by (fastforce simp: acks_in_def acks_quietly_def Ack_def)

lemma reclaimOne_declared:
  assumes "reclaimOne fuel u R t c ref w = Some (r, w')"
  shows "only_declared w w'"
proof -
  obtain p w1 where 1: "Client_Pending R (ref_Name ref) (rt_group t) c w = (p, w1)" by fastforce
  have w1: "only_declared w w1" using Client_Pending_quiet [OF 1] only_declared_quiet by blast
  show ?thesis
  proof (cases p)
    case (Inr st)
    define w2 where "w2 = gauge_Set ''conflux_pending_entries'' [rt_agentID t, ref_Name ref] (p_Count st) w1"
    have w2: "only_declared w w2" unfolding w2_def by (intro metric_intros w1) simp
    show ?thesis
    proof (cases "p_Count st = 0")
      case False
      then obtain ds e w3 where 3: "Reclaim fuel u R ref (rt_group t) (rt_consumer t) (rt_minIdle t) (rt_batch t) c w2 = Some ((ds, e), w3)"
        using assms 1 Inr by (auto simp: reclaimOne_def Let_def w2_def split: option.splits)
      have w3: "only_declared w w3" using w2 Reclaim_from_declared [OF 3 [unfolded Reclaim_def]] by (rule only_declared_trans)
      have "\<forall>d \<in> set ds. acks_quietly d"
        using Reclaim_from_acks_in [OF 3 [unfolded Reclaim_def]] by (auto simp: list_all_iff intro: acks_in_quiet)
      obtain x w4 where 4: "ack_reclaimed t ref c ds w3 = (x, w4)" by fastforce
      have w4: "only_declared w w4" using w3 ack_reclaimed_declared [OF \<open>\<forall>d \<in> set ds. acks_quietly d\<close> 4] by (rule only_declared_trans)
      show ?thesis
      proof (cases e)
        case None
        with assms 1 Inr False 3 4 have "x \<noteq> None \<and> w' = w4 \<or> retire_after R t ref c w4 = (r, w')"
          by (cases x) (auto simp: reclaimOne_def Let_def w2_def)
        with w4 retire_after_declared only_declared_trans show ?thesis by blast
      qed (use assms 1 Inr False 3 w3 in \<open>auto simp: reclaimOne_def Let_def w2_def\<close>)
    qed (use assms 1 Inr w2 in \<open>auto simp: reclaimOne_def Let_def w2_def\<close>)
  qed (use assms 1 w1 in \<open>auto simp: reclaimOne_def\<close>)
qed

lemma reclaim_sources_declared: "reclaim_sources fuel u R t c refs w = Some (r, w') \<Longrightarrow> only_declared w w'"
proof (induction refs arbitrary: w)
  case (Cons ref refs)
  show ?case
  proof (cases "ref_Kind ref = KindStream")
    case True
    with Cons.prems obtain e w1 where 1: "reclaimOne fuel u R t c ref w = Some (e, w1)" by (auto split: option.splits)
    with Cons True reclaimOne_declared [OF 1] only_declared_trans show ?thesis by (cases e) auto
  qed (use Cons in auto)
qed simp

lemma report_one_declared: "report_one R t c ref w = (r, w') \<Longrightarrow> only_declared w w'"
proof -
  have stream: "only_declared w w'" if "report_stream R t c ref w = (r, w')" for r w'
  proof -
    obtain x w1 where 1: "ReportStream R (ref_Name ref) c w = (x, w1)" by fastforce
    have w1: "only_declared w w1"
      using 1 by (auto simp: ReportStream_def split: prod.splits sum.splits dest!: call_quiet only_declared_quiet)
    obtain p w2 where 2: "Client_Pending R (ref_Name ref) (pt_group t) c w1 = (p, w2)" by fastforce
    have "only_declared w w2" by (rule only_declared_then_quiet [OF w1 Client_Pending_quiet [OF 2]])
    with w1 that 1 2 show ?thesis
      by (cases x; cases p) (auto simp: report_stream_def Let_def intro!: metric_intros)
  qed
  have lst: "only_declared w w'" if "report_list R t c ref w = (r, w')" for r w'
  proof -
    obtain x w1 where 1: "ListDepth R (ref_Name ref) c w = (x, w1)" by fastforce
    have "only_declared w w1" using call_quiet [OF 1 [unfolded ListDepth_def]] only_declared_quiet by blast
    with that 1 show ?thesis by (cases x) (auto simp: report_list_def intro!: metric_intros)
  qed
  assume "report_one R t c ref w = (r, w')"
  with stream lst show ?thesis by (auto simp: report_one_def split: if_splits)
qed

lemma report_sources_declared: "report_sources R t c refs w = (r, w') \<Longrightarrow> only_declared w w'"
proof (induction refs arbitrary: w)
  case (Cons ref refs)
  obtain x w1 where 1: "report_one R t c ref w = (x, w1)" by fastforce
  with Cons report_one_declared [OF 1] only_declared_trans show ?case by (cases x) auto
qed simp

lemma TaskFor_declared:
  assumes "TaskFor fuel u R ac cfg lg = Inr t" and "tk_Run t c w = Some (r, w')"
  shows "only_declared w w'"
  using assms reclaim_sources_declared report_sources_declared
  by (auto simp: TaskFor_def as_task_def ReclaimTask_Run_def ReportTask_Run_def split: if_splits option.splits prod.splits)

lemma record_run_declared: "only_declared v w \<Longrightarrow> only_declared v (record_run a c start err w)"
  by (auto simp: record_run_def Let_def agent_runs_def intro!: metric_intros split: option.split)

lemma on_tick_declared: "only_declared (ps_world s) (ps_world (on_tick a s))"
  by (auto simp: on_tick_def agent_runs_def intro!: metric_intros)

lemma sv_after_declared: "sv_after r i src dn res sv w = (sv', w') \<Longrightarrow> only_declared w w'"
  by (auto simp: sv_after_def runOnce_def Let_def intro!: metric_intros split: gores.splits if_splits option.splits)

section \<open>The whole process\<close>

text \<open>Whatever an agent does while it runs stays within the instruments.\<close>

fun agent_declares :: "'n built \<Rightarrow> bool" where
  "agent_declares (BuiltStream a) =
     (\<forall>fuel c w r w'. StreamAgent_Run fuel a c w = Some (r, w') \<longrightarrow> only_declared w w')"
| "agent_declares (BuiltDrain a agg0) =
     (\<forall>fuel marshal c agg w r agg' w'. LogDrain_Run fuel marshal a c agg w = Some (r, agg', w') \<longrightarrow> only_declared w w')"
| "agent_declares (BuiltPeriodic a) =
     ((\<forall>c w r w'. periodic_run a c w = Some (r, w') \<longrightarrow> only_declared w w') \<and>
      (\<forall>s. only_declared (ps_world s) (ps_world (on_tick a s))))"

lemma dispatches_sound: "dispatches cfg ac d \<Longrightarrow> sound_dispatcher d"
  by (auto simp: dispatches_def sound_dispatcher_def list_all_iff dest: posting_destination.axioms(1))

lemma buildOne_declares:
  assumes "buildOne fuel u N R cfg lg c ac w = (Inr a, w')"
  shows "agent_declares a \<and> quiet_lag (monitored a)"
proof -
  have b: "built_for u R cfg ac a" using buildOne_inv [OF assms] by blast
  show ?thesis
  proof (cases a)
    case (BuiltStream x)
    with b obtain s where s: "sa_source x = stream_source u R s" by (auto simp: reads_as_def)
    have "quiet_source (sa_source x)" unfolding s by (rule source_quiet [OF stream_src.source_axioms])
    moreover have "sound_dispatcher (sa_dispatcher x)" using b BuiltStream dispatches_sound by auto
    ultimately show ?thesis using BuiltStream s stream_src.Lag_quiet StreamAgent_Run_declared
      by (fastforce simp: quiet_lag_def monitored_def)
  next
    case (BuiltDrain x agg)
    with b obtain s where s: "ld_source x = list_source u R s" by (auto simp: drains_as_def)
    have "quiet_source (ld_source x)" unfolding s by (rule source_quiet [OF list_src.source_axioms])
    moreover have "\<forall>d. ld_dispatcher x = Some d \<longrightarrow> sound_dispatcher d" using b BuiltDrain dispatches_sound by auto
    ultimately show ?thesis using BuiltDrain s list_src.Lag_quiet LogDrain_Run_declared
      by (fastforce simp: quiet_lag_def monitored_def)
  next
    case (BuiltPeriodic x)
    with assms obtain t where "TaskFor fuel u R ac cfg lg = Inr t" "pa_task x = t"
      by (auto simp: buildOne_def Let_def NewPeriodicAgent_def NewLogDrainAgent_def split: sum.splits if_splits prod.splits)
    then have "periodic_run x c w = Some (r, w') \<Longrightarrow> only_declared w w'" for c w r w'
      by (auto simp: periodic_run_def intro!: record_run_declared dest: TaskFor_declared split: option.splits gores.splits)
    with BuiltPeriodic on_tick_declared show ?thesis by (auto simp: quiet_lag_def monitored_def)
  qed
qed

lemma call_declared: "call x f c w = (r, w') \<Longrightarrow> only_declared w w'"
  by (rule only_declared_quiet) (blast dest: call_quiet)

lemma buildOne_declared: "buildOne fuel u N R cfg lg c ac w = (r, w') \<Longrightarrow> only_declared w w'"
proof -
  have src: "only_declared w w1" if "sourceFor u R cfg ac lg c w = (q, w1)" for q w1
    using that by (auto simp: sourceFor_def NewStreamSource_def Let_def intro!: only_declared_log
        split: if_splits sum.splits prod.splits option.splits dest!: call_declared)
  assume "buildOne fuel u N R cfg lg c ac w = (r, w')"
  with src show ?thesis
    by (auto simp: buildOne_def Let_def NewLogDrainAgent_def split: sum.splits if_splits prod.splits)
qed

lemma build_all_declares:
  "build_all fuel u N R cfg lg c acs w = (Inr as, w') \<Longrightarrow>
   only_declared w w' \<and> (\<forall>a \<in> set as. agent_declares a \<and> quiet_lag (monitored a))"
proof (induction acs arbitrary: w as)
  case (Cons ac acs)
  obtain q w1 where 1: "buildOne fuel u N R cfg lg c ac w = (q, w1)" by fastforce
  with Cons.prems obtain a where a: "q = Inr a" by (cases q) auto
  obtain q2 w2 where 2: "build_all fuel u N R cfg lg c acs w1 = (q2, w2)" by fastforce
  with Cons.prems 1 a obtain as2 where as2: "q2 = Inr as2" "as = a # as2" "w2 = w'" by (cases q2) auto
  from Cons.IH [of w1 as2] 2 as2 have "only_declared w1 w'" "\<forall>a \<in> set as2. agent_declares a \<and> quiet_lag (monitored a)" by auto
  with buildOne_declares [OF 1 [unfolded a]] buildOne_declared [OF 1] as2(2) only_declared_trans show ?case by auto
qed simp

text \<open>
  C29. No use of a metric can panic: the names that \<open>NewMetrics\<close> registers are distinct, and every counter, gauge or histogram
  that the process touches - while it builds its agents, while any of them runs, in the supervisor around them and in the
  monitor - is one of them, given exactly as many label values as it has labels.
\<close>

theorem metrics_are_used_as_declared:
  assumes "Build fuel u N R cfg lg c0 w0 = (Inr as, w1)"
    and "mn_agents m = map monitored as" and "det_notifier (mn_detector m) = Some (Notify N (c_Anomaly cfg) lg')"
  shows "distinct (map ins_name NewMetrics) \<and> only_declared w0 w1 \<and> list_all agent_declares as \<and>
    only_declared w (snd (Monitor_sample hs c m w)) \<and>
    (\<forall>fl health r m' w'. Monitor_Run fl health c m w = Some (r, m', w') \<longrightarrow> only_declared w w') \<and>
    only_declared w (snd (sv_after rc i src dn res sv w))"
proof -
  from build_all_declares [OF assms(1) [unfolded Build_def]]
  have b: "only_declared w0 w1" "\<forall>a \<in> set as. agent_declares a \<and> quiet_lag (monitored a)" by blast+
  then have m: "sound_monitor m" using assms(2,3) by (auto simp: sound_monitor_def)
  have "only_declared w (snd (Monitor_sample hs c m w))"
    using Monitor_sample_declared [OF m] by (metis prod.collapse)
  moreover have "only_declared w (snd (sv_after rc i src dn res sv w))" by (rule sv_after_declared) (rule prod.collapse [symmetric])
  moreover have "distinct (map ins_name NewMetrics)"
    by (simp add: NewMetrics_def gauge_vec_def counter_vec_def histogram_vec_def)
  ultimately show ?thesis using b Monitor_Run_declared [OF m] by (auto simp: list_all_iff)
qed

theorem metrics_are_used_as_declared_witness:
  "\<exists>as. map built_ID as = [''events-ltr'', ''logs'', ''pending-reclaim''] \<and> list_all agent_declares as \<and>
     only_declared example_world (snd (Monitor_sample [] background
       (NewMonitor (map monitored as) example_config (run_detector_of example_net example_config (NewLogger ''info''))) example_world))"
proof (rule example_build [of example_decoder])
  fix as and w0'
  assume b: "Build 1 example_decoder example_net one_entry_rdb example_config (NewLogger ''info'') background example_world = (Inr as, w0')"
  let ?m = "NewMonitor (map monitored as) example_config (run_detector_of example_net example_config (NewLogger ''info''))"
  have m: "mn_agents ?m = map monitored as" "det_notifier (mn_detector ?m) = Some (Notify example_net (c_Anomaly example_config) (NewLogger ''info''))"
    by (simp_all add: NewMonitor_def run_detector_of_def NewDetector_def)
  note t = metrics_are_used_as_declared [OF b m, of example_world "[]" background, THEN conjunct2, THEN conjunct2]
  show ?thesis
    by (rule exI [of _ as]) (intro conjI example_build_ids [OF b] conjunct1 [OF t] conjunct1 [OF conjunct2 [OF t]])
qed

end
