(* ===== verification/JsonText.thy ===== *)
theory JsonText
  imports Codec
begin

text \<open>
  The JSON texts that \<open>encoding/json\<close> writes for structs, maps, slices and booleans: objects, arrays and their values. A text
  built of them is one value, is read back member by member, and is left as it is when it is compacted, that is, when it
  travels as a raw message.
\<close>

section \<open>Writing\<close>

definition json_object :: "(string \<times> bytes) list \<Rightarrow> bytes" where
  "json_object ms = ''{'' @ strings_Join '','' (map (\<lambda>(k, v). quote_string k @ CHR '':'' # v) ms) @ ''}''"

definition json_array :: "bytes list \<Rightarrow> bytes" where
  "json_array vs = ''['' @ strings_Join '','' vs @ '']''"

definition json_bool :: "bool \<Rightarrow> bytes" where
  "json_bool b = (if b then ''true'' else ''false'')"

section \<open>One value\<close>

text \<open>A text that is read as one value wherever a value may start, if that leaves room for \<open>n\<close> more open brackets, with no
  space between its tokens and nothing that HTML escaping would replace.\<close>

definition is_value :: "nat \<Rightarrow> bytes \<Rightarrow> bool" where
  "is_value n v \<longleftrightarrow>
     (\<forall>lim fs. length fs + n \<le> lim \<longrightarrow> (\<exists>st. complete st \<and> run_tight lim (BeginValue, fs) v = Some (st, fs))) \<and> web_safe v"

lemma is_valueE:
  assumes "is_value n v" and "length fs + n \<le> lim"
  obtains st where "complete st" "run_tight lim (BeginValue, fs) v = Some (st, fs)"
  using assms unfolding is_value_def by blast

lemma is_value_mono: "is_value n v \<Longrightarrow> n \<le> m \<Longrightarrow> is_value m v"
  unfolding is_value_def by (meson add_left_mono le_trans)

lemma is_value_safe: "is_value n v \<Longrightarrow> web_safe v"
  by (simp add: is_value_def)

lemma is_value_tight:
  assumes "is_value n v" and "n \<le> lim"
  obtains st where "run_tight lim (BeginValue, []) v = Some (st, [])" "stops (st, []) []"
  using is_valueE [OF assms(1), of "[]" lim] assms(2) that by (auto simp: stops_def)

lemma is_value_start: "is_value n v \<Longrightarrow> v \<noteq> [] \<and> \<not> json_space (hd v)"
proof -
  assume "is_value n v"
  then obtain st where "complete st" "run_tight n (BeginValue, []) v = Some (st, [])" using is_valueE [of n v "[]" n] by auto
  then show ?thesis by (cases v) (auto split: if_splits)
qed

lemma scan_is_value:
  assumes "is_value n v" and "n \<le> lim"
  shows "scan_value lim v = Some (v, [])"
proof -
  obtain st where st: "run_tight lim (BeginValue, []) v = Some (st, [])" "stops (st, []) []" by (rule is_value_tight [OF assms])
  from value_split_run [OF run_tight_run [OF st(1)] st(2)] show ?thesis by (simp add: scan_value_def)
qed

lemma is_value_compact:
  assumes "is_value n v" and "n \<le> maxNestingDepth"
  shows "compact v = Some v"
  by (rule is_value_tight [OF assms]) (rule compact_tight [OF _ _ is_value_safe [OF assms(1)]])

lemma is_value_text:
  assumes "is_value n v" and "n \<le> inner"
  shows "value_text v"
proof -
  obtain st where st: "run_tight inner (BeginValue, []) v = Some (st, [])" "stops (st, []) []" by (rule is_value_tight [OF assms])
  then show ?thesis using is_value_start [OF assms(1)] by (intro value_text_run [OF run_tight_run [OF st(1)]]) (simp_all add: stops_def)
qed

lemma is_value_raw: "is_value n v \<Longrightarrow> n \<le> inner \<Longrightarrow> raw_ok v"
  by (simp add: raw_ok_def is_value_start scan_is_value)

section \<open>Scalars\<close>

lemma is_value_quote: "is_value n (quote_string s)"
  unfolding is_value_def using run_tight_quote_string complete.simps(1) web_safe_quote_string by blast

lemma plain_safe: "list_all plain s \<Longrightarrow> web_safe s"
  by (rule web_safe_ascii) (auto simp: plain_def list_all_iff)

lemma is_value_literal: "list_all plain s \<Longrightarrow> is_value n (dquote # s @ [dquote])"
  using is_value_quote [of n s] by (simp add: quote_string_def escape_plain)

lemma Itoa_chars: "\<forall>c \<in> set (strconv_Itoa i). is_digit c \<or> c = CHR ''-''"
  using show_nat_digits by (auto simp: strconv_Itoa_def list_all_iff)

lemma Itoa_plain: "list_all plain (strconv_Itoa i)"
  using Itoa_chars [of i] digit_plain by (auto simp: list_all_iff)

lemma Itoa_no_space: "\<forall>c \<in> set (strconv_Itoa i). \<not> json_space c"
proof
  fix c
  assume "c \<in> set (strconv_Itoa i)"
  with Itoa_chars [of i] have "is_digit c \<or> c = CHR ''-''" by blast
  then show "\<not> json_space c" by (auto simp: is_digit_def json_space_def)
qed

lemma is_value_Itoa: "is_value n (strconv_Itoa i)"
  unfolding is_value_def using run_Itoa [of _ _ i] run_run_tight [OF _ Itoa_no_space] plain_safe [OF Itoa_plain] by blast

lemma is_value_bool: "is_value n (json_bool b)"
  by (auto simp: is_value_def json_bool_def begin_value_def json_space_def html_special_def intro!: web_safe_ascii)

section \<open>Objects and arrays\<close>

lemma complete_step:
  "complete st \<Longrightarrow> c = CHR '','' \<or> c = CHR ''}'' \<or> c = CHR '']'' \<Longrightarrow> step lim (st, fs) c = step_end fs c"
  by (cases st) (auto simp: is_digit_def is_exp_def)

lemma marks_no_space: "\<not> json_space CHR '',''" "\<not> json_space CHR ''}''" "\<not> json_space CHR '']''" "\<not> json_space CHR '':''" "\<not> json_space dquote"
  by (simp_all add: json_space_def)

lemma complete_step_tight:
  assumes "complete st" and "c = CHR '','' \<or> c = CHR ''}'' \<or> c = CHR '']''"
  shows "run_tight lim (st, fs) (c # cs) = (case step_end fs c of None \<Rightarrow> None | Some y \<Rightarrow> run_tight lim y cs)"
proof -
  have "\<not> json_space c" using assms(2) marks_no_space by blast
  then show ?thesis by (simp add: complete_step [OF assms])
qed

lemma run_tight_key:
  "run_tight lim (BeginString, ObjectKey # fs) (quote_string k @ CHR '':'' # v) = run_tight lim (BeginValue, ObjectValue # fs) v"
proof -
  have "run_tight lim (InString, ObjectKey # fs) (escape_string k @ dquote # CHR '':'' # v) = run_tight lim (BeginValue, ObjectValue # fs) v"
    unfolding run_tight_append run_tight_escape_string by (simp add: marks_no_space)
  then show ?thesis by (simp add: quote_string_def begin_string_def marks_no_space)
qed

lemma run_tight_members:
  assumes "ms \<noteq> []" and "\<forall>(k, v) \<in> set ms. is_value n v" and "length fs + Suc n \<le> lim"
  shows "run_tight lim (BeginString, ObjectKey # fs) (strings_Join '','' (map (\<lambda>(k, v). quote_string k @ CHR '':'' # v) ms) @ ''}'') =
    Some (EndValue, fs)"
  using assms(1,2)
proof (induction ms)
  case (Cons m ms)
  obtain k v where m: "m = (k, v)" by fastforce
  with Cons.prems have v: "is_value n v" by simp
  have "length (ObjectValue # fs) + n \<le> lim" using assms(3) by simp
  from is_valueE [OF v this] obtain st where
    st: "complete st" "run_tight lim (BeginValue, ObjectValue # fs) v = Some (st, ObjectValue # fs)" .
  have after: "run_tight lim (BeginString, ObjectKey # fs) (quote_string k @ CHR '':'' # v @ t) = run_tight lim (st, ObjectValue # fs) t" for t
    using run_tight_key [of lim fs k "v @ t"] st(2) by (simp add: run_tight_append)
  show ?case
  proof (cases ms)
    case Nil
    then show ?thesis using after [of "''}''"] complete_step_tight [OF st(1), of "CHR ''}''" lim "ObjectValue # fs"] by (simp add: m marks_no_space)
  next
    case (Cons m' ms')
    let ?t = "strings_Join '','' (map (\<lambda>(k, v). quote_string k @ CHR '':'' # v) ms) @ ''}''"
    have "run_tight lim (BeginString, ObjectKey # fs) ?t = Some (EndValue, fs)" using Cons.IH Cons.prems Cons by simp
    then show ?thesis
      using after [of "CHR '','' # ?t"] complete_step_tight [OF st(1), of "CHR '',''" lim "ObjectValue # fs"] Cons by (simp add: m marks_no_space)
  qed
qed simp

lemma web_safe_Cons: "byte c < 0x80 \<Longrightarrow> \<not> html_special c \<Longrightarrow> web_safe v \<Longrightarrow> web_safe (c # v)"
  using web_safe_append [OF web_safe_ascii [of "[c]"], of v] by simp

lemma web_safe_Nil: "web_safe []"
  by (simp add: web_safe_def)

lemma web_safe_Join: "\<forall>v \<in> set vs. web_safe v \<Longrightarrow> web_safe (strings_Join '','' vs)"
proof (induction vs)
  case (Cons v vs)
  then show ?case
    by (cases vs) (auto simp: html_special_def intro!: web_safe_append web_safe_Cons)
qed (simp add: web_safe_Nil)

lemma web_safe_enclosed:
  assumes "\<forall>v \<in> set vs. web_safe v" and "byte a < 0x80" "\<not> html_special a" "byte b < 0x80" "\<not> html_special b"
  shows "web_safe (a # strings_Join '','' vs @ [b])"
  using assms by (intro web_safe_Cons web_safe_append web_safe_Join web_safe_Nil)

lemma is_value_object:
  assumes "\<forall>(k, v) \<in> set ms. is_value n v"
  shows "is_value (Suc n) (json_object ms)"
proof -
  let ?t = "strings_Join '','' (map (\<lambda>(k, v). quote_string k @ CHR '':'' # v) ms) @ ''}''"
  have "\<exists>st. complete st \<and> run_tight lim (BeginValue, fs) (json_object ms) = Some (st, fs)"
    if l: "length fs + Suc n \<le> lim" for lim fs
  proof -
    have start: "run_tight lim (BeginValue, fs) (json_object ms) = run_tight lim (BeginStringOrEmpty, ObjectKey # fs) ?t"
      using l by (simp add: json_object_def begin_value_def json_space_def)
    show ?thesis
    proof (cases "ms = []")
      case True
      then show ?thesis unfolding start by (simp add: json_space_def)
    next
      case False
      then obtain r where r: "?t = dquote # r" by (cases ms; cases "tl ms") (auto simp: quote_string_def)
      have "run_tight lim (BeginStringOrEmpty, ObjectKey # fs) ?t = run_tight lim (BeginString, ObjectKey # fs) ?t"
        unfolding r by (simp add: begin_string_def json_space_def)
      then show ?thesis unfolding start using run_tight_members [OF False assms l] by simp
    qed
  qed
  moreover have "web_safe (quote_string k @ CHR '':'' # v)" if "(k, v) \<in> set ms" for k v
    using assms that is_value_safe by (intro web_safe_append web_safe_quote_string web_safe_Cons) (auto simp: html_special_def)
  then have "web_safe (json_object ms)"
    unfolding json_object_def append_Cons append_Nil by (intro web_safe_enclosed) (auto simp: html_special_def)
  ultimately show ?thesis by (simp add: is_value_def)
qed

lemma run_tight_elements:
  assumes "vs \<noteq> []" and "\<forall>v \<in> set vs. is_value n v" and "length fs + Suc n \<le> lim"
  shows "run_tight lim (BeginValue, ArrayValue # fs) (strings_Join '','' vs @ '']'') = Some (EndValue, fs)"
  using assms(1,2)
proof (induction vs)
  case (Cons v vs)
  have "length (ArrayValue # fs) + n \<le> lim" using assms(3) by simp
  moreover have "is_value n v" using Cons.prems(2) by simp
  ultimately obtain st where st: "complete st" "run_tight lim (BeginValue, ArrayValue # fs) v = Some (st, ArrayValue # fs)"
    using is_valueE by blast
  show ?case
  proof (cases vs)
    case Nil
    then show ?thesis using st complete_step_tight [OF st(1), of "CHR '']''" lim "ArrayValue # fs"]
      by (simp add: run_tight_append marks_no_space)
  next
    case (Cons v' vs')
    have "run_tight lim (BeginValue, ArrayValue # fs) (strings_Join '','' vs @ '']'') = Some (EndValue, fs)"
      using Cons.IH Cons.prems Cons by simp
    then show ?thesis using Cons st complete_step_tight [OF st(1), of "CHR '',''" lim "ArrayValue # fs"]
      by (simp add: run_tight_append marks_no_space)
  qed
qed simp

text \<open>The elements of the arrays here are objects.\<close>

lemma is_value_array:
  assumes "\<forall>v \<in> set vs. is_value n v \<and> (\<exists>r. v = CHR ''{'' # r)"
  shows "is_value (Suc n) (json_array vs)"
proof -
  let ?t = "strings_Join '','' vs @ '']''"
  have "\<exists>st. complete st \<and> run_tight lim (BeginValue, fs) (json_array vs) = Some (st, fs)"
    if l: "length fs + Suc n \<le> lim" for lim fs
  proof -
    have start: "run_tight lim (BeginValue, fs) (json_array vs) = run_tight lim (BeginValueOrEmpty, ArrayValue # fs) ?t"
      using l by (simp add: json_array_def begin_value_def json_space_def)
    show ?thesis
    proof (cases "vs = []")
      case True
      with start show ?thesis by (simp add: json_space_def)
    next
      case False
      then obtain r where r: "?t = CHR ''{'' # r" using assms by (cases vs; cases "tl vs") auto
      have "run_tight lim (BeginValueOrEmpty, ArrayValue # fs) ?t = run_tight lim (BeginValue, ArrayValue # fs) ?t"
        unfolding r by (simp add: json_space_def)
      also have "\<dots> = Some (EndValue, fs)" using assms l by (intro run_tight_elements [OF False]) auto
      finally show ?thesis using start by auto
    qed
  qed
  moreover have "web_safe (json_array vs)"
    unfolding json_array_def append_Cons append_Nil using assms is_value_safe
    by (intro web_safe_enclosed) (auto simp: html_special_def)
  ultimately show ?thesis by (simp add: is_value_def)
qed

section \<open>Reading back\<close>

lemma object_read:
  assumes "\<forall>(k, v) \<in> set ms. is_value n v" and "n \<le> inner"
  shows "object_members (tl (json_object ms @ r)) = Some (map (\<lambda>(k, v). (utf8_fix k, v)) ms, r)"
proof (cases "ms = []")
  case True
  then show ?thesis by (simp add: json_object_def object_members_def json_space_def)
next
  case False
  let ?t = "strings_Join '','' (map (\<lambda>(k, v). quote_string k @ CHR '':'' # v) ms) @ CHR ''}'' # r"
  have "\<forall>(k, v) \<in> set ms. value_text v" using assms is_value_text by blast
  from members_quoted [OF False this, of r] have m: "members ?t = Some (map (\<lambda>(k, v). (utf8_fix k, v)) ms, r)" .
  obtain u where "?t = dquote # u" using False by (cases ms; cases "tl ms") (auto simp: quote_string_def)
  then have "object_members ?t = members ?t" by (simp add: object_members_def json_space_def)
  with m show ?thesis by (simp add: json_object_def)
qed

end
