(* ===== verification/Server.thy ===== *)
theory Server
  imports Process JsonText
begin

text \<open>
  The operational server (\<open>internal/observability/http.go\<close>) around the handlers of \<open>Monitor\<close>: the routes, the JSON text of
  \<open>/readyz\<close>, and what \<open>Start\<close> reports; and \<open>run\<close> and \<open>main\<close> of \<open>cmd/conflux/main.go\<close> as a whole. The page of
  \<open>/metrics\<close> is made by the Prometheus library, whose handler is an argument.
\<close>

section \<open>The body of readyz\<close>

text \<open>An \<open>omitempty\<close> field.\<close>

definition unless_empty :: "string \<Rightarrow> string \<Rightarrow> (string \<times> bytes) list" where
  "unless_empty k s = optional (s = []) (k, quote_string s)"

definition AgentHealth_json :: "AgentHealth \<Rightarrow> bytes" where
  "AgentHealth_json h =
     json_object
       ([(''id'', quote_string (ah_ID h))] @
        unless_empty ''mode'' (ah_Mode h) @
        unless_empty ''source'' (ah_Source h) @
        [(''state'', quote_string (ah_State h)), (''lag_entries'', strconv_Itoa (ah_LagEntries h)),
         (''lag_approximate'', json_bool (ah_LagApproximate h))] @
        unless_empty ''last_error'' (ah_LastError h))"

definition probe_json :: "probe \<Rightarrow> bytes" where
  "probe_json p =
     json_object
       ([(''status'', quote_string (pr_Status p)), (''redis'', quote_string (pr_Redis p)),
         (''agents'', json_array (map AgentHealth_json (pr_Agents p)))] @
        unless_empty ''reason'' (pr_Reason p))"

section \<open>Routes\<close>

datatype endpoint = Livez | Readyz | MetricsPage

record Server =
  srv_Addr :: string
  srv_ReadHeaderTimeout :: duration
  srv_mux :: "(string \<times> endpoint) list"

definition NewServer :: "Config \<Rightarrow> Server" where
  "NewServer cfg =
     \<lparr>srv_Addr = HTTPAddr cfg, srv_ReadHeaderTimeout = 5 * second,
      srv_mux = [(''/livez'', Livez), (''/readyz'', Readyz), (''/metrics'', MetricsPage)]\<rparr>"

text \<open>The mux redirects a path that is not clean, and otherwise looks for the pattern that equals the path.\<close>

definition clean_path :: "string \<Rightarrow> bool" where
  "clean_path p \<longleftrightarrow>
     p \<noteq> [] \<and> hd p = CHR ''/'' \<and>
     (let segs = strings_Split CHR ''/'' (tl p)
      in list_all (\<lambda>s. s \<noteq> ''.'' \<and> s \<noteq> ''..'') segs \<and> list_all (\<lambda>s. s \<noteq> []) (butlast segs))"

datatype routed = Redirected | NotFound | Routed endpoint

definition route :: "Server \<Rightarrow> string \<Rightarrow> routed" where
  "route s path =
     (if \<not> clean_path path then Redirected
      else case map_of (srv_mux s) path of None \<Rightarrow> NotFound | Some e \<Rightarrow> Routed e)"

text \<open>One request, from its path to the response; \<open>ping\<close> is the client's, \<open>as\<close> what the reporter gives, and \<open>page\<close> the handler of the
  Prometheus library, which renders the metrics of the registry. A redirect is left to the library.\<close>

type_synonym metrics_handler =
  "(series \<Rightarrow> nat) \<Rightarrow> (series \<Rightarrow> int) \<Rightarrow> (series \<Rightarrow> duration list) \<Rightarrow> bytes response"

definition serve ::
  "Server \<Rightarrow> Config \<Rightarrow> (ctx \<Rightarrow> 'n world \<Rightarrow> gerror option \<times> 'n world) \<Rightarrow> AgentHealth list \<Rightarrow> metrics_handler \<Rightarrow> string \<Rightarrow> ctx \<Rightarrow>
   'n world \<Rightarrow> bytes response option \<times> 'n world" where
  "serve s cfg ping as page path c w =
     (case route s path of
        Redirected \<Rightarrow> (None, w)
      | NotFound \<Rightarrow> (Some \<lparr>rs_code = 404, rs_type = ''text/plain; charset=utf-8'', rs_body = ''404 page not found'' @ [CHR 0x0A]\<rparr>, w)
      | Routed Livez \<Rightarrow> (Some livez, w)
      | Routed MetricsPage \<Rightarrow> (Some (page (counters w) (gauges w) (histograms w)), w)
      | Routed Readyz \<Rightarrow>
          (case readyz cfg ping as c w of
             (r, w1) \<Rightarrow> (Some \<lparr>rs_code = rs_code r, rs_type = rs_type r, rs_body = probe_json (rs_body r) @ [CHR 0x0A]\<rparr>, w1)))"

section \<open>Start\<close>

definition ErrServerClosed :: gerror where
  "ErrServerClosed = ErrorString ''http: Server closed''"

definition Server_Start :: "Config \<Rightarrow> logger \<Rightarrow> 'n world \<Rightarrow> 'n world" where
  "Server_Start cfg lg w =
     log_at lg LInfo ''operational endpoints listening'' [(''component'', AStr ''http''), (''addr'', AStr (HTTPAddr cfg))] w"

text \<open>What the channel of \<open>Start\<close> delivers when \<open>ListenAndServe\<close> has returned.\<close>

definition Server_reported :: "gerror option \<Rightarrow> gerror option" where
  "Server_reported err = (case err of None \<Rightarrow> None | Some e \<Rightarrow> if e \<noteq> ErrServerClosed then Some e else None)"

section \<open>run and main\<close>

text \<open>What happens between start-up and the end of the select: \<open>None\<close> if the signal came first and otherwise what
  \<open>ListenAndServe\<close> returned; and the instant at which all agents have returned, if ever.\<close>

type_synonym 'n life = "'n process \<Rightarrow> 'n world \<Rightarrow> gerror option option \<times> time option \<times> 'n world"

text \<open>The deferred close of the Redis client.\<close>

definition close_redis :: "gerror option \<Rightarrow> logger \<Rightarrow> 'n world \<Rightarrow> 'n world" where
  "close_redis cerr lg w =
     (case cerr of None \<Rightarrow> w | Some e \<Rightarrow> log_at lg LWarn ''redis close'' [(''error'', AStr (error_Error e))] w)"

text \<open>Only an error of building the agents comes after the client was made.\<close>

definition after_failure :: "gerror \<Rightarrow> string + Config \<Rightarrow> gerror option \<Rightarrow> 'n world \<Rightarrow> 'n world" where
  "after_failure e loaded cerr w =
     (case (e, loaded) of
        (Wrapf what _, Inr cfg) \<Rightarrow> if what = ''building agents'' then close_redis cerr (NewLogger (LogLevel cfg)) w else w
      | _ \<Rightarrow> w)"

definition main_run ::
  "nat \<Rightarrow> json_decoder \<Rightarrow> 'n net \<Rightarrow> 'n rdb \<Rightarrow> (string \<Rightarrow> float64 option) \<Rightarrow> string \<Rightarrow> (string \<Rightarrow> string) \<Rightarrow> 'n life \<Rightarrow>
   gerror option \<Rightarrow> ctx \<Rightarrow> 'n world \<Rightarrow> gerror option \<times> 'n world" where
  "main_run fuel u N R pf host get life cerr c w =
     (case run_start fuel u N R pf host get c w of
        (Inl e, w1) \<Rightarrow> (Some e, after_failure e (loadFrom pf host get) cerr w1)
      | (Inr p, w1) \<Rightarrow>
          (let w2 = Server_Start (pc_cfg p) (pc_log p) w1;
               (srv, all_done, w3) = life p w2
           in (None, close_redis cerr (pc_log p) (run_stop p (map_option Server_reported srv) all_done w3))))"

definition exit_code :: "gerror option \<Rightarrow> int" where
  "exit_code err = (case err of None \<Rightarrow> 0 | Some _ \<Rightarrow> 1)"

section \<open>The bodies are JSON\<close>

lemma is_value_unless_empty: "(k', v) \<in> set (unless_empty k s) \<Longrightarrow> is_value n v"
  by (auto simp: unless_empty_def optional_def is_value_quote split: if_splits)

lemma is_value_AgentHealth: "is_value (Suc 0) (AgentHealth_json h)"
  unfolding AgentHealth_json_def using is_value_unless_empty
  by (intro is_value_object) (auto simp: is_value_quote is_value_Itoa is_value_bool)

lemma is_value_probe: "is_value 3 (probe_json p)"
proof -
  have "\<forall>v \<in> set (map AgentHealth_json (pr_Agents p)). is_value (Suc 0) v \<and> (\<exists>r. v = CHR ''{'' # r)"
    using is_value_AgentHealth by (auto simp: AgentHealth_json_def json_object_def)
  from is_value_array [OF this] have "is_value (Suc (Suc 0)) (json_array (map AgentHealth_json (pr_Agents p)))" .
  then have "is_value (Suc (Suc (Suc 0))) (probe_json p)"
    unfolding probe_json_def using is_value_unless_empty by (intro is_value_object) (auto simp: is_value_quote)
  then show ?thesis by (simp only: numeral_3_eq_3)
qed

section \<open>Properties\<close>

text \<open>
  C30. The paths of the operational server. \<open>/livez\<close> answers 200 and \<open>ok\<close>, without any command and whatever the state of the queue or
  of the agents is. \<open>/readyz\<close> pings the queue and answers 200 if that succeeds and no agent is degraded, has an approximate lag or
  is behind the threshold, and 503 otherwise; its body is one JSON value, whatever ids, source names and error texts it
  holds, of a probe that names the same status, whether the queue was reached, all agents and, if it is not ready, a reason. \<open>/metrics\<close>
  answers what the handler of the library makes of the metrics as they are then, and changes nothing. Every other clean path
  gets 404.
\<close>

theorem endpoints_answer:
  "serve (NewServer cfg) cfg ping as page ''/livez'' c w = (Some \<lparr>rs_code = 200, rs_type = ''text/plain'', rs_body = ''ok''\<rparr>, w) \<and>
   (case ping (with_timeout c (clock w) (3 * second)) w of (e, w1) \<Rightarrow>
      let ready = (e = None \<and> (\<forall>a \<in> set as. ah_State a \<noteq> ''degraded'' \<and> \<not> ah_LagApproximate a \<and>
        ah_LagEntries a \<le> LagThresholdEntries (c_Anomaly cfg))) in
      \<exists>p. serve (NewServer cfg) cfg ping as page ''/readyz'' c w =
          (Some \<lparr>rs_code = (if ready then 200 else 503), rs_type = ''application/json'', rs_body = probe_json p @ [CHR 0x0A]\<rparr>, w1) \<and>
        pr_Status p = (if ready then ''ready'' else ''degraded'') \<and> pr_Redis p = (if e = None then ''ok'' else ''unreachable'') \<and>
        pr_Agents p = as \<and> (pr_Reason p = [] \<longleftrightarrow> ready) \<and>
        scan_value maxNestingDepth (probe_json p) = Some (probe_json p, [])) \<and>
   serve (NewServer cfg) cfg ping as page ''/metrics'' c w = (Some (page (counters w) (gauges w) (histograms w)), w) \<and>
   (clean_path path \<longrightarrow> path \<notin> {''/livez'', ''/readyz'', ''/metrics''} \<longrightarrow>
      map_option rs_code (fst (serve (NewServer cfg) cfg ping as page path c w)) = Some 404)"
proof -
  have cl: "clean_path ''/livez''" "clean_path ''/readyz''" "clean_path ''/metrics''" by (simp_all add: clean_path_def)
  have v: "scan_value maxNestingDepth (probe_json p) = Some (probe_json p, [])" for p
    by (rule scan_is_value [OF is_value_probe]) (simp add: maxNestingDepth_def)
  obtain e w1 where ping: "ping (with_timeout c (clock w) (3 * second)) w = (e, w1)" by fastforce
  define r where "r = readyz_response cfg e as"
  have rz: "readyz cfg ping as c w = (r, w1)" unfolding readyz_def ping r_def by simp
  define ready where "ready \<longleftrightarrow> e = None \<and> (\<forall>a \<in> set as. ah_State a \<noteq> ''degraded'' \<and> \<not> ah_LagApproximate a \<and>
    ah_LagEntries a \<le> LagThresholdEntries (c_Anomaly cfg))"
  have ready': "ready \<longleftrightarrow> e = None \<and> list_all (keeping_up cfg) as"
    by (simp add: ready_def list_all_iff keeping_up_def)
  have fields: "rs_code r = (if ready then 200 else 503)" "rs_type r = ''application/json''"
    "pr_Status (rs_body r) = (if ready then ''ready'' else ''degraded'')" "pr_Agents (rs_body r) = as"
    "pr_Redis (rs_body r) = (if e = None then ''ok'' else ''unreachable'')" "pr_Reason (rs_body r) = [] \<longleftrightarrow> ready"
    unfolding r_def ready' by (cases e; simp add: readyz_response_def Let_def readyz_reason_empty)+
  have "serve (NewServer cfg) cfg ping as page ''/readyz'' c w =
      (Some \<lparr>rs_code = (if ready then 200 else 503), rs_type = ''application/json'', rs_body = probe_json (rs_body r) @ [CHR 0x0A]\<rparr>, w1)"
    using cl(2) fields(1,2) by (simp add: serve_def route_def NewServer_def rz)
  with fields(3-6) v [of "rs_body r"] have readyz: "\<exists>p. serve (NewServer cfg) cfg ping as page ''/readyz'' c w =
      (Some \<lparr>rs_code = (if ready then 200 else 503), rs_type = ''application/json'', rs_body = probe_json p @ [CHR 0x0A]\<rparr>, w1) \<and>
    pr_Status p = (if ready then ''ready'' else ''degraded'') \<and> pr_Redis p = (if e = None then ''ok'' else ''unreachable'') \<and>
    pr_Agents p = as \<and> (pr_Reason p = [] \<longleftrightarrow> ready) \<and> scan_value maxNestingDepth (probe_json p) = Some (probe_json p, [])"
    by blast
  show ?thesis
  proof (intro conjI impI)
    show "serve (NewServer cfg) cfg ping as page ''/livez'' c w = (Some \<lparr>rs_code = 200, rs_type = ''text/plain'', rs_body = ''ok''\<rparr>, w)"
      "serve (NewServer cfg) cfg ping as page ''/metrics'' c w = (Some (page (counters w) (gauges w) (histograms w)), w)"
      using cl by (simp_all add: serve_def route_def NewServer_def livez_def)
    show "map_option rs_code (fst (serve (NewServer cfg) cfg ping as page path c w)) = Some 404"
      if "clean_path path" and "path \<notin> {''/livez'', ''/readyz'', ''/metrics''}"
      using that by (simp add: serve_def route_def NewServer_def)
  qed (use readyz in \<open>simp only: ping prod.case Let_def ready_def\<close>)
qed

theorem endpoints_answer_witness:
  "map_option rs_code (fst (serve (NewServer example_config) example_config (\<lambda>c w. (None, w)) [] (\<lambda>_ _ _. livez) ''/debug'' background example_world)) = Some 404 \<and>
   map_option rs_code (fst (serve (NewServer example_config) example_config (\<lambda>c w. (None, w)) [] (\<lambda>_ _ _. livez) ''/readyz'' background example_world)) = Some 200"
proof -
  have "clean_path ''/debug''" by (simp add: clean_path_def)
  with endpoints_answer [of example_config "\<lambda>c w. (None, w)" "[]" "\<lambda>_ _ _. livez" background example_world "''/debug''"]
  show ?thesis by (auto simp: Let_def)
qed

text \<open>
  The exit status tells start-up failures only: it is 1 exactly if configuration, connection or building failed. A process
  that ends because its operational server could not listen reports success.
\<close>

theorem exit_code_ignores_the_server:
  "exit_code (fst (main_run fuel u N R pf host get life cerr c w)) =
     (case fst (run_start fuel u N R pf host get c w) of Inl _ \<Rightarrow> 1 | Inr _ \<Rightarrow> 0)"
  by (auto simp: main_run_def exit_code_def Let_def split: prod.split sum.split)

end
