(* ===== verification/SummaryText.thy ===== *)
theory SummaryText
  imports LogDrain Wire JsonText "HOL-Library.Monad_Syntax" "HOL-Library.List_Lexorder" "HOL-Library.Char_ord"
begin

text \<open>
  The JSON text of a log summary, as \<open>Emit\<close> logs it and \<open>LogDrainAgent.emit\<close> puts it into the payload of an envelope, a
  reader of this text, and the way of a summary from the entries of a Redis list to the log and from the aggregator to the destinations.
\<close>

section \<open>Writing\<close>

text \<open>A map is written in the byte order of its keys.\<close>

definition breakdown_json :: "(string \<rightharpoonup> int) \<Rightarrow> bytes" where
  "breakdown_json m = json_object (map (\<lambda>k. (k, strconv_Itoa (the (m k)))) (sorted_list_of_set (dom m)))"

text \<open>The times are in UTC. The first field that cannot be written decides the error.\<close>

definition summary_json :: summary_encoder where
  "summary_json s =
     (let refused = (\<lambda>err. Inl (ErrorString (''json: error calling MarshalJSON for type time.Time: Time.MarshalJSON: '' @ err))) in
      case time_text (PeriodStart s) 0 of
        Inl err \<Rightarrow> refused err
      | Inr start \<Rightarrow>
          (case time_text (PeriodEnd s) 0 of
             Inl err \<Rightarrow> refused err
           | Inr stop \<Rightarrow>
               (case time_text (GeneratedAt s) 0 of
                  Inl err \<Rightarrow> refused err
                | Inr at \<Rightarrow>
                    Inr (json_object
                      [(''period_start'', start), (''period_end'', stop), (''entry_count'', strconv_Itoa (EntryCount s)),
                       (''breakdown'', breakdown_json (Breakdown s)), (''generated_at'', at), (''partial'', json_bool (Partial s))]))))"

section \<open>Reading\<close>

definition read_object :: "bytes \<Rightarrow> (bytes \<times> bytes) list option" where
  "read_object v = (case object_members (tl v) of Some (ms, []) \<Rightarrow> if hd v = CHR ''{'' then Some ms else None | _ \<Rightarrow> None)"

definition read_time :: "bytes \<Rightarrow> time option" where
  "read_time v = map_option fst (Parse_RFC3339 (literal_body v))"

definition read_int :: "bytes \<Rightarrow> int option" where
  "read_int v = (case ParseInt v of (n, None) \<Rightarrow> Some n | _ \<Rightarrow> None)"

definition read_bool :: "bytes \<Rightarrow> bool option" where
  "read_bool v = (if v = ''true'' then Some True else if v = ''false'' then Some False else None)"

fun read_counts :: "(bytes \<times> bytes) list \<Rightarrow> (string \<rightharpoonup> int) option" where
  "read_counts [] = Some Map.empty"
| "read_counts ((k, v) # ms) = do { n \<leftarrow> read_int v; m \<leftarrow> read_counts ms; Some (m(k \<mapsto> n)) }"

definition read_summary :: "bytes \<Rightarrow> LogSummary option" where
  "read_summary b =
     do { ms \<leftarrow> read_object b;
          start \<leftarrow> map_of ms ''period_start'' \<bind> read_time;
          stop \<leftarrow> map_of ms ''period_end'' \<bind> read_time;
          n \<leftarrow> map_of ms ''entry_count'' \<bind> read_int;
          m \<leftarrow> map_of ms ''breakdown'' \<bind> read_object \<bind> read_counts;
          at \<leftarrow> map_of ms ''generated_at'' \<bind> read_time;
          p \<leftarrow> map_of ms ''partial'' \<bind> read_bool;
          Some \<lparr>PeriodStart = start, PeriodEnd = stop, EntryCount = n, Breakdown = m, GeneratedAt = at, Partial = p\<rparr> }"

section \<open>Reading what is written\<close>

text \<open>The instants of a summary can be written if their years have four digits; its counts and keys can if they are of the
  form that they have in Go and the keys are valid UTF-8.\<close>

definition writable :: "LogSummary \<Rightarrow> bool" where
  "writable s \<longleftrightarrow> list_all (\<lambda>t. 0 \<le> fst (local_date t 0) \<and> fst (local_date t 0) \<le> 9999) [PeriodStart s, PeriodEnd s, GeneratedAt s]"

definition counts_ok :: "int \<Rightarrow> (string \<rightharpoonup> int) \<Rightarrow> bool" where
  "counts_ok n m \<longleftrightarrow> in64 n \<and> finite (dom m) \<and> (\<forall>k v. m k = Some v \<longrightarrow> utf8_fix k = k \<and> in64 v)"

lemma time_text_Inr: "0 \<le> fst (local_date t 0) \<Longrightarrow> fst (local_date t 0) \<le> 9999 \<Longrightarrow>
  \<exists>v. time_text t 0 = Inr v \<and> read_time v = Some t \<and> is_value n v"
proof -
  assume "0 \<le> fst (local_date t 0)" "fst (local_date t 0) \<le> 9999"
  then obtain x where x: "time_MarshalText t 0 = Inr x" by (auto simp: time_MarshalText_def)
  then have "Parse_RFC3339 x = Some (t, 0)" by (rule Parse_MarshalText) simp
  with x is_value_literal [OF time_text_plain [OF x]] show ?thesis by (simp add: time_text_def read_time_def)
qed

lemma time_text_Inl: "\<not> (0 \<le> fst (local_date t 0) \<and> fst (local_date t 0) \<le> 9999) \<Longrightarrow> \<exists>err. time_text t 0 = Inl err"
  by (auto simp: time_text_def time_MarshalText_def)

lemma read_int_Itoa: "in64 i \<Longrightarrow> read_int (strconv_Itoa i) = Some i"
  by (simp add: read_int_def ParseInt_Itoa)

lemma read_bool_json: "read_bool (json_bool b) = Some b"
  by (simp add: read_bool_def json_bool_def)

lemma read_object_json:
  "\<forall>(k, v) \<in> set ms. is_value n v \<Longrightarrow> n \<le> inner \<Longrightarrow> read_object (json_object ms) = Some (map (\<lambda>(k, v). (utf8_fix k, v)) ms)"
  using object_read [of ms n "[]"] by (simp add: read_object_def) (simp add: json_object_def)

lemma read_counts_written:
  "\<forall>k \<in> set ks. in64 (f k) \<Longrightarrow> distinct ks \<Longrightarrow>
   read_counts (map (\<lambda>k. (k, strconv_Itoa (f k))) ks) = Some (\<lambda>k. if k \<in> set ks then Some (f k) else None)"
  by (induction ks) (auto simp: read_int_Itoa)

lemma is_value_breakdown: "is_value (Suc 0) (breakdown_json m)"
  unfolding breakdown_json_def by (rule is_value_object) (auto simp: is_value_Itoa)

lemma read_breakdown:
  assumes "counts_ok n m"
  shows "read_object (breakdown_json m) \<bind> read_counts = Some m"
proof -
  let ?ks = "sorted_list_of_set (dom m)"
  have ks: "set ?ks = dom m" "distinct ?ks" using assms by (simp_all add: counts_ok_def)
  have "map (\<lambda>(k, v). (utf8_fix k, v)) (map (\<lambda>k. (k, strconv_Itoa (the (m k)))) ?ks) = map (\<lambda>k. (k, strconv_Itoa (the (m k)))) ?ks"
    using assms ks(1) by (auto simp: counts_ok_def)
  then have "read_object (breakdown_json m) = Some (map (\<lambda>k. (k, strconv_Itoa (the (m k)))) ?ks)"
    unfolding breakdown_json_def by (subst read_object_json [of _ 0]) (auto simp: is_value_Itoa)
  moreover have "read_counts (map (\<lambda>k. (k, strconv_Itoa (the (m k)))) ?ks) = Some (\<lambda>k. if k \<in> set ?ks then Some (the (m k)) else None)"
    using assms ks by (intro read_counts_written) (auto simp: counts_ok_def)
  moreover have "(\<lambda>k. if k \<in> set ?ks then Some (the (m k)) else None) = m" unfolding ks(1) by (auto simp: fun_eq_iff domIff split: option.splits)
  ultimately show ?thesis by simp
qed

lemma summary_names:
  "utf8_fix ''period_start'' = ''period_start''" "utf8_fix ''period_end'' = ''period_end''" "utf8_fix ''entry_count'' = ''entry_count''"
  "utf8_fix ''breakdown'' = ''breakdown''" "utf8_fix ''generated_at'' = ''generated_at''" "utf8_fix ''partial'' = ''partial''"
  by (rule utf8_fix_plain; simp add: plain_def html_special_def)+

lemma depths: "Suc 0 \<le> inner" "2 \<le> inner" "2 \<le> maxNestingDepth"
  by (simp_all add: inner_def maxNestingDepth_def)

lemma summary_json_written:
  assumes "writable s" and "counts_ok (EntryCount s) (Breakdown s)"
  shows "\<exists>b. summary_json s = Inr b \<and> is_value 2 b \<and> hd b = CHR ''{'' \<and> read_summary b = Some s"
proof -
  from assms(1) obtain start stop at where
    t: "time_text (PeriodStart s) 0 = Inr start" "read_time start = Some (PeriodStart s)" "is_value (Suc 0) start"
    "time_text (PeriodEnd s) 0 = Inr stop" "read_time stop = Some (PeriodEnd s)" "is_value (Suc 0) stop"
    "time_text (GeneratedAt s) 0 = Inr at" "read_time at = Some (GeneratedAt s)" "is_value (Suc 0) at"
    using time_text_Inr [of "PeriodStart s" "Suc 0"] time_text_Inr [of "PeriodEnd s" "Suc 0"] time_text_Inr [of "GeneratedAt s" "Suc 0"]
    by (auto simp: writable_def)
  define ms where "ms = [(''period_start'', start), (''period_end'', stop), (''entry_count'', strconv_Itoa (EntryCount s)),
    (''breakdown'', breakdown_json (Breakdown s)), (''generated_at'', at), (''partial'', json_bool (Partial s))]"
  have vs: "\<forall>(k, v) \<in> set ms. is_value (Suc 0) v"
    using t by (simp add: ms_def is_value_Itoa is_value_bool is_value_breakdown)
  have "is_value 2 (json_object ms)" using is_value_object [OF vs] by (simp add: numeral_2_eq_2)
  moreover have "summary_json s = Inr (json_object ms)" by (simp add: summary_json_def Let_def t ms_def)
  moreover have "read_summary (json_object ms) = Some s"
  proof -
    have "read_object (json_object ms) = Some ms"
      using read_object_json [OF vs depths(1)] by (simp add: ms_def summary_names)
    moreover obtain q where "read_object (breakdown_json (Breakdown s)) = Some q" "read_counts q = Some (Breakdown s)"
      using read_breakdown [OF assms(2)] by (auto simp: bind_eq_Some_conv)
    ultimately show ?thesis
      using assms(2) by (simp add: read_summary_def ms_def t read_int_Itoa read_bool_json counts_ok_def)
  qed
  moreover have "hd (json_object ms) = CHR ''{''" by (simp add: json_object_def)
  ultimately show ?thesis by blast
qed

lemma summary_json_refused: "\<not> writable s \<Longrightarrow> \<exists>err. summary_json s = Inl err"
  using time_text_Inl [of "PeriodStart s"] time_text_Inl [of "PeriodEnd s"] time_text_Inl [of "GeneratedAt s"]
  by (auto simp: writable_def summary_json_def Let_def split: sum.splits)

section \<open>Summaries of the aggregator\<close>

lemma counts_ok_Inc: "counts_ok n m \<Longrightarrow> utf8_fix k = k \<Longrightarrow> counts_ok (wrap64 (n + 1)) (map_Inc k m)"
  by (auto simp: counts_ok_def map_Inc_def)

lemma counts_ok_count: "counts_ok n m \<Longrightarrow> counts_ok (wrap64 x) m"
  by (auto simp: counts_ok_def)

lemma counts_ok_new: "counts_ok 0 Map.empty"
  by (simp add: counts_ok_def in64_def minInt64_def maxInt64_def)

lemma gateway_key_ok: "utf8_fix (GatewayID env) = GatewayID env \<Longrightarrow> utf8_fix (gateway_key env) = gateway_key env"
  by (simp add: gateway_key_def utf8_fix_ascii)

lemma count_entry_ok:
  "counts_ok (agg_count a) (agg_byKey a) \<Longrightarrow> wire_ok env \<Longrightarrow>
   counts_ok (agg_count (count_entry env a)) (agg_byKey (count_entry env a))"
  by (simp add: count_entry_def Let_def counts_ok_Inc counts_ok_count gateway_key_ok wire_ok_def)

lemma agg_step_ok:
  assumes "counts_ok (agg_count a) (agg_byKey a)" and "\<forall>env \<in> set (observed [x]). wire_ok env" and "agg_step a x = (c, a')"
  shows "counts_ok (agg_count a') (agg_byKey a') \<and> (\<forall>s. c = Some s \<longrightarrow> counts_ok (EntryCount s) (Breakdown s))"
proof (cases x)
  case (OpObserve env now)
  obtain so b where r: "roll a (bucketStart a (stamp_of env now)) now = (so, b)" by fastforce
  then have "counts_ok (agg_count b) (agg_byKey b) \<and> (\<forall>s. so = Some s \<longrightarrow> counts_ok (EntryCount s) (Breakdown s))"
    using assms(1) counts_ok_new by (auto simp: roll_def closeLocked_def Let_def split: if_splits)
  with OpObserve assms(2,3) r count_entry_ok show ?thesis by (auto simp: Observe_def)
next
  case (OpTick now)
  with assms(1,3) counts_ok_new show ?thesis by (auto simp: Tick_def closeLocked_def Let_def split: if_splits)
qed

lemma run_agg_ok:
  "counts_ok (agg_count a) (agg_byKey a) \<Longrightarrow> \<forall>env \<in> set (observed ops). wire_ok env \<Longrightarrow> s \<in> set (fst (run_agg a ops)) \<Longrightarrow>
   counts_ok (EntryCount s) (Breakdown s)"
proof (induction ops arbitrary: a)
  case (Cons x ops)
  obtain c a1 where x: "agg_step a x = (c, a1)" by fastforce
  have obs: "observed (x # ops) = observed [x] @ observed ops" by (cases x) simp_all
  note ok = agg_step_ok [OF Cons.prems(1) _ x]
  from Cons.prems(2) obs ok have 1: "counts_ok (agg_count a1) (agg_byKey a1)" "\<forall>s. c = Some s \<longrightarrow> counts_ok (EntryCount s) (Breakdown s)"
    by auto
  from Cons.prems(3) x have "c = Some s \<or> s \<in> set (fst (run_agg a1 ops))"
    by (auto simp: Let_def case_prod_unfold split: option.splits)
  with 1 Cons.IH [OF 1(1)] Cons.prems(2) obs show ?case by auto
qed simp

lemma summaries_counts_ok:
  "s \<in> set (fst (run_agg (NewAggregator p) ops)) \<Longrightarrow> \<forall>env \<in> set (observed ops). wire_ok env \<Longrightarrow> counts_ok (EntryCount s) (Breakdown s)"
  by (rule run_agg_ok [of "NewAggregator p" ops]) (simp_all add: NewAggregator_def counts_ok_new)

section \<open>The envelope of a summary\<close>

lemma format_RFC3339_Nano: "format_RFC3339 t = format_RFC3339Nano (t div second * second) 0"
  by (simp add: format_RFC3339_def format_RFC3339Nano_def local_date_def local_seconds_def zone_text_def fmt_frac_zero Let_def)

lemma summary_id_plain: "writable s \<Longrightarrow> list_all plain (summary_id s)"
proof -
  assume "writable s"
  then have "time_MarshalText (PeriodStart s div second * second) 0 = Inr (format_RFC3339 (PeriodStart s))"
    by (simp add: writable_def time_MarshalText_def format_RFC3339_Nano local_date_def local_seconds_def)
  from time_text_plain [OF this] show ?thesis by (simp add: summary_id_def plain_def html_special_def)
qed

lemma summary_envelope_ok:
  assumes "writable s" and "is_value 2 b" and "utf8_fix (ref_Name (src_Ref (ld_source a))) = ref_Name (src_Ref (ld_source a))"
    and "hd b = CHR ''{''"
  shows "wire_ok (summary_envelope a s b)" "well_formed (summary_envelope a s b)" "rewritten (summary_envelope a s b) = summary_envelope a s b"
proof -
  have b: "raw_ok b" "b \<noteq> []" "compacted b = b"
    using is_value_raw [OF assms(2) depths(2)] is_value_start [OF assms(2)] is_value_compact [OF assms(2) depths(3)]
    by (simp_all add: compacted_def raw_value_def)
  have "utf8_fix (summary_id s) = summary_id s" by (rule utf8_fix_plain [OF summary_id_plain [OF assms(1)]])
  moreover have "utf8_fix ''pulse-conflux'' = ''pulse-conflux''" by (rule utf8_fix_plain) (simp add: plain_def html_special_def)
  ultimately show "wire_ok (summary_envelope a s b)"
    using assms(1,3) b(1) wire_ok_zero by (simp add: wire_ok_def summary_envelope_def writable_def zero_Envelope_def)
  have "b \<noteq> ''null''" using assms(4) by auto
  with b(2) show "well_formed (summary_envelope a s b)" by (simp add: well_formed_def summary_envelope_def summary_id_def)
  show "rewritten (summary_envelope a s b) = summary_envelope a s b"
    using b(3) by (simp add: rewritten_def summary_envelope_def zero_Envelope_def)
qed

section \<open>Properties\<close>

text \<open>
  C26. A summary survives its text: whatever entries the aggregator was given and whatever ticks came between them, every summary it
  closes is either written as one JSON value, from which a reader gets exactly this summary back - bounds, counts by gateway,
  instant and flag - and which compaction does not change; or one of its instants lies outside the years 0 to 9999, and
  the encoder refuses it.
\<close>

theorem summaries_read_back:
  assumes "s \<in> set (fst (run_agg (NewAggregator p) ops))" and "\<forall>env \<in> set (observed ops). wire_ok env"
  shows "if writable s then \<exists>b. summary_json s = Inr b \<and> read_summary b = Some s \<and> compact b = Some b
    else \<exists>err. summary_json s = Inl err"
proof (cases "writable s")
  case True
  from summary_json_written [OF this summaries_counts_ok [OF assms]] True show ?thesis
    using is_value_compact [OF _ depths(3)] by auto
qed (simp add: summary_json_refused)

lemma example_ops_ok: "\<forall>env \<in> set (observed example_ops). wire_ok env"
proof -
  have "is_value 1 (json_object [])" using is_value_object [of "[]" 0] by simp
  then have "raw_ok ''{}''" using is_value_raw [of 1 "''{}''"] depths(1) by (simp add: json_object_def)
  moreover have "utf8_fix ''e'' = ''e''" "utf8_fix ''gw'' = ''gw''"
    by (rule utf8_fix_plain; simp add: plain_def html_special_def)+
  moreover have "local_date (9 * hour + 1) 0 = (1, 1, 1)" "local_date (9 * hour + 7) 0 = (1, 1, 1)"
    by (simp_all add: local_date_def local_seconds_def date_of_def year_yday_def month_lengths_def)
  ultimately show ?thesis
    using wire_ok_zero by (simp add: example_ops_def example_entry_def wire_ok_def zero_Envelope_def)
qed

lemma example_summary:
  "\<exists>s. s \<in> set (fst (run_agg (NewAggregator hour) example_ops)) \<and> writable s"
proof -
  have "\<exists>s a. run_agg (NewAggregator hour) example_ops = ([s], a) \<and> PeriodStart s = 9 * hour \<and> PeriodEnd s = 10 * hour \<and>
      GeneratedAt s = 10 * hour + 5"
    by (simp add: example_ops_def NewAggregator_def Observe_def Tick_def roll_def count_entry_def bucketStart_def
        time_Truncate_def stamp_of_def example_entry_def zero_Envelope_def zero_time_def closeLocked_def Let_def)
  moreover have "local_date (9 * hour) 0 = (1, 1, 1)" "local_date (10 * hour) 0 = (1, 1, 1)" "local_date (10 * hour + 5) 0 = (1, 1, 1)"
    by (simp_all add: local_date_def local_seconds_def date_of_def year_yday_def month_lengths_def)
  ultimately show ?thesis by (elim exE conjE) (simp add: writable_def)
qed

theorem summaries_read_back_witness:
  "\<exists>s b. s \<in> set (fst (run_agg (NewAggregator hour) example_ops)) \<and> summary_json s = Inr b \<and> read_summary b = Some s"
proof -
  obtain s where s: "s \<in> set (fst (run_agg (NewAggregator hour) example_ops))" "writable s" using example_summary by blast
  with summaries_read_back [OF s(1) example_ops_ok] show ?thesis by auto
qed

text \<open>What a reader of the log makes of a summary line: the text in its last attribute.\<close>

definition read_line :: "logline \<Rightarrow> LogSummary option" where
  "read_line l = (case last (l_attrs l) of (k, AStr b) \<Rightarrow> read_summary b | _ \<Rightarrow> None)"

lemma read_summary_Nil: "read_summary [] = None"
  by (simp add: read_summary_def read_object_def object_members_def)

lemma read_summary_line:
  assumes "counts_ok (EntryCount s) (Breakdown s)"
  shows "read_line (summary_line summary_json a s) = (if writable s then Some s else None)"
  using summary_json_written [OF _ assms] summary_json_refused [of s]
  by (auto simp: read_line_def summary_line_def read_summary_Nil)

lemma Unmarshal_wire_ok: "Unmarshal explain raw = Inr e \<Longrightarrow> wire_ok e"
  using decode_wire_ok by (auto simp: Unmarshal_def split: option.splits)

lemma list_delivers_wire_ok: "delivers wire_ok (list_source (Unmarshal explain) R s)"
  unfolding delivers_def
proof (intro allI impI)
  fix d assume "read_from (list_source (Unmarshal explain) R s) d" and none: "d_Unprocessable d = None"
  then obtain c w ds w' where r: "ListSource_Read (Unmarshal explain) R s c w = (Inr ds, w')" and d: "d \<in> set ds"
    by (auto simp: read_from_def list_source_def)
  obtain b w1 where "call (BLPOP (ref_Name (ls_ref s)) (ls_block s))
      (x_BLPop R (ref_Name (ls_ref s)) (ls_block s)) c w = (b, w1)" by fastforce
  with r d none obtain raw where "Parse (Unmarshal explain) raw = (d_Envelope d, None)"
    by (auto simp: ListSource_Read_def NewDelivery_def Let_def split: sum.splits if_splits option.splits prod.splits)
  then have "Unmarshal explain raw = Inr (d_Envelope d)" by (cases rule: Parse_cases [of "Unmarshal explain" raw]) auto
  then show "wire_ok (d_Envelope d)" by (rule Unmarshal_wire_ok)
qed

text \<open>
  C24. From the Redis list to the log: a run of the drain agent on a list is a run of the aggregator, of one observation for every entry
  that it read and could parse and of the ticks in between, and it has counted these entries as processed. When the
  agent has returned, a reader of its log gets from the new summary lines, one for one and in order, exactly the summaries that the
  aggregator closed in this run - bounds, counts by gateway, instant and flag, whatever bytes the list held - except for
  summaries with an instant outside the years 0 to 9999, whose lines carry no text and read as nothing. The entries of
  the summaries, with those of the open bucket, are the ones counted as processed.
\<close>

theorem summaries_are_readable_in_the_log:
  assumes "drain_ok a" and "info_enabled a" and "ld_source a = list_source (Unmarshal explain) R s"
    and "LogDrain_Run fuel summary_json a c (NewAggregator p) w = Some (Ret e, agg, w')"
    and "int (processed (ld_id a) (ref_Name (ls_ref s)) w') - int (processed (ld_id a) (ref_Name (ls_ref s)) w) < 2 ^ 63"
  shows "let ops = run_ops fuel summary_json a c (NewAggregator p) w; ss = fst (run_agg (NewAggregator p) ops);
      n = int (processed (ld_id a) (ref_Name (ls_ref s)) w') - int (processed (ld_id a) (ref_Name (ls_ref s)) w) in
    (\<exists>ls. summary_lines w' = summary_lines w @ ls \<and> map read_line ls = map (\<lambda>x. if writable x then Some x else None) ss) \<and>
    agg = snd (run_agg (NewAggregator p) ops) \<and> int (length (observed ops)) = n \<and> sum_list (map EntryCount ss) + agg_count agg = n"
proof -
  let ?ops = "run_ops fuel summary_json a c (NewAggregator p) w"
  define ss where "ss = fst (run_agg (NewAggregator p) ?ops)"
  from list_src.LogDrain_Run_accounted [OF assms(1,2) list_delivers_wire_ok assms(3,4)]
  have acc: "accounted wire_ok summary_json a (ref_Name (ls_ref s)) ?ops (NewAggregator p, w) (agg, w')"
    by (simp add: list_source_def)
  then have ok: "\<forall>env \<in> set (observed ?ops). wire_ok env" by (simp add: accounted_def)
  have "read_line (summary_line summary_json a x) = (if writable x then Some x else None)" if "x \<in> set ss" for x
    by (rule read_summary_line, rule summaries_counts_ok [OF _ ok, of x p]) (use that in \<open>simp add: ss_def\<close>)
  then have "map read_line (map (summary_line summary_json a) ss) = map (\<lambda>x. if writable x then Some x else None) ss" by simp
  with acc accounted_counts [OF acc assms(5)] show ?thesis
    unfolding accounted_def fst_conv snd_conv Let_def ss_def by auto
qed

definition text_rdb :: "unit rdb" where
  "text_rdb = quiet_rdb\<lparr>x_BLPop := (\<lambda>_ _ c t n. if t < 10 * hour then (Inr [''logs'', example_raw], nat hour, n)
     else if t < 11 * hour then (Inr [], nat hour, n) else (Inl ContextCanceled, 1, n))\<rparr>"

definition text_agent :: "unit LogDrainAgent" where
  "text_agent = drain_agent\<lparr>ld_source := list_source (Unmarshal (\<lambda>_. [])) text_rdb drain_source\<rparr>"

lemma text_agent_ok:
  "drain_ok text_agent" "info_enabled text_agent" "ld_id text_agent = ''d''" "ref_Name (ls_ref drain_source) = ''logs''"
  "ld_source text_agent = list_source (Unmarshal (\<lambda>_. [])) text_rdb drain_source" "ld_dispatcher text_agent = None"
  using drain_agent_ok(1,2)
  by (simp_all add: text_agent_def drain_ok_def info_enabled_def drain_agent_def NewLogDrainAgent_def drain_source_def)

definition text_summary :: LogSummary where
  "text_summary = \<lparr>PeriodStart = 10 * hour, PeriodEnd = 11 * hour, EntryCount = 1, Breakdown = [''gateway:g'' \<mapsto> 1],
     GeneratedAt = 11 * hour, Partial = True\<rparr>"

definition text_delivery :: "unit Delivery" where
  "text_delivery = NewDelivery example_event (ls_ref drain_source) [] (Some example_raw) None (Some (\<lambda>c w. (None, w)))
     (Some (\<lambda>c w. (None, log_at (ls_log drain_source) LError ''list entry lost''
        [(''component'', AStr ''redis''), (''source'', AStr ''logs''), (''raw'', AStr example_raw)] w)))"

lemma text_read:
  "clock w < 10 * hour \<Longrightarrow> src_Read (ld_source text_agent) background w =
     (Inr [text_delivery], w\<lparr>clock := clock w + hour, trace := trace w @ [BLPOP ''logs'' second], outside := ()\<rparr>)"
  "10 * hour \<le> clock w \<Longrightarrow> clock w < 11 * hour \<Longrightarrow> src_Read (ld_source text_agent) background w =
     (Inr [], w\<lparr>clock := clock w + hour, trace := trace w @ [BLPOP ''logs'' second], outside := ()\<rparr>)"
  "11 * hour \<le> clock w \<Longrightarrow> \<exists>err. src_Read (ld_source text_agent) background w =
     (Inl err, w\<lparr>clock := clock w + 1, trace := trace w @ [BLPOP ''logs'' second], outside := ()\<rparr>)"
  by (simp_all add: text_agent_ok list_source_def ListSource_Read_def drain_source_def text_rdb_def call_def example_accepted
      text_delivery_def Let_def)

definition text_bucket :: Aggregator where
  "text_bucket = \<lparr>agg_period = hour, agg_current = 10 * hour, agg_count = 1, agg_byKey = [''gateway:g'' \<mapsto> 1], agg_partial = True\<rparr>"

lemma text_one:
  "clock w = 10 * hour \<Longrightarrow> drain_one summary_json text_agent background text_delivery (NewAggregator hour) w =
     (Ret (), text_bucket, counter_Inc ''conflux_events_processed_total'' [''d'', ''logs''] w)"
  by (simp add: drain_one_def text_delivery_def NewDelivery_def Observe_def roll_def count_entry_def emit_closed_def Ack_def
      bucketStart_def time_Truncate_def stamp_of_def NewAggregator_def zero_time_def zero_Envelope_def text_bucket_def
      text_agent_ok drain_source_def example_event_def gateway_key_def map_Inc_def wrap64_def Let_def)

lemma text_tick:
  "\<exists>agg. Tick text_bucket (11 * hour) = (Some text_summary, agg)"
  "Tick text_bucket (10 * hour) = (None, text_bucket)"
  by (simp_all add: Tick_def text_bucket_def bucketStart_def time_Truncate_def zero_time_def closeLocked_def text_summary_def Let_def)

lemma text_run:
  "\<exists>e agg w'. LogDrain_Run 3 summary_json text_agent background (NewAggregator hour) (start_world (9 * hour) (\<lambda>_. 0) ()) =
     Some (Ret e, agg, w') \<and> processed ''d'' ''logs'' w' = 1 \<and> summary_lines w' = [summary_line summary_json text_agent text_summary]"
proof -
  let ?a = text_agent
  define w0 where "w0 = log_at (ld_log ?a) LInfo ''log drain agent started'' [] (start_world (9 * hour) (\<lambda>_. 0) () :: unit world)"
  have w0: "clock w0 = 9 * hour" "processed ''d'' ''logs'' w0 = 0" "summary_lines w0 = []"
    by (simp_all add: w0_def log_at_def start_world_def processed_def summary_lines_def)
  define w1 where "w1 = w0\<lparr>clock := clock w0 + hour, trace := trace w0 @ [BLPOP ''logs'' second], outside := ()\<rparr>"
  define w2 where "w2 = counter_Inc ''conflux_events_processed_total'' [''d'', ''logs''] w1"
  define w3 where "w3 = w2\<lparr>clock := clock w2 + hour, trace := trace w2 @ [BLPOP ''logs'' second], outside := ()\<rparr>"
  obtain agg where tick: "Tick text_bucket (11 * hour) = (Some text_summary, agg)" using text_tick(1) by blast
  obtain r w4 where e: "emit_closed summary_json ?a background (Some text_summary) w3 = (r, w4)" by fastforce
  have c: "clock w1 = 10 * hour" "clock w2 = 10 * hour" "clock w3 = 11 * hour"
    using w0(1) by (simp_all add: w1_def w2_def w3_def)
  have r: "r = Ret ()" "clock w4 = 11 * hour" using e text_agent_ok(6) c(3)
    by (auto simp: emit_closed_def emit_def Emit_def log_at_def Let_def split: sum.splits)
  have f: "processed ''d'' ''logs'' w4 = processed ''d'' ''logs'' w3"
    "summary_lines w4 = summary_lines w3 @ [summary_line summary_json ?a text_summary]"
    using emit_frame [OF text_agent_ok(1,2) e, of "''d''" "''logs''"] by simp_all
  have g: "processed ''d'' ''logs'' w3 = 1" "summary_lines w3 = []"
    using w0(2,3) by (simp_all add: w3_def w2_def w1_def processed_def summary_lines_def counter_Inc_def)
  obtain err where q: "src_Read (ld_source ?a) background w4 =
     (Inl err, w4\<lparr>clock := clock w4 + 1, trace := trace w4 @ [BLPOP ''logs'' second], outside := ()\<rparr>)"
    using text_read(3) [of w4] r(2) by auto
  have sel: "poll_select background t w = (if t \<le> clock w then PollTick else PollNone, w)" for t and w :: "unit world"
    by (simp add: poll_select_def)
  have "drain_loop (Suc 0) summary_json ?a background t text_bucket w3 =
      Some (Ret (Some err), agg, w4\<lparr>clock := clock w4 + 1, trace := trace w4 @ [BLPOP ''logs'' second], outside := ()\<rparr>)"
    if "t \<le> 11 * hour" for t
    using that c(3) by (simp add: sel poll_tick_def tick [simplified] e r(1) q Let_def)
  moreover have "next_tick (9 * hour + second) (10 * hour) \<le> 11 * hour" by (simp add: next_tick_def)
  moreover have "src_Read (ld_source ?a) background w0 = (Inr [text_delivery], w1)" using text_read(1) [of w0] w0(1) by (simp add: w1_def)
  moreover have "drain_batch summary_json ?a background [text_delivery] (NewAggregator hour) w1 = (Ret (), text_bucket, w2)"
    using text_one [OF c(1)] by (simp add: w2_def)
  moreover have "src_Read (ld_source ?a) background w2 = (Inr [], w3)" using text_read(2) [of w2] c(2) by (simp add: w3_def)
  moreover have "emit_closed summary_json ?a background None w2 = (Ret (), w2)" by (simp add: emit_closed_def)
  ultimately have "LogDrain_Run 3 summary_json ?a background (NewAggregator hour) (start_world (9 * hour) (\<lambda>_. 0) ()) =
      Some (Ret (Some err), agg, w4\<lparr>clock := clock w4 + 1, trace := trace w4 @ [BLPOP ''logs'' second], outside := ()\<rparr>)"
    unfolding LogDrain_Run_def w0_def [symmetric] numeral_3_eq_3
    using w0(1) c(2) by (simp add: sel poll_tick_def text_tick(2) [simplified] Let_def start_world_def)
  with f g show ?thesis by (simp add: processed_def summary_lines_def)
qed

theorem summaries_are_readable_in_the_log_witness:
  "\<exists>e agg w' l. LogDrain_Run 3 summary_json text_agent background (NewAggregator hour) (start_world (9 * hour) (\<lambda>_. 0) ()) =
     Some (Ret e, agg, w') \<and> summary_lines w' = [l] \<and> read_line l = Some text_summary \<and> EntryCount text_summary + agg_count agg = 1"
proof -
  let ?w = "start_world (9 * hour) (\<lambda>_. 0) () :: unit world"
  obtain e agg w' where run: "LogDrain_Run 3 summary_json text_agent background (NewAggregator hour) ?w = Some (Ret e, agg, w')"
    and n: "processed ''d'' ''logs'' w' = 1" and l: "summary_lines w' = [summary_line summary_json text_agent text_summary]"
    using text_run by blast
  have z: "processed ''d'' ''logs'' ?w = 0" "summary_lines ?w = []" by (simp_all add: processed_def summary_lines_def start_world_def)
  have "local_date (10 * hour) 0 = (1, 1, 1)" "local_date (11 * hour) 0 = (1, 1, 1)"
    by (simp_all add: local_date_def local_seconds_def date_of_def year_yday_def month_lengths_def)
  then have "writable text_summary" by (simp add: writable_def text_summary_def)
  moreover have "utf8_fix ''gateway:g'' = ''gateway:g''" by (rule utf8_fix_plain) (simp add: plain_def html_special_def)
  then have "counts_ok (EntryCount text_summary) (Breakdown text_summary)"
    by (simp add: text_summary_def counts_ok_def in64_def minInt64_def maxInt64_def)
  ultimately have s: "read_line (summary_line summary_json text_agent text_summary) = Some text_summary"
    by (simp add: read_summary_line)
  from summaries_are_readable_in_the_log [OF text_agent_ok(1,2,5) run, unfolded text_agent_ok(3,4) n z Let_def] obtain ss ls where
    "summary_lines w' = ls" "map read_line ls = map (\<lambda>x. if writable x then Some x else None) ss"
    "sum_list (map EntryCount ss) + agg_count agg = 1" by auto
  with l s have "ss = [text_summary]" "sum_list (map EntryCount ss) + agg_count agg = 1"
    by (auto simp: Cons_eq_map_conv split: if_splits)
  with run l s show ?thesis by auto
qed

lemma emit_refused:
  assumes "\<not> writable s" and "ld_dispatcher a = Some d" and "emit summary_json a c s w = (r, w')"
  shows "issued w w' = []"
proof -
  obtain err where "summary_json s = Inl err" using summary_json_refused [OF assms(1)] by blast
  with assms(2,3) have "trace w' = trace w" by (auto simp: emit_def Emit_def log_at_def Let_def)
  then show ?thesis by (simp add: issued_def)
qed

text \<open>
  C25. From the aggregator to the destinations: when a summary that the aggregator closed is emitted through a dispatcher to HTTP
  destinations whose URLs parse, each of them gets at least one request, in order, all with one and the same body. A receiver that
  parses this body by the rules of the service's own contract accepts it and reads exactly the envelope that was built,
  identified by the start of the period; and in its payload, byte for byte, it finds the summary. Only a summary with an instant
  outside the years 0 to 9999 cannot be encoded, and of it nothing is sent.
\<close>

theorem summaries_reach_destinations:
  assumes "s \<in> set (fst (run_agg (NewAggregator p) ops))" and "\<forall>env \<in> set (observed ops). wire_ok env"
    and "ld_dispatcher a = Some d" and "dests d = map (http_destination N) ds" and "1 \<le> MaxAttempts (policy d)"
    and "n_Marshal N = Marshal explain" and "\<forall>x \<in> set ds. n_NewRequest N (hd_url x) = None"
    and "utf8_fix (ref_Name (src_Ref (ld_source a))) = ref_Name (src_Ref (ld_source a))"
    and "emit summary_json a c s w = (Ret (), w')"
  shows "if writable s
    then \<exists>b body ns. read_summary b = Some s \<and> Parse (Unmarshal explain) body = (summary_envelope a s b, None) \<and>
      length ns = length ds \<and> (\<forall>n \<in> set ns. 1 \<le> n) \<and> issued w w' = posts (summary_envelope a s b) body (zip ds ns)
    else issued w w' = []"
proof (cases "writable s")
  case True
  obtain b where b: "summary_json s = Inr b" "is_value 2 b" "hd b = CHR ''{''" "read_summary b = Some s"
    using summary_json_written [OF True summaries_counts_ok [OF assms(1,2)]] by blast
  note env = summary_envelope_ok [OF True b(2) assms(8) b(3)]
  have "\<bar>ReceivedZone (summary_envelope a s b)\<bar> < 86400" by (simp add: summary_envelope_def zero_Envelope_def)
  then obtain body where body: "Marshal explain (summary_envelope a s b) = Inr body" using Marshal_succeeds [OF env(1)] by blast
  have "Parse (Unmarshal explain) body = (summary_envelope a s b, None)"
    using decode_Marshal [OF env(1) body] env(2,3) by (simp add: Parse_Unmarshal)
  moreover define w1 where "w1 = Emit summary_json (ld_log a) s w"
  then have "trace w1 = trace w" by (simp add: Emit_def Let_def log_at_def)
  moreover obtain outs where "send_all d c (summary_envelope a s b) (map (http_destination N) ds) w1 = (Ret outs, w')"
    using assms(3,4,9) b(1) by (auto simp: emit_def Send_def w1_def split: gores.splits prod.splits)
  from send_all_wire [OF _ assms(7,5) this] obtain ns where
    "length ns = length ds" "\<forall>n \<in> set ns. 1 \<le> n" "trace w' = trace w1 @ posts (summary_envelope a s b) body (zip ds ns)"
    using assms(6) body by auto
  ultimately have "\<exists>b body ns. read_summary b = Some s \<and> Parse (Unmarshal explain) body = (summary_envelope a s b, None) \<and>
      length ns = length ds \<and> (\<forall>n \<in> set ns. 1 \<le> n) \<and> issued w w' = posts (summary_envelope a s b) body (zip ds ns)"
    using b(4) extendsI by (intro exI [of _ b] exI [of _ body] exI [of _ ns]) auto
  with True show ?thesis by (simp only: if_True)
next
  case False
  with emit_refused [OF False assms(3,9)] show ?thesis by simp
qed

lemma emit_total:
  assumes "ld_dispatcher a = Some d" and "\<forall>x \<in> set (dests d). destination x" and "1 \<le> MaxAttempts (policy d)"
    and "sane_backoff (policy d)"
  shows "\<exists>w'. emit marshal a c s w = (Ret (), w')"
proof (cases "marshal s")
  case (Inr b)
  let ?w = "Emit marshal (ld_log a) s w"
  obtain outs w' where "Send d c (summary_envelope a s b) ?w = (Ret outs, w')"
    using send_all_total [OF assms(2-4)] unfolding Send_def by blast
  with Inr assms(1) show ?thesis by (simp add: emit_def Let_def)
qed (use assms(1) in \<open>simp add: emit_def Let_def\<close>)

definition summary_agent :: "unit LogDrainAgent" where
  "summary_agent = drain_agent\<lparr>ld_dispatcher :=
     Some (NewDispatcher ''d'' (map (http_destination wire_net) [NewHTTP ''summary'' ''http://sink'' ''d'']) example_policy (NewLogger []))\<rparr>"

theorem summaries_reach_destinations_witness:
  "\<exists>s b body n w'. emit summary_json summary_agent background s example_world = (Ret (), w') \<and> read_summary b = Some s \<and>
     Parse (Unmarshal (\<lambda>_. [])) body = (summary_envelope summary_agent s b, None) \<and> 1 \<le> n \<and>
     issued example_world w' = posts (summary_envelope summary_agent s b) body [(NewHTTP ''summary'' ''http://sink'' ''d'', n)]"
proof -
  let ?h = "NewHTTP ''summary'' ''http://sink'' ''d''"
  obtain s where s: "s \<in> set (fst (run_agg (NewAggregator hour) example_ops))" "writable s" using example_summary by blast
  define d where "d = NewDispatcher ''d'' (map (http_destination wire_net) [?h]) example_policy (NewLogger [])"
  have d: "ld_dispatcher summary_agent = Some d" "dests d = map (http_destination wire_net) [?h]" "policy d = example_policy"
    by (simp_all add: summary_agent_def d_def NewDispatcher_def)
  have "ref_Name (src_Ref (ld_source summary_agent)) = ''logs''"
    by (simp add: summary_agent_def drain_agent_ok(3) list_source_def drain_source_def)
  then have src: "utf8_fix (ref_Name (src_Ref (ld_source summary_agent))) = ref_Name (src_Ref (ld_source summary_agent))"
    by (simp add: utf8_fix_plain plain_def html_special_def)
  have net: "n_Marshal wire_net = Marshal (\<lambda>_. [])" "\<forall>x \<in> set [?h]. n_NewRequest wire_net (hd_url x) = None"
    by (simp_all add: wire_net_def example_net_def)
  have pol: "1 \<le> MaxAttempts (policy d)" "sane_backoff (policy d)" using d(3) example_policy_ok by simp_all
  have "\<forall>x \<in> set (dests d). destination x" using d(2) http_dest.destination_axioms by simp
  from emit_total [OF d(1) this pol] obtain w' where e: "emit summary_json summary_agent background s example_world = (Ret (), w')"
    by blast
  from summaries_reach_destinations [OF s(1) example_ops_ok d(1,2) pol(1) net src e] s(2) obtain b body ns where
    r: "read_summary b = Some s" "Parse (Unmarshal (\<lambda>_. [])) body = (summary_envelope summary_agent s b, None)"
    "length ns = length [?h]" "\<forall>n \<in> set ns. 1 \<le> n"
    "issued example_world w' = posts (summary_envelope summary_agent s b) body (zip [?h] ns)" by auto
  from r(3) obtain n where "ns = [n]" by (cases ns) auto
  with e r show ?thesis by (intro exI [of _ s] exI [of _ b] exI [of _ body] exI [of _ n] exI [of _ w']) simp
qed

end
