(* ===== verification/Redelivery.thy ===== *)
theory Redelivery
  imports StreamAgent "HOL-Library.Sublist"
begin

text \<open>
  What becomes of the entries of a stream over a whole run of its agent, in terms of the consumer group that the server keeps.
  The group is outside of the process: two functions read off its state, for one consumer of it, which
  entries have been given to the group and which are pending with the consumer, and \<open>group_laws\<close> states what the
  documentation of Redis says of the two commands that the agent issues, \<open>XREADGROUP\<close> with any id and \<open>XACK\<close>.
\<close>

section \<open>The group\<close>

definition reply_ids :: "(string \<times> XMessage list) list \<Rightarrow> string list" where
  "reply_ids res = concat (map (\<lambda>(_, msgs). map m_ID msgs) res)"

text \<open>As long as nobody claims entries from the consumer or deletes it: a read with the id \<open>>\<close> gives entries that were not given
  before, each once, and makes them pending, and if it fails it may have done so without an answer; a read with any other id
  gives entries of the history of the consumer, those that it has pending, and changes nothing about them; \<open>XACK\<close> removes the one
  entry, at least if it succeeds.\<close>

definition reads_new :: "'n rdb \<Rightarrow> string \<Rightarrow> string \<Rightarrow> string \<Rightarrow> ('n \<Rightarrow> string set) \<Rightarrow> ('n \<Rightarrow> string set) \<Rightarrow> bool" where
  "reads_new R st grp cons given pend \<longleftrightarrow>
     (\<forall>cnt blk c t n r d n'. x_XReadGroup R st ''>'' grp cons cnt blk c t n = (r, d, n') \<longrightarrow>
        given n \<subseteq> given n' \<and> pend n \<subseteq> pend n' \<and>
        (\<forall>res. r = Inr res \<longrightarrow> distinct (reply_ids res) \<and> set (reply_ids res) \<inter> given n = {} \<and>
           set (reply_ids res) \<subseteq> given n' \<and> pend n' = pend n \<union> set (reply_ids res)))"

definition reads_history :: "'n rdb \<Rightarrow> string \<Rightarrow> string \<Rightarrow> string \<Rightarrow> ('n \<Rightarrow> string set) \<Rightarrow> ('n \<Rightarrow> string set) \<Rightarrow> bool" where
  "reads_history R st grp cons given pend \<longleftrightarrow>
     (\<forall>sid cnt blk c t n r d n'. sid \<noteq> ''>'' \<longrightarrow> x_XReadGroup R st sid grp cons cnt blk c t n = (r, d, n') \<longrightarrow>
        given n \<subseteq> given n' \<and> pend n' = pend n \<and> (\<forall>res. r = Inr res \<longrightarrow> set (reply_ids res) \<subseteq> pend n))"

definition acks_one :: "'n rdb \<Rightarrow> string \<Rightarrow> string \<Rightarrow> ('n \<Rightarrow> string set) \<Rightarrow> ('n \<Rightarrow> string set) \<Rightarrow> bool" where
  "acks_one R st grp given pend \<longleftrightarrow>
     (\<forall>i c t n e d n'. x_XAck R st grp i c t n = (e, d, n') \<longrightarrow>
        given n \<subseteq> given n' \<and> pend n - {i} \<subseteq> pend n' \<and> pend n' \<subseteq> pend n \<and> (e = None \<longrightarrow> i \<notin> pend n'))"

definition group_laws :: "'n rdb \<Rightarrow> string \<Rightarrow> string \<Rightarrow> string \<Rightarrow> ('n \<Rightarrow> string set) \<Rightarrow> ('n \<Rightarrow> string set) \<Rightarrow> bool" where
  "group_laws R st grp cons given pend \<longleftrightarrow>
     (\<forall>n. pend n \<subseteq> given n) \<and> reads_new R st grp cons given pend \<and> reads_history R st grp cons given pend \<and>
     acks_one R st grp given pend"

lemmas group_law_defs = group_laws_def reads_new_def reads_history_def acks_one_def

text \<open>A dispatch does not change what is pending.\<close>

definition same_pending :: "('n \<Rightarrow> string set) \<Rightarrow> ('n \<Rightarrow> string set) \<Rightarrow> 'n world \<Rightarrow> 'n world \<Rightarrow> bool" where
  "same_pending given pend w w' \<longleftrightarrow> pend (outside w') = pend (outside w) \<and> given (outside w) \<subseteq> given (outside w')"

definition leaves_group :: "('n \<Rightarrow> string set) \<Rightarrow> ('n \<Rightarrow> string set) \<Rightarrow> 'n Destination \<Rightarrow> bool" where
  "leaves_group given pend dest \<longleftrightarrow>
     (\<forall>c env w r w'. dest_Dispatch dest c env w = (r, w') \<longrightarrow> same_pending given pend w w')"

lemma same_pending_refl [simp]: "same_pending given pend w w"
  by (simp add: same_pending_def)

lemma same_pending_trans [trans]: "same_pending given pend w w1 \<Longrightarrow> same_pending given pend w1 w2 \<Longrightarrow> same_pending given pend w w2"
  by (auto simp: same_pending_def)

lemma same_pending_outside: "same_pending given pend w w1 \<Longrightarrow> outside w2 = outside w1 \<Longrightarrow> same_pending given pend w w2"
  by (simp add: same_pending_def)

text \<open>Both kinds of destinations leave the group alone, if the HTTP endpoint does.\<close>

lemma leaves_group_http:
  assumes "\<And>req c t n r d n'. n_Do N req c t n = (r, d, n') \<Longrightarrow> pend n' = pend n \<and> given n \<subseteq> given n'"
  shows "leaves_group given pend (http_destination N x)"
proof -
  have "same_pending given pend w w'" if "call cmd (n_Do N req) c w = (r, w')" for cmd req c w r w'
  proof -
    obtain r' t n' where x: "n_Do N req c (clock w) (outside w) = (r', t, n')" by (metis prod_cases3)
    with that have "outside w' = n'" by (auto simp: call_def)
    with assms [OF x] show ?thesis by (simp add: same_pending_def)
  qed
  then show ?thesis
    by (auto simp: leaves_group_def http_destination_def HTTP_Dispatch_def Let_def split: sum.splits option.splits prod.splits if_splits)
qed

lemma leaves_group_log_only: "leaves_group given pend (logOnly name)"
  by (simp add: leaves_group_def logOnly_def)

section \<open>A dispatch\<close>

lemma outside_frame [simp]:
  "outside (log_at lg lv msg as w) = outside w" "outside (counter_Inc m ls w) = outside w"
  "outside (gauge_Set m ls x w) = outside w" "outside (histogram_Observe m ls y w) = outside w"
  "outside (observe (attempts_observer d dest) i s w) = outside w"
  by (simp_all add: log_at_def counter_Inc_def gauge_Set_def histogram_Observe_def observe_def attempts_observer_def)

lemma Do_same_pending:
  assumes "leaves_group given pend dest"
  shows "Do_from p c dest env (attempts_observer d dest) i b l w = (r, w') \<Longrightarrow> same_pending given pend w w'"
proof (induction "nat (MaxAttempts p + 1 - i)" arbitrary: i b l w rule: less_induct)
  case less
  let ?obs = "attempts_observer d dest"
  have att: "same_pending given pend w (observe ?obs j s w1)" if "dest_Dispatch dest (attempt_ctx p c i w) env w = (x, w1)" for x w1 j s
    using assms that same_pending_outside [of given pend w w1] by (auto simp: leaves_group_def)
  show ?case
  proof (cases "i \<le> MaxAttempts p")
    case True
    from less.prems True show ?thesis
    proof (cases rule: Do_from_cases)
      case (Panicked w1 err m)
      show ?thesis by (rule same_pending_outside [OF att [OF Panicked(1)] rand_frame(6) [OF Panicked(4)]])
    next
      case (Cancelled w1 err wait w3 e)
      note 1 = same_pending_outside [OF att [OF Cancelled(1)] rand_frame(6) [OF Cancelled(4)]]
      show ?thesis by (rule same_pending_outside [OF 1 select_frame(6) [OF Cancelled(5)]])
    next
      case (Retry w1 err wait w3 w4)
      note 1 = same_pending_outside [OF att [OF Retry(1)] rand_frame(6) [OF Retry(4)]]
      have "same_pending given pend w w4" by (rule same_pending_outside [OF 1 select_frame(6) [OF Retry(5)]])
      moreover have "same_pending given pend w4 w'" using less.hyps [OF _ Retry(6)] True by simp
      ultimately show ?thesis by (rule same_pending_trans)
    qed (use att in auto)
  next
    case False
    with less.prems show ?thesis by (subst (asm) Do_from.simps) simp
  qed
qed

lemma send_one_same_pending:
  assumes "leaves_group given pend dest" and "send_one d c env dest w = (r, w')"
  shows "same_pending given pend w w'"
proof -
  obtain x w1 where run: "Do_from (policy d) c dest env (attempts_observer d dest) 1 (BackoffInitial (policy d)) None w = (x, w1)"
    by fastforce
  then have "outside w' = outside w1" using assms(2)
    by (auto simp: send_one_def Policy_Do_def Let_def split: prod.splits gores.splits option.splits)
  then show ?thesis using same_pending_outside [OF Do_same_pending [OF assms(1) run]] by blast
qed

lemma send_all_same_pending:
  "\<forall>x \<in> set xs. leaves_group given pend x \<Longrightarrow> send_all d c env xs w = (r, w') \<Longrightarrow> same_pending given pend w w'"
proof (induction xs arbitrary: w r)
  case (Cons x xs)
  obtain r1 w1 where 1: "send_one d c env x w = (r1, w1)" by fastforce
  then have s: "same_pending given pend w w1" using Cons.prems(1) send_one_same_pending by auto
  show ?case
  proof (cases r1)
    case (Panic m)
    with 1 s Cons.prems(2) show ?thesis by simp
  next
    case (Ret out)
    obtain r2 w2 where 2: "send_all d c env xs w1 = (r2, w2)" by fastforce
    with 1 Ret Cons.prems(2) have "w2 = w'" by (auto split: gores.splits)
    then have "same_pending given pend w1 w'" using Cons.IH 2 Cons.prems(1) by simp
    with s show ?thesis by (rule same_pending_trans)
  qed
qed simp

section \<open>Reading and acknowledging\<close>

lemma xack_group:
  assumes "group_laws R st grp cons given pend" and "xack R st grp i c w = (e, w')"
  shows "given (outside w) \<subseteq> given (outside w')" "pend (outside w) - {i} \<subseteq> pend (outside w')" "pend (outside w') \<subseteq> pend (outside w)"
    "e = None \<Longrightarrow> i \<notin> pend (outside w')"
proof -
  obtain e' t n' where x: "x_XAck R st grp i c (clock w) (outside w) = (e', t, n')" by (metis prod_cases3)
  with assms(2) have "e' = e" "outside w' = n'" by (auto simp: xack_def call_def)
  with x assms(1) show "given (outside w) \<subseteq> given (outside w')" "pend (outside w) - {i} \<subseteq> pend (outside w')"
    "pend (outside w') \<subseteq> pend (outside w)" "e = None \<Longrightarrow> i \<notin> pend (outside w')"
    unfolding group_laws_def acks_one_def by metis+
qed

lemma Ack_group:
  assumes "group_laws R (ref_Name (ss_ref s)) (ss_group s) cons given pend" and "read_from (stream_source u R s) d"
    and "Ack d c w = (e, w')"
  shows "given (outside w) \<subseteq> given (outside w')" "pend (outside w) - {d_Position d} \<subseteq> pend (outside w')"
    "pend (outside w') \<subseteq> pend (outside w)"
proof -
  from assms(2) obtain c0 w0 ds w1 where "StreamSource_Read u R s c0 w0 = (Inr ds, w1)" "d \<in> set ds"
    by (auto simp: read_from_def stream_source_def)
  from StreamSource_Read_inv(2) [OF this(1) refl this(2)] obtain msg where "d = toDelivery u R s msg" by blast
  then have "xack R (ref_Name (ss_ref s)) (ss_group s) (d_Position d) c w = (e, w')"
    using assms(3) by (simp add: Ack_def toDelivery_props)
  from xack_group [OF assms(1) this] show "given (outside w) \<subseteq> given (outside w')"
    "pend (outside w) - {d_Position d} \<subseteq> pend (outside w')" "pend (outside w') \<subseteq> pend (outside w)" by simp_all
qed

abbreviation positions :: "'n Delivery list \<Rightarrow> string list" where "positions \<equiv> map d_Position"

lemma Read_group:
  assumes "group_laws R (ref_Name (ss_ref s)) (ss_group s) (ss_consumer s) given pend"
    and "src_Read (stream_source u R s) c w = (res, w')"
  shows "given (outside w) \<subseteq> given (outside w')" "pend (outside w) \<subseteq> pend (outside w')"
    "res = Inr ds \<Longrightarrow> distinct (positions ds) \<and> set (positions ds) \<inter> given (outside w) = {} \<and>
       set (positions ds) \<subseteq> given (outside w') \<inter> pend (outside w')"
proof -
  let ?f = "x_XReadGroup R (ref_Name (ss_ref s)) ''>'' (ss_group s) (ss_consumer s) (ss_count s) (ss_block s)"
  obtain x t n' where x: "?f c (clock w) (outside w) = (x, t, n')" by (metis prod_cases3)
  have law: "given (outside w) \<subseteq> given n'" "pend (outside w) \<subseteq> pend n'"
    "\<And>res. x = Inr res \<Longrightarrow> distinct (reply_ids res) \<and> set (reply_ids res) \<inter> given (outside w) = {} \<and>
       set (reply_ids res) \<subseteq> given n' \<and> pend n' = pend (outside w) \<union> set (reply_ids res)"
    using assms(1) x unfolding group_laws_def reads_new_def by blast+
  have n': "outside w' = n'" using assms(2) x
    by (auto simp: stream_source_def StreamSource_Read_def call_def Let_def split: sum.splits if_splits option.splits)
  with law show "given (outside w) \<subseteq> given (outside w')" "pend (outside w) \<subseteq> pend (outside w')" by simp_all
  assume "res = Inr ds"
  with assms(2) x consider "ds = []" | q where "x = Inr q" "ds = concat (map (\<lambda>(_, msgs). map (toDelivery u R s) msgs) q)"
    by (auto simp: stream_source_def StreamSource_Read_def call_def Let_def split: sum.splits if_splits option.splits)
  then show "distinct (positions ds) \<and> set (positions ds) \<inter> given (outside w) = {} \<and>
       set (positions ds) \<subseteq> given (outside w') \<inter> pend (outside w')"
  proof cases
    case 2
    have "positions ds = reply_ids q"
      unfolding 2(2) reply_ids_def by (induction q) (auto simp: toDelivery_props)
    with law(3) [OF 2(1)] n' show ?thesis by auto
  qed simp
qed

section \<open>A delivery and a batch\<close>

text \<open>The deliveries \<open>hs\<close> were handled: they are acknowledged in this order, and at most they have left the pending entries;
  only new entries were asked for.\<close>

fun is_xack :: "cmd \<Rightarrow> bool" where
  "is_xack (XACK _ _ _) = True"
| "is_xack _ = False"

fun is_read :: "cmd \<Rightarrow> bool" where
  "is_read (XREADGROUP _ _ _ _ _ _) = True"
| "is_read _ = False"

text \<open>The read of new entries.\<close>

definition new_entries :: "StreamSource \<Rightarrow> cmd" where
  "new_entries s = XREADGROUP (ref_Name (ss_ref s)) ''>'' (ss_group s) (ss_consumer s) (ss_count s) (ss_block s)"

definition settles ::
  "StreamSource \<Rightarrow> ('n \<Rightarrow> string set) \<Rightarrow> ('n \<Rightarrow> string set) \<Rightarrow> 'n Delivery list \<Rightarrow> 'n world \<Rightarrow> 'n world \<Rightarrow> bool" where
  "settles s given pend hs w w' \<longleftrightarrow>
     extends w w' \<and> filter is_xack (issued w w') = map (XACK (ref_Name (ss_ref s)) (ss_group s)) (positions hs) \<and>
     list_all (\<lambda>x. is_read x \<longrightarrow> x = new_entries s) (issued w w') \<and> given (outside w) \<subseteq> given (outside w') \<and> pend (outside w) - set (positions hs) \<subseteq> pend (outside w')"

lemma settles_Nil: "same_pending given pend w w' \<Longrightarrow> extends w w' \<Longrightarrow> list_all is_post (issued w w') \<Longrightarrow> settles s given pend [] w w'"
proof -
  have "\<not> is_xack x \<and> \<not> is_read x" if "is_post x" for x using that by (cases x) simp_all
  moreover assume "same_pending given pend w w'" "extends w w'" "list_all is_post (issued w w')"
  ultimately show ?thesis by (auto simp: settles_def same_pending_def list_all_iff filter_empty_conv)
qed

lemma settles_append:
  "settles s given pend hs w w1 \<Longrightarrow> settles s given pend ks w1 w2 \<Longrightarrow> settles s given pend (hs @ ks) w w2"
  using extends_trans [of w w1 w2] by (auto simp: settles_def)

lemma settles_then: "settles s given pend hs w w1 \<Longrightarrow> trace w2 = trace w1 \<Longrightarrow> outside w2 = outside w1 \<Longrightarrow> settles s given pend hs w w2"
  by (simp add: settles_def extends_def issued_def)

lemma Ack_settles:
  assumes "group_laws R (ref_Name (ss_ref s)) (ss_group s) cons given pend" and "read_from (stream_source u R s) d"
    and "Ack d c w = (e, w')"
  shows "settles s given pend [d] w w'"
  using Ack_group [OF assms] stream_src.Ack_read [OF assms(2,3)] by (simp add: settles_def)

definition dispatches_aside :: "('n \<Rightarrow> string set) \<Rightarrow> ('n \<Rightarrow> string set) \<Rightarrow> 'n StreamAgent \<Rightarrow> bool" where
  "dispatches_aside given pend a \<longleftrightarrow> posting (sa_dispatcher a) \<and> (\<forall>x \<in> set (dests (sa_dispatcher a)). leaves_group given pend x)"

lemma Send_settles:
  assumes "dispatches_aside given pend a" and "Send (sa_dispatcher a) c env w = (x, w')"
  shows "settles s given pend [] w w'"
proof (rule settles_Nil)
  from assms(1) have ok: "1 \<le> MaxAttempts (policy (sa_dispatcher a))" "list_all posting_destination (dests (sa_dispatcher a))"
    "\<forall>x \<in> set (dests (sa_dispatcher a)). leaves_group given pend x"
    by (simp_all add: dispatches_aside_def posting_def)
  show "same_pending given pend w w'" by (rule send_all_same_pending [OF ok(3) assms(2) [unfolded Send_def]])
  show "extends w w'" "list_all is_post (issued w w')" using send_all_posts [OF assms(2) [unfolded Send_def] ok(1,2)] by simp_all
qed

lemma handle_settles:
  assumes "group_laws R (ref_Name (ss_ref s)) (ss_group s) cons given pend" and "read_from (stream_source u R s) d"
    and "dispatches_aside given pend a" and "handle a c d w = (r, w')"
  shows "settles s given pend (case r of Ret _ \<Rightarrow> [d] | Panic _ \<Rightarrow> []) w w'"
  using assms(4)
proof (cases rule: handle_cases)
  case (Unprocessable reason)
  let ?w2 = "counter_Inc ''conflux_events_unprocessable_total'' [sa_id a, ref_Name (d_Source d), ''parse'']
    (log_at (sa_log a) LError ''unprocessable entry''
      [(''source'', AStr (ref_Name (d_Source d))), (''position'', AStr (d_Position d)),
       (''reason'', AStr (error_Error reason)), (''raw'', AStr (raw_text d))] w)"
  obtain e w3 where ack: "Ack d c ?w2 = (e, w3)" by fastforce
  have "settles s given pend [] w ?w2" by (rule settles_then [of _ _ _ _ w w]) (simp_all add: settles_Nil same_trace)
  from settles_append [OF this Ack_settles [OF assms(1,2) ack]] have "settles s given pend [d] w w3" by simp
  moreover have "trace w' = trace w3" "outside w' = outside w3"
    using Unprocessable(3) ack by (cases e; simp add: handle_unprocessable_def Let_def)+
  ultimately show ?thesis using Unprocessable(2) settles_then by simp
next
  case (Panicked m)
  then show ?thesis using Send_settles [OF assms(3) Panicked(2)] by simp
next
  case (AckFailed outs w1 w2 err)
  from settles_append [OF Send_settles [OF assms(3) AckFailed(2)] Ack_settles [OF assms(1,2) AckFailed(3)]]
  have "settles s given pend [d] w w2" by simp
  then show ?thesis using settles_then [of s given pend "[d]" w w2 w'] AckFailed(4,5) by simp
next
  case (Acked outs w1 w2)
  from settles_append [OF Send_settles [OF assms(3) Acked(2)] Ack_settles [OF assms(1,2) Acked(3)]]
  have "settles s given pend [d] w w2" by simp
  then show ?thesis using settles_then [of s given pend "[d]" w w2 w'] Acked(4,5) by simp
qed

text \<open>The deliveries of a batch whose handling ends; the recursion is the one of \<open>handle_batch\<close>.\<close>

fun handled_in :: "'n StreamAgent \<Rightarrow> ctx \<Rightarrow> 'n Delivery list \<Rightarrow> 'n world \<Rightarrow> 'n Delivery list" where
  "handled_in a c [] w = []"
| "handled_in a c (d # ds) w =
     (if ctx_Err c w \<noteq> None then []
      else case handle a c d w of
        (Panic m, w1) \<Rightarrow> []
      | (Ret _, w1) \<Rightarrow> d # handled_in a c ds w1)"

lemma handled_in_prefix: "prefix (handled_in a c ds w) ds"
  by (induction ds arbitrary: w) (auto split: gores.split prod.split)

lemma handled_in_all: "handle_batch a c ds w = (Ret False, w') \<Longrightarrow> handled_in a c ds w = ds"
  by (induction ds arbitrary: w) (auto split: gores.splits prod.splits if_splits)

lemma handle_batch_settles:
  assumes "group_laws R (ref_Name (ss_ref s)) (ss_group s) cons given pend" and "dispatches_aside given pend a"
  shows "list_all (read_from (stream_source u R s)) ds \<Longrightarrow> handle_batch a c ds w = (r, w') \<Longrightarrow>
    settles s given pend (handled_in a c ds w) w w'"
proof (induction ds arbitrary: w)
  case Nil
  then show ?case by (simp add: settles_Nil same_trace)
next
  case (Cons d ds)
  show ?case
  proof (cases "ctx_Err c w = None")
    case False
    with Cons.prems(2) have "w' = w" by auto
    with False show ?thesis by (simp add: settles_Nil same_trace)
  next
    case True
    obtain r1 w1 where one: "handle a c d w = (r1, w1)" by fastforce
    have "read_from (stream_source u R s) d" using Cons.prems(1) by simp
    note h = handle_settles [OF assms(1) this assms(2) one]
    show ?thesis
    proof (cases r1)
      case (Panic m)
      with True one Cons.prems(2) have "w1 = w'" by auto
      with True one h Panic show ?thesis by simp
    next
      case (Ret x)
      with True one Cons.prems(2) have rest: "handle_batch a c ds w1 = (r, w')" by simp
      have "settles s given pend (handled_in a c ds w1) w1 w'" using Cons.IH [OF _ rest] Cons.prems(1) by simp
      with True one h Ret settles_append [of s given pend "[d]" w w1] show ?thesis by simp
    qed
  qed
qed

section \<open>A whole run\<close>

text \<open>The deliveries that the loop reads, in order; the recursion is the one of \<open>stream_loop\<close>.\<close>

fun deliveries :: "nat \<Rightarrow> 'n StreamAgent \<Rightarrow> ctx \<Rightarrow> 'n world \<Rightarrow> 'n Delivery list" where
  "deliveries 0 a c w = []"
| "deliveries (Suc fuel) a c w =
     (if ctx_Err c w \<noteq> None then []
      else case src_Read (sa_source a) c w of
        (Inl err, w1) \<Rightarrow> []
      | (Inr ds, w1) \<Rightarrow> ds @ (case handle_batch a c ds w1 of (Ret False, w2) \<Rightarrow> deliveries fuel a c w2 | _ \<Rightarrow> []))"

text \<open>And those that it handles.\<close>

fun handled :: "nat \<Rightarrow> 'n StreamAgent \<Rightarrow> ctx \<Rightarrow> 'n world \<Rightarrow> 'n Delivery list" where
  "handled 0 a c w = []"
| "handled (Suc fuel) a c w =
     (if ctx_Err c w \<noteq> None then []
      else case src_Read (sa_source a) c w of
        (Inl err, w1) \<Rightarrow> []
      | (Inr ds, w1) \<Rightarrow>
          handled_in a c ds w1 @ (case handle_batch a c ds w1 of (Ret False, w2) \<Rightarrow> handled fuel a c w2 | _ \<Rightarrow> []))"

definition accounts ::
  "StreamSource \<Rightarrow> ('n \<Rightarrow> string set) \<Rightarrow> ('n \<Rightarrow> string set) \<Rightarrow> 'n Delivery list \<Rightarrow> 'n Delivery list \<Rightarrow> 'n world \<Rightarrow> 'n world \<Rightarrow> bool" where
  "accounts s given pend ds hs w w' \<longleftrightarrow>
     subseq hs ds \<and> settles s given pend hs w w' \<and> distinct (positions ds) \<and> set (positions ds) \<inter> given (outside w) = {} \<and>
     set (positions ds) - set (positions hs) \<subseteq> pend (outside w')"

lemma Read_settles:
  assumes "group_laws R (ref_Name (ss_ref s)) (ss_group s) (ss_consumer s) given pend"
    and "src_Read (stream_source u R s) c w = (res, w')"
  shows "settles s given pend [] w w'"
proof -
  have "StreamSource_Read u R s c w = (res, w')" using assms(2) by (simp add: stream_source_def)
  from StreamSource_Read_inv(1) [OF this] Read_group(1,2) [OF assms] show ?thesis by (simp add: settles_def new_entries_def)
qed

lemma accounts_round:
  assumes "settles s given pend [] w w1" and "distinct (positions ds)" and "set (positions ds) \<inter> given (outside w) = {}"
    and "set (positions ds) \<subseteq> given (outside w1) \<inter> pend (outside w1)"
    and "settles s given pend ks w1 w2" and "prefix ks ds" and "accounts s given pend es hs w2 w3" and "\<forall>n. pend n \<subseteq> given n"
  shows "accounts s given pend (ds @ es) (ks @ hs) w w3"
proof -
  have sub: "subseq (ks @ hs) (ds @ es)"
    by (rule list_emb_append_mono [OF prefix_imp_subseq [OF assms(6)]]) (use assms(7) in \<open>simp add: accounts_def\<close>)
  have g: "given (outside w) \<subseteq> given (outside w1)" "given (outside w1) \<subseteq> given (outside w2)"
    "pend (outside w1) - set (positions ks) \<subseteq> pend (outside w2)"
    using assms(1,5) by (simp_all add: settles_def)
  have e: "distinct (positions es)" "set (positions es) \<inter> given (outside w2) = {}"
    "set (positions es) - set (positions hs) \<subseteq> pend (outside w3)" "set hs \<subseteq> set es"
    "pend (outside w2) - set (positions hs) \<subseteq> pend (outside w3)"
    using assms(7) by (auto simp: accounts_def settles_def dest: list_emb_set)
  have "set (positions hs) \<subseteq> set (positions es)" using e(4) by auto
  then have "set (positions ds) - set (positions ks) \<subseteq> pend (outside w3)"
    using assms(4,8) g(2,3) e(2,5) by blast
  moreover have "set (positions ds) \<inter> set (positions es) = {}" "set (positions es) \<inter> given (outside w) = {}"
    using assms(4) g(1,2) e(2) by blast+
  then have "distinct (positions (ds @ es))" "set (positions (ds @ es)) \<inter> given (outside w) = {}"
    using assms(2,3) e(1) by auto
  moreover have "settles s given pend (ks @ hs) w w3"
    using settles_append [OF settles_append [OF assms(1,5)]] assms(7) by (simp add: accounts_def)
  ultimately show ?thesis using sub e(3) by (auto simp: accounts_def)
qed

lemma stream_loop_accounts:
  assumes "group_laws R (ref_Name (ss_ref s)) (ss_group s) (ss_consumer s) given pend" and "dispatches_aside given pend a"
    and "sa_source a = stream_source u R s"
  shows "stream_loop fuel a c w = Some (r, w') \<Longrightarrow> accounts s given pend (deliveries fuel a c w) (handled fuel a c w) w w'"
proof (induction fuel arbitrary: w)
  case (Suc fuel)
  have laws: "\<forall>n. pend n \<subseteq> given n" using assms(1) by (simp add: group_laws_def)
  have none: "accounts s given pend [] [] v v'" if "settles s given pend [] v v'" for v v'
    using that by (simp add: accounts_def)
  show ?case
  proof (cases "ctx_Err c w = None")
    case False
    with Suc.prems have "w' = w" by auto
    with False show ?thesis by (simp add: none settles_Nil same_trace)
  next
    case True
    obtain res w1 where read: "src_Read (stream_source u R s) c w = (res, w1)" by fastforce
    note rs = Read_settles [OF assms(1) read]
    show ?thesis
    proof (cases res)
      case (Inl err)
      with Suc.prems True read assms(3) have "w' = w1" by auto
      with rs True read Inl assms(3) show ?thesis by (simp add: none)
    next
      case (Inr ds)
      have origin: "list_all (read_from (stream_source u R s)) ds" using read Inr by (auto simp: list_all_iff read_from_def)
      obtain x w2 where batch: "handle_batch a c ds w1 = (x, w2)" by fastforce
      note settled = handle_batch_settles [OF assms(1,2) origin batch]
      have round: "accounts s given pend (ds @ es) (handled_in a c ds w1 @ hs) w w3" if "accounts s given pend es hs w2 w3" for es hs w3
        using accounts_round [OF rs _ _ _ settled handled_in_prefix that laws] Read_group(3) [OF assms(1) read Inr] by blast
      show ?thesis
      proof (cases "x = Ret False")
        case go: True
        with Suc.prems True read Inr batch assms(3) have "stream_loop fuel a c w2 = Some (r, w')" by simp
        with round [OF Suc.IH] True go read Inr batch assms(3) show ?thesis by simp
      next
        case False
        with Suc.prems True read Inr batch assms(3) have "w' = w2" by (auto split: gores.splits bool.splits)
        moreover have "deliveries (Suc fuel) a c w = ds @ []" "handled (Suc fuel) a c w = handled_in a c ds w1 @ []"
          using False True read Inr batch assms(3) by (auto split: gores.splits bool.splits)
        ultimately show ?thesis using round [of "[]" "[]" w2] by (simp add: none settles_Nil same_trace)
      qed
    qed
  qed
qed simp

abbreviation started :: "'n StreamAgent \<Rightarrow> 'n world \<Rightarrow> 'n world" where
  "started a w \<equiv> log_at (sa_log a) LInfo ''stream agent started'' [] w"

definition run_deliveries :: "nat \<Rightarrow> 'n StreamAgent \<Rightarrow> ctx \<Rightarrow> 'n world \<Rightarrow> 'n Delivery list" where
  "run_deliveries fuel a c w = deliveries fuel a c (started a w)"

definition run_handled :: "nat \<Rightarrow> 'n StreamAgent \<Rightarrow> ctx \<Rightarrow> 'n world \<Rightarrow> 'n Delivery list" where
  "run_handled fuel a c w = handled fuel a c (started a w)"

lemma StreamAgent_Run_accounts:
  assumes "group_laws R (ref_Name (ss_ref s)) (ss_group s) (ss_consumer s) given pend" and "dispatches_aside given pend a"
    and "sa_source a = stream_source u R s" and "StreamAgent_Run fuel a c w = Some (r, w')"
  shows "accounts s given pend (run_deliveries fuel a c w) (run_handled fuel a c w) w w'"
proof -
  have w: "trace (started a w) = trace w" "outside (started a w) = outside w" by simp_all
  then have "issued (started a w) w' = issued w w'" "extends (started a w) w' = extends w w'" by (simp_all add: issued_def extends_def)
  with w have "accounts s given pend ds hs (started a w) w' = accounts s given pend ds hs w w'" for ds hs
    by (simp add: accounts_def settles_def)
  with stream_loop_accounts [OF assms(1-3) assms(4) [unfolded StreamAgent_Run_def]] show ?thesis
    by (simp add: run_deliveries_def run_handled_def)
qed

section \<open>A server with two entries\<close>

text \<open>Its state says whether the entries have been given, and which were acknowledged since.\<close>

definition two_entries :: "XMessage list" where
  "two_entries = [\<lparr>m_ID = ''1-0'', m_Values = [''data'' \<mapsto> FString ''{}'']\<rparr>, \<lparr>m_ID = ''2-0'', m_Values = Map.empty\<rparr>]"

definition two_rdb :: "(bool \<times> string list) rdb" where
  "two_rdb =
     \<lparr>x_XGroupCreateMkStream = (\<lambda>_ _ _. still None),
      x_XReadGroup = (\<lambda>_ sid _ _ _ _ c t n.
        if sid \<noteq> ''>'' then (Inr [(''events'', if fst n then filter (\<lambda>m. m_ID m \<notin> set (snd n)) two_entries else [])], 5, n)
        else if fst n then (Inl RedisNil, 5, n) else (Inr [(''events'', two_entries)], 5, (True, []))),
      x_XAck = (\<lambda>_ _ i c t n. (None, 0, (fst n, i # snd n))), x_XInfoGroups = (\<lambda>_. still (Inr [])),
      x_XInfoStream = (\<lambda>_. still (Inr \<lparr>i_Length = 0, i_Groups = 0, i_FirstEntryID = []\<rparr>)),
      x_XInfoConsumers = (\<lambda>_ _. still (Inr [])), x_XLen = (\<lambda>_. still (Inr 0)),
      x_XPending = (\<lambda>_ _. still (Inr \<lparr>p_Count = 0, p_Consumers = Map.empty\<rparr>)),
      x_XAutoClaim = (\<lambda>_ _ _ _ _ _. still (Inr ([], ''0-0''))),
      x_XGroupDelConsumer = (\<lambda>_ _ _. still None), x_BLPop = (\<lambda>_ _. still (Inl RedisNil)),
      x_LLen = (\<lambda>_. still (Inr 0)), x_Ping = still None\<rparr>"

definition two_given :: "bool \<times> string list \<Rightarrow> string set" where
  "two_given n = (if fst n then {''1-0'', ''2-0''} else {})"

definition two_pending :: "bool \<times> string list \<Rightarrow> string set" where
  "two_pending n = two_given n - set (snd n)"

definition two_net :: "(bool \<times> string list) net" where
  "two_net =
     \<lparr>n_Marshal = (\<lambda>env. Inr ''body''), n_NewRequest = (\<lambda>_. None), n_Do = (\<lambda>_. still (Inr (200, ''200 OK''))),
      n_SendMail = (\<lambda>_ _ _ _. still None)\<rparr>"

definition two_agent :: "(bool \<times> string list) StreamAgent" where
  "two_agent = NewStreamAgent ''a'' (stream_source example_decoder two_rdb example_stream)
     (NewDispatcher ''a'' [http_destination two_net (NewLTR ''http://ltr'' ''a'')] example_policy (NewLogger [])) (NewLogger [])"

lemma two_laws: "group_laws two_rdb st grp cons two_given two_pending"
  by (auto simp: group_law_defs two_rdb_def two_given_def two_pending_def reply_ids_def two_entries_def split: if_splits)

lemma two_agent_ok:
  "dispatches_aside two_given two_pending two_agent" "sa_source two_agent = stream_source example_decoder two_rdb example_stream"
  "posting (sa_dispatcher two_agent)"
proof -
  show "sa_source two_agent = stream_source example_decoder two_rdb example_stream" by (simp add: two_agent_def NewStreamAgent_def)
  show p: "posting (sa_dispatcher two_agent)"
    using example_policy_ok
    by (simp add: posting_def two_agent_def NewStreamAgent_def NewDispatcher_def http_dest.posting_destination_axioms)
  have "leaves_group two_given two_pending (http_destination two_net x)" for x
    by (rule leaves_group_http) (auto simp: two_net_def still_def)
  with p show "dispatches_aside two_given two_pending two_agent"
    by (simp add: dispatches_aside_def two_agent_def NewStreamAgent_def NewDispatcher_def)
qed

text \<open>The agent runs until its context is cancelled.\<close>

lemma two_agent_ends:
  "\<exists>r w'. StreamAgent_Run 501 two_agent (background\<lparr>cancel_at := Some 500\<rparr>) (start_world 0 (\<lambda>_. 0) n) = Some (r, w')"
proof -
  have "timely_reads (stream_source example_decoder two_rdb example_stream) (background\<lparr>cancel_at := Some 500\<rparr>)"
    by (auto simp: timely_reads_def stream_source_def StreamSource_Read_def call_def two_rdb_def Let_def split: if_splits sum.splits option.splits)
  moreover have "nat (500 - clock (log_at (sa_log two_agent) LInfo ''stream agent started'' [] (start_world 0 (\<lambda>_. 0) n))) < 501"
    by (simp add: start_world_def)
  moreover have "cancel_at (background\<lparr>cancel_at := Some 500\<rparr>) = Some 500" "deadline (background\<lparr>cancel_at := Some 500\<rparr>) = None"
    by (simp_all add: background_def)
  ultimately show ?thesis unfolding StreamAgent_Run_def using stream_src.stream_loop_ends [OF two_agent_ok(2,3)] by blast
qed

section \<open>Properties of a run\<close>

lemma accounts_keeps:
  assumes "accounts s given pend ds hs w w'" and "pend (outside w) \<subseteq> given (outside w)"
  shows "set (positions hs) \<subseteq> set (positions ds)" "set (positions hs) \<inter> pend (outside w) = {}" "pend (outside w) \<subseteq> pend (outside w')"
proof -
  have "set hs \<subseteq> set ds" using assms(1) by (auto simp: accounts_def dest: list_emb_set)
  then show hs: "set (positions hs) \<subseteq> set (positions ds)" by auto
  have "set (positions ds) \<inter> given (outside w) = {}" "pend (outside w) - set (positions hs) \<subseteq> pend (outside w')"
    using assms(1) by (simp_all add: accounts_def settles_def)
  with hs assms(2) show "set (positions hs) \<inter> pend (outside w) = {}" "pend (outside w) \<subseteq> pend (outside w')" by blast+
qed

text \<open>
  C2. No entry is lost over a whole run, whatever the destinations answer and however the run ends: every entry that the agent
  was given is given once; those it acknowledged, in the order in which it read them, are entries it has handled to the
  end; and every other one, just as every entry that was pending before, is still pending with the consumer.
\<close>

theorem no_entry_is_lost:
  assumes "group_laws R (ref_Name (ss_ref s)) (ss_group s) (ss_consumer s) given pend" and "dispatches_aside given pend a"
    and "sa_source a = stream_source u R s" and "StreamAgent_Run fuel a c w = Some (r, w')"
  shows "let ds = run_deliveries fuel a c w; hs = run_handled fuel a c w in
    distinct (positions ds) \<and> subseq hs ds \<and>
    filter is_xack (issued w w') = map (XACK (ref_Name (ss_ref s)) (ss_group s)) (positions hs) \<and>
    pend (outside w) \<union> (set (positions ds) - set (positions hs)) \<subseteq> pend (outside w')"
proof -
  note run = StreamAgent_Run_accounts [OF assms]
  have "pend (outside w) \<subseteq> given (outside w)" using assms(1) by (simp add: group_laws_def)
  note keeps = accounts_keeps [OF run this]
  with run show ?thesis by (simp add: accounts_def settles_def Let_def del: set_map)
qed

theorem no_entry_is_lost_witness:
  "\<exists>r w'. StreamAgent_Run 501 two_agent (background\<lparr>cancel_at := Some 500\<rparr>) (start_world 0 (\<lambda>_. 0) (False, [])) = Some (r, w') \<and>
     filter is_xack (issued (start_world 0 (\<lambda>_. 0) (False, [])) w') =
       map (XACK ''events'' ''g:a'')
         (positions (run_handled 501 two_agent (background\<lparr>cancel_at := Some 500\<rparr>) (start_world 0 (\<lambda>_. 0) (False, []))))"
proof -
  obtain r w' where run: "StreamAgent_Run 501 two_agent (background\<lparr>cancel_at := Some 500\<rparr>) (start_world 0 (\<lambda>_. 0) (False, [])) = Some (r, w')"
    using two_agent_ends by blast
  have names: "ref_Name (ss_ref example_stream) = ''events''" "ss_group example_stream = ''g:a''" by (simp_all add: example_stream_def)
  from no_entry_is_lost [OF two_laws two_agent_ok(1,2) run, unfolded names Let_def] run show ?thesis by blast
qed

text \<open>
  C3. But nothing brings such an entry back: every read of the run names the id \<open>>\<close> and none asks for the history of the
  consumer, so an entry that is pending with it when its agent starts - one that was not handled when the previous process was
  stopped, or whose dispatch panicked before the supervisor restarted the agent - is not read, not handled and not acknowledged by
  the run, and is pending as before when it ends. The second scenario of the quickstart expects such entries to be redelivered
  and dispatched after a restart.
\<close>

theorem restart_strands_pending_entries:
  assumes "group_laws R (ref_Name (ss_ref s)) (ss_group s) (ss_consumer s) given pend" and "dispatches_aside given pend a"
    and "sa_source a = stream_source u R s" and "StreamAgent_Run fuel a c w = Some (r, w')" and "i \<in> pend (outside w)"
  shows "(\<forall>x \<in> set (issued w w'). is_read x \<longrightarrow>
      x = XREADGROUP (ref_Name (ss_ref s)) ''>'' (ss_group s) (ss_consumer s) (ss_count s) (ss_block s)) \<and>
    i \<notin> set (positions (run_deliveries fuel a c w)) \<and>
    XACK (ref_Name (ss_ref s)) (ss_group s) i \<notin> set (issued w w') \<and> i \<in> pend (outside w')"
proof -
  note run = StreamAgent_Run_accounts [OF assms(1-4)]
  have "pend (outside w) \<subseteq> given (outside w)" using assms(1) by (simp add: group_laws_def)
  note keeps = accounts_keeps [OF run this]
  have "i \<in> given (outside w)" using assms(1,5) by (auto simp: group_laws_def)
  then have 1: "i \<notin> set (positions (run_deliveries fuel a c w))" using run by (auto simp: accounts_def)
  have 2: "i \<notin> set (positions (run_handled fuel a c w))" using keeps(2) assms(5) by blast
  have "i \<in> pend (outside w')" using keeps(3) assms(5) by blast
  moreover have "XACK (ref_Name (ss_ref s)) (ss_group s) i \<notin> set (issued w w')"
  proof
    assume "XACK (ref_Name (ss_ref s)) (ss_group s) i \<in> set (issued w w')"
    then have "XACK (ref_Name (ss_ref s)) (ss_group s) i \<in> set (filter is_xack (issued w w'))" by simp
    with run 2 show False by (auto simp: accounts_def settles_def)
  qed
  moreover have "\<forall>x \<in> set (issued w w'). is_read x \<longrightarrow> x = new_entries s"
    using run by (simp add: accounts_def settles_def list_all_iff)
  ultimately show ?thesis using 1 unfolding new_entries_def by blast
qed

theorem restart_strands_pending_entries_witness:
  "\<exists>r w'. StreamAgent_Run 501 two_agent (background\<lparr>cancel_at := Some 500\<rparr>) (start_world 0 (\<lambda>_. 0) (True, [''2-0''])) = Some (r, w') \<and>
     ''1-0'' \<in> two_pending (outside w')"
proof -
  obtain r w' where run: "StreamAgent_Run 501 two_agent (background\<lparr>cancel_at := Some 500\<rparr>) (start_world 0 (\<lambda>_. 0) (True, [''2-0''])) = Some (r, w')"
    using two_agent_ends by blast
  have "''1-0'' \<in> two_pending (outside (start_world 0 (\<lambda>_. 0) (True, [''2-0''])))"
    by (simp add: two_pending_def two_given_def start_world_def)
  from restart_strands_pending_entries [OF two_laws two_agent_ok(1,2) run this] run show ?thesis by blast
qed

end
