(* ===== verification/Spec2Isabelle.thy ===== *)
theory Spec2Isabelle
  imports Stub RedisSource Summarize Anomaly StreamAgent Runner LogDrain Process Wire Metrics Server SummaryText Redelivery
begin

text \<open>
  \<^bold>\<open>pulse-conflux, verified\<close>

  The program (Go, under \<open>src/\<close>) is an event agent runtime. It reads envelopes that a gateway writes to
  Redis streams and log entries it pushes to a Redis list, forwards events to HTTP destinations with bounded
  retries, folds log entries into period summaries, keeps its own consumer groups tidy, and reports
  its health. This development models its implementation files and proves what makes them correct.

  \<^bold>\<open>Parts and theories.\<close> Each theory opens with what it models; definitions keep the names of the source.

  \<^item> \<open>Prelude\<close>: int64 wrap-around, durations and instants in nanoseconds, the string functions of \<open>strings\<close> and
    \<open>strconv\<close> that the code calls, shared lemmas and the collections \<open>go_defs\<close> and \<open>frame\<close>.
  \<^item> \<open>GoRuntime\<close>: errors with their wrapping chains, panics as values, contexts, the clock, random draws, logging
    (\<open>observability/logging.go\<close>), metrics as maps, and \<open>world\<close>, the state of the process with the trace of all
    commands it has issued to Redis, HTTP destinations and the mail server. \<open>extends\<close> and \<open>issued\<close> speak about what a
    step adds to the trace.
  \<^item> \<open>StdParse\<close>, \<open>GoTime\<close>: \<open>ParseInt\<close>, \<open>ParseBool\<close>, \<open>ParseDuration\<close>; rounding and printing of durations, the
    Gregorian calendar and \<open>time.RFC3339\<close>.
  \<^item> \<open>Envelope\<close> (\<open>envelope/\<close>), \<open>Config\<close> (\<open>config/\<close>): parsing and validation of an envelope; loading, agent-id
    normalisation and validation of the configuration.
  \<^item> \<open>Json\<close>, \<open>TimeText\<close>, \<open>Codec\<close>: what envelopes use of \<open>encoding/json\<close> - the scanner as a state machine over bytes,
    compaction, HTML escaping, strings and UTF-8 - and of the text form of \<open>time.Time\<close>; with them, \<open>json.Unmarshal\<close> into and
    \<open>json.Marshal\<close> of the struct of \<open>envelope.go\<close>. \<open>JsonText\<close>: objects, arrays and booleans, and that a text made of them is
    one value, is read back and is compact.
  \<^item> \<open>Dispatch\<close> (\<open>dispatch/destination.go\<close>, \<open>retry.go\<close>, \<open>outcome.go\<close>) and \<open>Stub\<close> (\<open>dispatch/stub/\<close>): the retry loop,
    the dispatcher with its drop accounting, HTTP destinations and the mail notifier.
  \<^item> \<open>Ingest\<close> (\<open>ingest/source.go\<close>) and \<open>RedisSource\<close> (\<open>ingest/redis/\<close>): deliveries and sources; streams with
    consumer groups, the list, lag, reclaiming and retiring.
  \<^item> \<open>Summarize\<close>, \<open>Housekeeping\<close> (\<open>housekeeping/\<close>): the aggregator; the reclaim and report tasks.
  \<^item> \<open>Anomaly\<close> (\<open>observability/anomaly.go\<close>) and \<open>Monitor\<close> (\<open>agent/monitor.go\<close>, \<open>observability/http.go\<close>): the detector;
    sampling, readiness and liveness. \<open>Server\<close> (\<open>observability/http.go\<close>): the routes, the JSON body of \<open>/readyz\<close>, and \<open>Start\<close>.
    \<open>Metrics\<close> (\<open>observability/metrics.go\<close>): the instruments and their labels.
  \<^item> \<open>StreamAgent\<close>, \<open>LogDrain\<close>, \<open>Periodic\<close>, \<open>Runner\<close>, \<open>Registry\<close> (\<open>agent/\<close>): the three kinds of agents, their
    supervision, and how they are built from the configuration.
  \<^item> \<open>Process\<close> (\<open>cmd/conflux/main.go\<close>): start-up and shutdown; \<open>run\<close> and \<open>main\<close> as a whole are in \<open>Server\<close>.
  \<^item> Compositions: \<open>Wire\<close> (from an accepted entry to the bytes that destinations receive), \<open>SummaryText\<close> (the JSON text of a
    summary, and its way to the destinations), \<open>Redelivery\<close> (what becomes of the entries of a consumer group over a whole run),
    and this theory.

  \<^bold>\<open>How state and effects are modelled.\<close> A function that logs, measures or talks to the outside takes the \<open>world\<close>
  and returns it. Errors are \<open>gerror\<close> values; a function that can panic returns a \<open>gores\<close>. Code outside the repository
  is a parameter: the go-redis client with its server (\<open>rdb\<close>, one external function per command), the HTTP and SMTP
  clients (\<open>net\<close>), and \<open>strconv.ParseFloat\<close>. The agents also take the JSON functions they call as parameters (\<open>n_Marshal\<close>,
  \<open>json_decoder\<close>, \<open>summary_encoder\<close>), so that their properties hold for every encoding; \<open>Codec.Marshal\<close>, \<open>Codec.Unmarshal\<close> and
  \<open>summary_json\<close> are the ones of the program, and \<open>Wire\<close> and \<open>SummaryText\<close> put them in place. The wording of the errors of
  \<open>encoding/json\<close> stays a parameter (\<open>explain\<close>). Parameters may reply anything, take any time and change the outside state; a
  context may be cancelled at any instant.
  Concurrency is explicit where the code has it: \<open>runner_step\<close> interleaves all supervisors with
  arbitrary results of the agents, on a clock by which the timers of their waits fire; \<open>periodic_step\<close> interleaves ticks with task goroutines, and the detector, the
  monitor and the probes are stated for arbitrary sequences of calls.

  \<^bold>\<open>Interfaces.\<close> The locales \<open>destination\<close> and \<open>posting_destination\<close> (interpreted for the HTTP and the log-only destination),
  \<open>notifier\<close> (the mail notifier) and \<open>source\<close> (streams and lists) state what clients rely on; the
  lemmas on dispatching, on stream agents, on log drains and on the detector are proved inside them.

  \<^bold>\<open>What is shown.\<close> Delivery: an entry is acknowledged only when its dispatch is resolved at every destination, in order,
  for every deployment (this theory, \<open>StreamAgent\<close>, \<open>Dispatch\<close>). Retries: the loop refines a specification of the
  deciding attempt, is bounded in attempts and does on the wire what it reports (\<open>Dispatch\<close>, \<open>Stub\<close>); all its requests carry one
  body, which the contract of the service itself reads as the event that was accepted but for the spelling of header and payload
  (\<open>Wire\<close>). Over a whole run no entry of a
  group is lost: it is acknowledged after it was handled, or it stays pending (\<open>Redelivery\<close>). Summaries
  conserve entries, cover disjoint periods and have distinct ids (\<open>Summarize\<close>, \<open>LogDrain\<close>), and are read back
  from the lines of the log and from what destinations get (\<open>SummaryText\<close>). Anomalies are active exactly
  when sustained, and alerts are bounded (\<open>Anomaly\<close>, \<open>Monitor\<close>). Every agent stays supervised in every interleaving, a
  panic is a counted and named failure of its agent, an agent that keeps failing is restarted no faster than its backoff allows, and runs of a task do not overlap (\<open>Runner\<close>, \<open>Periodic\<close>). Readiness, start-up and
  building are characterised exactly, the endpoints answer with JSON whatever they report (\<open>Server\<close>), and every use of a metric
  fits its declaration (\<open>Metrics\<close>); housekeeping and monitoring issue only the commands they may. Some
  theorems show where the code does not do what its documentation says, for example that the reclaim task never works on a
  stream agent's group (\<open>Housekeeping\<close>), that nothing brings back an entry left pending (\<open>Redelivery\<close>), or that payloads do not
  travel byte for byte (\<open>Wire\<close>, \<open>Codec\<close>).

  \<^bold>\<open>Fuel.\<close> Loops that the outside can keep alive have fuel, and running out is \<open>None\<close>. For \<open>Reclaim\<close>, enough fuel is a
  measure of the server's cursor (\<open>Reclaim_terminates_and_claims_only\<close>); for \<open>StreamAgent_Run\<close>, the time to
  cancellation (\<open>StreamAgent_Run_ends\<close>). Theorems on \<open>supervise\<close>, \<open>LogDrain_Run\<close> and the reclaim task are about every
  fuel with which they return. The retry loop needs none: it terminates by its attempt budget.

  \<^bold>\<open>What is assumed.\<close> Hypotheses about code outside the repository are named: \<open>group_laws\<close> and \<open>leaves_group\<close> for the consumer
  group of Redis (reads with any id, and \<open>XACK\<close>), \<open>cursor_progress\<close> for the cursor of \<open>XAUTOCLAIM\<close>, \<open>timely_reads\<close> and \<open>replies\<close> for servers that answer; each has a concrete instance in a witness.

  \<^bold>\<open>Not modelled.\<close> The JSON lines that \<open>slog\<close> writes for the log, the Prometheus registry and its exposition (the handler of \<open>/metrics\<close> is an
  argument), connections and protocol of the HTTP server and clients with redirects and replays of requests, the instants of signals, the effect of \<open>Close\<close> and \<open>Shutdown\<close> beyond what they log, and
  \<open>godotenv\<close>: they are code of libraries, which the source only calls. Floating-point settings are kept as literals, since
  nothing computes with them.
\<close>

section \<open>Properties that span components\<close>

text \<open>C17. From the environment to the running process: when start-up succeeds, the agents that are built, the
  supervisors the runner holds and the agents the monitor samples are all exactly the enabled agents
  of a validated configuration, in order, with pairwise different ids; every supervisor is
  fresh; and the commands issued are one ping and one group creation per enabled stream agent on a stream.\<close>

theorem startup_runs_exactly_the_enabled_agents:
  assumes "run_start fuel u N R pf host get c w = (Inr p, w')"
  shows "let ids = map a_ID (Config_Enabled (pc_cfg p)) in
    Config_Validate (pc_cfg p) = None \<and> distinct ids \<and>
    map built_ID (pc_agents p) = ids \<and> map mo_ID (mn_agents (pc_monitor p)) = ids \<and>
    dom (pc_supervisors p) = set ids \<and>
    (\<forall>i sv. pc_supervisors p i = Some sv \<longrightarrow> sv = new_supervisor (pc_runner p)) \<and>
    issued w w' = PING # concat (map (build_cmds (pc_cfg p)) (Config_Enabled (pc_cfg p)))"
proof (rule run_start_inv [OF assms])
  fix w1 w2 w3
  assume l: "loadFrom pf host get = Inr (pc_cfg p)"
    and s: "pc_supervisors p = Start (pc_runner p) (map built_ID (pc_agents p)) Map.empty"
    and m: "pc_monitor p = NewMonitor (map monitored (pc_agents p)) (pc_cfg p) (run_detector_of N (pc_cfg p) (pc_log p))"
  note b = run_start_built [OF assms]
  then have ids: "map built_ID (pc_agents p) = map a_ID (Config_Enabled (pc_cfg p))" using list_all2_built_IDs by blast
  have mon: "map mo_ID (mn_agents (pc_monitor p)) = map built_ID (pc_agents p)"
    by (simp add: m NewMonitor_def monitored_def)
  have "dom (pc_supervisors p) = set (map built_ID (pc_agents p))" unfolding s Start_dom by simp
  moreover have "sv = new_supervisor (pc_runner p)" if "pc_supervisors p i = Some sv" for i sv
    using Start_Some [of "pc_runner p" "map built_ID (pc_agents p)" Map.empty i sv] that s by simp
  ultimately show ?thesis using b ids mon loadFrom_distinct_ids [OF l] unfolding Let_def by simp
qed

definition example_env :: "string \<Rightarrow> string" where
  "example_env k =
     (if k = ''CONFLUX_AGENTS'' then ''events-ltr''
      else if k = ''AGENT_EVENTS_LTR_MODE'' then ''stream''
      else if k = ''AGENT_EVENTS_LTR_SOURCE'' then ''events''
      else if k = ''AGENT_EVENTS_LTR_DESTINATIONS'' then ''ltr''
      else [])"

lemma example_env_loads:
  "case loadFrom (\<lambda>_. None) ''pod'' example_env of
     Inl e \<Rightarrow> False
   | Inr cfg \<Rightarrow> map a_ID (Config_Enabled cfg) = [''events-ltr''] \<and>
       list_all (\<lambda>ac. list_all known_destination (a_Destinations ac) \<and> a_Mode ac \<noteq> ModePeriodic) (Config_Enabled cfg)"
  by code_simp

theorem startup_runs_exactly_the_enabled_agents_witness:
  "\<exists>p w'. run_start 1 (\<lambda>_. Inl []) example_net quiet_rdb (\<lambda>_. None) ''pod'' example_env background example_world = (Inr p, w') \<and>
     map built_ID (pc_agents p) = [''events-ltr''] \<and> dom (pc_supervisors p) = {''events-ltr''}"
proof -
  obtain cfg where l: "loadFrom (\<lambda>_. None) ''pod'' example_env = Inr cfg" and i: "map a_ID (Config_Enabled cfg) = [''events-ltr'']"
    and k: "\<And>ac. ac \<in> set (Config_Enabled cfg) \<Longrightarrow> list_all known_destination (a_Destinations ac) \<and> a_Mode ac \<noteq> ModePeriodic"
    using example_env_loads by (cases "loadFrom (\<lambda>_. None) ''pod'' example_env") (simp, force simp: list_all_iff)
  have v: "Config_Validate cfg = None" using loadFrom_Inr [OF l] by blast
  have b: "\<exists>as w'. Build 1 (\<lambda>_. Inl []) example_net quiet_rdb cfg (NewLogger (LogLevel cfg)) background w = (Inr as, w')" for w
    unfolding Build_def by (rule build_all_succeeds [OF quiet_groups_ready]) (use k Validate_agents [OF v] in blast)
  have n: "fst (NewClient quiet_rdb (Addr (c_Redis cfg)) (DB (c_Redis cfg)) (NewLogger (LogLevel cfg)) background w) = None" for w
    by (simp add: NewClient_def call_def quiet_rdb_def still_def)
  have "\<exists>p w'. run_start 1 (\<lambda>_. Inl []) example_net quiet_rdb (\<lambda>_. None) ''pod'' example_env background example_world = (Inr p, w')"
    by (rule run_start_succeeds [OF l n b])
  then obtain p w' where run: "run_start 1 (\<lambda>_. Inl []) example_net quiet_rdb (\<lambda>_. None) ''pod'' example_env background example_world = (Inr p, w')"
    by blast
  have "pc_cfg p = cfg" by (rule run_start_inv [OF run]) (use l in simp)
  with startup_runs_exactly_the_enabled_agents [OF run] run i show ?thesis by (auto simp: Let_def)
qed

text \<open>C1. The delivery guarantee for the system as it is deployed: let any validated configuration be built, and
  let one of the resulting stream agents handle any entry its source delivers and that parses. Then the only commands
  are the posts of its dispatch, followed, if the dispatch did not panic, by the acknowledgement of that entry on
  the configured stream in the agent's own group; and at that point there is an outcome
  for each configured destination, in order.\<close>

theorem deployed_agents_acknowledge_only_what_is_resolved:
  assumes "Build fuel u N R cfg lg c0 w0 = (Inr as, w0')" and "Config_Validate cfg = None"
    and "BuiltStream a \<in> set as" and "read_from (sa_source a) d" and "d_Unprocessable d = None"
    and "handle a c d w = (r, w')"
  shows "\<exists>ac \<in> set (Config_Enabled cfg). a_ID ac = sa_id a \<and>
    (\<exists>res w1. Send (sa_dispatcher a) c (d_Envelope d) w = (res, w1) \<and> list_all is_post (issued w w1) \<and>
      (case res of
         Panic m \<Rightarrow> issued w w' = issued w w1
       | Ret outs \<Rightarrow> map out_Destination outs = filter (\<lambda>n. n \<noteq> ''none'') (a_Destinations ac) \<and>
           issued w w' = issued w w1 @
             [XACK (a_Source ac) (GroupName (ConsumerGrp (c_Redis cfg)) (a_ID ac)) (d_Position d)]))"
proof -
  from build_all_Inr [OF assms(1) [unfolded Build_def]]
  have "list_all2 (built_for u R cfg) (Config_Enabled cfg) as" by blast
  then obtain ac where ac: "ac \<in> set (Config_Enabled cfg)" and b: "built_for u R cfg ac (BuiltStream a)"
    using list_all2_mem [OF _ assms(3)] by blast
  obtain s where s: "sa_source a = stream_source u R s" "ss_ref s = \<lparr>ref_Name = a_Source ac, ref_Kind = KindStream\<rparr>"
    "ss_group s = GroupName (ConsumerGrp (c_Redis cfg)) (a_ID ac)" using b by (auto simp: reads_as_def)
  have d: "dispatches cfg ac (sa_dispatcher a)" "sa_id a = a_ID ac" using b by auto
  have "1 \<le> d_MaxAttempts (c_Dispatch cfg)" using assms(2) by (simp add: Validate_accepts)
  then have "posting (sa_dispatcher a)" using d(1) by (simp add: posting_def dispatches_def NewPolicy_def)
  from handle_resolved [OF assms(4) [unfolded s(1)] this assms(5,6)]
  obtain res w1 where sent: "Send (sa_dispatcher a) c (d_Envelope d) w = (res, w1)" "list_all is_post (issued w w1)"
    and res: "case res of Panic m \<Rightarrow> r = Panic m \<and> w' = w1
     | Ret outs \<Rightarrow> map out_Destination outs = map dest_Name (dests (sa_dispatcher a)) \<and>
         issued w w' = issued w w1 @ [XACK (ref_Name (ss_ref s)) (ss_group s) (d_Position d)]" by blast
  have "case res of
         Panic m \<Rightarrow> issued w w' = issued w w1
       | Ret outs \<Rightarrow> map out_Destination outs = filter (\<lambda>n. n \<noteq> ''none'') (a_Destinations ac) \<and>
           issued w w' = issued w w1 @
             [XACK (a_Source ac) (GroupName (ConsumerGrp (c_Redis cfg)) (a_ID ac)) (d_Position d)]"
    using res d(1) s(2,3) by (cases res) (simp_all add: dispatches_def)
  with ac d(2) sent show ?thesis by (intro bexI [of _ ac] conjI exI) auto
qed

theorem deployed_agents_acknowledge_only_what_is_resolved_witness:
  "\<exists>(a :: unit StreamAgent) (d :: unit Delivery) res w1. sa_id a = ''events-ltr'' \<and> d_Position d = ''1-0'' \<and> read_from (sa_source a) d \<and>
     Send (sa_dispatcher a) background (d_Envelope d) example_world = (res, w1) \<and> list_all is_post (issued example_world w1)"
proof (rule example_build [of example_decoder])
  fix as and w0'
  assume b: "Build 1 example_decoder example_net one_entry_rdb example_config (NewLogger ''info'') background example_world = (Inr as, w0')"
  have e: "Config_Enabled example_config =
      example_agent_cfg ''events-ltr'' ''EVENTS_LTR'' ModeStream ''events'' kindStream [''ltr''] # tl (c_Agents example_config)"
    by (simp add: Config_Enabled_def example_config_def example_agent_cfg_def)
  from build_all_Inr [OF b [unfolded Build_def]] obtain x xs where as: "as = x # xs"
    and x: "built_for example_decoder one_entry_rdb example_config
      (example_agent_cfg ''events-ltr'' ''EVENTS_LTR'' ModeStream ''events'' kindStream [''ltr'']) x"
    unfolding e by (auto simp: list_all2_Cons1)
  then obtain a where a: "x = BuiltStream a" "sa_id a = ''events-ltr''" by (cases x) (simp_all add: example_agent_cfg_def)
  obtain s where s: "sa_source a = stream_source example_decoder one_entry_rdb s" using x a(1) by (auto simp: reads_as_def)
  let ?d = "toDelivery example_decoder one_entry_rdb s \<lparr>m_ID = ''1-0'', m_Values = [''data'' \<mapsto> FString ''{}'']\<rparr>"
  have rd: "read_from (sa_source a) ?d"
    unfolding read_from_def s
    by (intro exI [of _ background] exI [of _ example_world])
       (simp add: stream_source_def StreamSource_Read_def one_entry_rdb_def call_def Let_def)
  have d: "d_Unprocessable ?d = None" "d_Position ?d = ''1-0''"
    by (simp_all add: toDelivery_def rawData_def Let_def NewDelivery_def Parse_def example_decoder_def Envelope_Validate_def)
  have m: "BuiltStream a \<in> set as" using as a by simp
  obtain r w' where h: "handle a background ?d example_world = (r, w')" by fastforce
  from deployed_agents_acknowledge_only_what_is_resolved [OF b example_config_valid m rd d(1) h] a(2) d(2) rd
  show ?thesis by blast
qed

text \<open>C22. Monitoring never touches the queue: whatever agents a configuration builds, a sample issues nothing but
  the commands that read a group's, a stream's or a list's state, and mail to support. In particular it
  reads no entry, acknowledges none and creates no group.\<close>

theorem monitoring_never_touches_the_queue:
  assumes "Build fuel u N R cfg lg c0 w0 = (Inr as, w0')"
    and "mn_agents m = map monitored as" and "det_notifier (mn_detector m) = Some (Notify N (c_Anomaly cfg) lg')"
    and "Monitor_sample hs c m w = (m', w')"
  shows "extends w w' \<and> list_all monitor_cmd (issued w w')"
proof -
  from build_all_Inr [OF assms(1) [unfolded Build_def]]
  have "list_all2 (built_for u R cfg) (Config_Enabled cfg) as" by blast
  then have "list_all reads_lag (mn_agents m)"
    unfolding assms(2) by (induction rule: list_all2_induct) (auto intro: built_reads_lag)
  from sample_agents_emits [OF assms(3) this, of w "mn_cfg m" hs c "clock w" Map.empty] assms(4) show ?thesis
    by (simp add: Monitor_sample_def sample_def case_prod_unfold Let_def emits_def)
qed

theorem monitoring_never_touches_the_queue_witness:
  "\<exists>as. map built_ID as = [''events-ltr'', ''logs'', ''pending-reclaim''] \<and>
     list_all monitor_cmd (issued example_world (snd (Monitor_sample [] background
       (NewMonitor (map monitored as) example_config (run_detector_of example_net example_config (NewLogger ''info''))) example_world)))"
proof (rule example_build [of example_decoder])
  fix as and w0'
  assume b: "Build 1 example_decoder example_net one_entry_rdb example_config (NewLogger ''info'') background example_world = (Inr as, w0')"
  let ?m = "NewMonitor (map monitored as) example_config (run_detector_of example_net example_config (NewLogger ''info''))"
  have m: "mn_agents ?m = map monitored as" "det_notifier (mn_detector ?m) = Some (Notify example_net (c_Anomaly example_config) (NewLogger ''info''))"
    by (simp_all add: NewMonitor_def run_detector_of_def NewDetector_def)
  from monitoring_never_touches_the_queue [OF b m, of "[]" background example_world] example_build_ids [OF b] show ?thesis by (metis prod.collapse)
qed

end
